theory Spec2Isabelle
  imports Main "HOL-Library.Multiset"
begin

section \<open>Exceptions\<close>

text \<open>
  The C++ sources signal errors by throwing standard exceptions or by returning
  \<open>false\<close>.  A throwing function is modelled with result type
  \<open>exn + 'a\<close>; \<open>Inl\<close> carries the exception.  Behaviour that C++ leaves
  undefined and that the sources do not guard (reading a missing variadic argument,
  dereferencing a null pointer) is a value of its own, so it is never confused with
  a normal return.
\<close>

datatype exn =
    out_of_range
  | invalid_argument
  | runtime_error
  | logic_error
  | length_error
  | undefined_behaviour

section \<open>Arithmetic of \<open>int\<close>\<close>

text \<open>
  The division and remainder of C++ on \<open>int\<close>, which round towards zero, and the
  value an \<open>int\<close> holds after an addition or multiplication that leaves the range
  of 32 bits.
\<close>

definition c_div :: "int \<Rightarrow> int \<Rightarrow> int" where
  "c_div a b = sgn a * sgn b * (\<bar>a\<bar> div \<bar>b\<bar>)"

definition c_mod :: "int \<Rightarrow> int \<Rightarrow> int" where
  "c_mod a b = a - b * c_div a b"

definition wrap32 :: "int \<Rightarrow> int" where
  "wrap32 x = (x + 2147483648) mod 4294967296 - 2147483648"

section \<open>Array (n-dimensional, row-major)\<close>

text \<open>
  \<open>class Array\<close>: \<open>base\<close> is the element storage, \<open>bounds\<close> the length of each
  dimension, \<open>constants\<close> the row-major multipliers.
\<close>

record Array =
  base :: "int list"
  dim :: int
  bounds :: "int list"
  constants :: "int list"
  total :: int

text \<open>
  The loop of \<open>Locate\<close> over dimensions \<open>1 .. dim - 1\<close>.  The variadic argument
  list is the list \<open>va\<close>; \<open>va_arg\<close> takes its head.  Reading an argument the
  caller did not pass is undefined in C++.
\<close>

function Locate_loop :: "Array \<Rightarrow> int \<Rightarrow> int list \<Rightarrow> int \<Rightarrow> exn + int" where
  "Locate_loop a i va idx =
     (if i < dim a then
        (case va of
           [] \<Rightarrow> Inl undefined_behaviour
         | sub # va' \<Rightarrow>
             if sub < 0 \<or> sub \<ge> bounds a ! nat i then Inl out_of_range
             else Locate_loop a (i + 1) va' (idx + sub * constants a ! nat i))
      else Inr idx)"
  by pat_completeness auto
termination
  by (relation "measure (\<lambda>(a, i, va, idx). nat (dim a - i))") auto

definition Locate :: "Array \<Rightarrow> int \<Rightarrow> int list \<Rightarrow> exn + int" where
  "Locate a sub0 va =
     (if dim a \<le> 0 then Inl out_of_range
      else if sub0 < 0 \<or> sub0 \<ge> bounds a ! 0 then Inl out_of_range
      else Locate_loop a 1 va (0 + sub0 * constants a ! 0))"

text \<open>
  \<open>operator()(sub0, ...)\<close> returns a reference to \<open>base[pos]\<close>; the model returns
  the offset \<open>pos\<close> into \<open>base\<close> that the reference denotes.
\<close>

definition Array_call :: "Array \<Rightarrow> int \<Rightarrow> int list \<Rightarrow> exn + int" where
  "Array_call a sub0 va =
     (case Locate a sub0 va of Inl e \<Rightarrow> Inl e | Inr pos \<Rightarrow> Inr pos)"

section \<open>CharString\<close>

text \<open>
  \<open>class CharString\<close>: \<open>strVal\<close> is the heap buffer including the terminating
  NUL, \<open>length\<close> the number of characters before it.
\<close>

record CharString =
  strVal :: "char list"
  length_cs :: int

definition NUL :: char where
  "NUL = CHR 0x00"

text \<open>\<open>strlen\<close>: the characters before the first NUL.\<close>

definition strlen :: "char list \<Rightarrow> int" where
  "strlen s = int (length (takeWhile (\<lambda>c. c \<noteq> NUL) s))"

text \<open>\<open>CharString(const char *source)\<close> for a non-null, NUL-terminated source.\<close>

definition CharString_of :: "char list \<Rightarrow> CharString" where
  "CharString_of source =
     \<lparr> strVal = takeWhile (\<lambda>c. c \<noteq> NUL) source @ [NUL], length_cs = strlen source \<rparr>"

definition Length :: "CharString \<Rightarrow> int" where
  "Length s = length_cs s"

text \<open>
  \<open>char &operator[](int pos) const { return strVal[pos]; }\<close>: no test of \<open>pos\<close>
  (the source comment says so); the reference returned denotes offset \<open>pos\<close> of
  \<open>strVal\<close>, whatever \<open>pos\<close> is.
\<close>

definition CharString_index :: "CharString \<Rightarrow> int \<Rightarrow> exn + int" where
  "CharString_index s pos = Inr pos"

section \<open>TriSparseMatrix (triple table)\<close>

record Triple =
  row :: int
  col :: int
  val :: int

text \<open>\<open>Triple()\<close>: all fields value-initialised.\<close>

definition Triple0 :: Triple where
  "Triple0 = \<lparr> row = 0, col = 0, val = 0 \<rparr>"

text \<open>
  \<open>class TriSparseMatrix\<close> with \<open>ElemType = int\<close>: \<open>triElems\<close> is the array of
  \<open>maxSize\<close> triples, of which the first \<open>num\<close> are in use.
\<close>

record TriSparseMatrix =
  triElems :: "Triple list"
  maxSize :: int
  rows :: int
  cols :: int
  num :: int

text \<open>The constructor \<open>TriSparseMatrix(rs, cs, size)\<close>.\<close>

definition TriSparseMatrix_new :: "int \<Rightarrow> int \<Rightarrow> int \<Rightarrow> TriSparseMatrix" where
  "TriSparseMatrix_new rs cs sz =
     (let ms = (if sz < 0 then 0 else sz) in
      \<lparr> triElems = replicate (nat ms) Triple0, maxSize = ms,
        rows = rs, cols = cs, num = 0 \<rparr>)"

text \<open>
  The search loop of \<open>SetElem\<close>:
  \<open>for (pos = num-1; pos >= 0 && (r < te[pos].row || (r == te[pos].row && c < te[pos].col)); --pos) {}\<close>
\<close>

function SetElem_scan :: "Triple list \<Rightarrow> int \<Rightarrow> int \<Rightarrow> int \<Rightarrow> int" where
  "SetElem_scan te r c pos =
     (if pos \<ge> 0 \<and> (r < row (te ! nat pos) \<or> (r = row (te ! nat pos) \<and> c < col (te ! nat pos)))
      then SetElem_scan te r c (pos - 1) else pos)"
  by pat_completeness auto
termination
  by (relation "measure (\<lambda>(te, r, c, pos). nat (pos + 1))") auto

text \<open>\<open>for (int k = pos+1; k < num; ++k) triElems[k-1] = triElems[k];\<close>\<close>

function shift_down :: "Triple list \<Rightarrow> int \<Rightarrow> int \<Rightarrow> Triple list" where
  "shift_down te k n =
     (if k < n then shift_down (te[nat (k - 1) := te ! nat k]) (k + 1) n else te)"
  by pat_completeness auto
termination
  by (relation "measure (\<lambda>(te, k, n). nat (n - k))") auto

text \<open>\<open>for (int k = num-1; k > pos; --k) triElems[k+1] = triElems[k];\<close>\<close>

function shift_up :: "Triple list \<Rightarrow> int \<Rightarrow> int \<Rightarrow> Triple list" where
  "shift_up te k pos =
     (if k > pos then shift_up (te[nat (k + 1) := te ! nat k]) (k - 1) pos else te)"
  by pat_completeness auto
termination
  by (relation "measure (\<lambda>(te, k, pos). nat (k - pos))") auto

definition SetElem :: "TriSparseMatrix \<Rightarrow> int \<Rightarrow> int \<Rightarrow> int \<Rightarrow> bool \<times> TriSparseMatrix" where
  "SetElem m r c v =
     (if r < 1 \<or> r > rows m \<or> c < 1 \<or> c > cols m then (False, m)
      else
        let pos = SetElem_scan (triElems m) r c (num m - 1) in
        if pos \<ge> 0 \<and> row (triElems m ! nat pos) = r \<and> col (triElems m ! nat pos) = c then
          (if v = 0 then
             (True, m\<lparr> triElems := shift_down (triElems m) (pos + 1) (num m),
                       num := num m - 1 \<rparr>)
           else
             (True, m\<lparr> triElems := (triElems m)[nat pos := (triElems m ! nat pos)\<lparr> val := v \<rparr>] \<rparr>))
        else
          (if v = 0 then (True, m)
           else if num m \<ge> maxSize m then (False, m)
           else
             (True, m\<lparr> triElems :=
                         (shift_up (triElems m) (num m - 1) pos)
                           [nat (pos + 1) := \<lparr> row = r, col = c, val = v \<rparr>],
                       num := num m + 1 \<rparr>)))"

text \<open>
  The loop of \<open>GetElem\<close>; the result is the value written to \<open>v\<close>.
\<close>

function GetElem_loop :: "Triple list \<Rightarrow> int \<Rightarrow> int \<Rightarrow> int \<Rightarrow> int \<Rightarrow> int" where
  "GetElem_loop te n r c k =
     (if k < n then
        (if row (te ! nat k) = r \<and> col (te ! nat k) = c then val (te ! nat k)
         else if row (te ! nat k) > r \<or> (row (te ! nat k) = r \<and> col (te ! nat k) > c) then 0
         else GetElem_loop te n r c (k + 1))
      else 0)"
  by pat_completeness auto
termination
  by (relation "measure (\<lambda>(te, n, r, c, k). nat (n - k))") auto

text \<open>
  \<open>bool GetElem(int r, int c, ElemType &v) const\<close>: \<open>None\<close> is the return value
  \<open>false\<close> (\<open>v\<close> untouched), \<open>Some x\<close> is \<open>true\<close> with \<open>v = x\<close>.
\<close>

definition GetElem :: "TriSparseMatrix \<Rightarrow> int \<Rightarrow> int \<Rightarrow> int option" where
  "GetElem m r c =
     (if r < 1 \<or> r > rows m \<or> c < 1 \<or> c > cols m then None
      else Some (GetElem_loop (triElems m) (num m) r c 0))"

text \<open>
  Notions for stating what the triple table holds.  \<open>live m\<close> is the part of the
  array in use; \<open>key_lt\<close> is the strict row-major order of two triples;
  \<open>tsm_inv\<close> is the invariant the class maintains: the live triples are strictly
  sorted by \<open>(row, col)\<close>, hold no zero value and lie inside the matrix, and
  \<open>num\<close> is at most \<open>maxSize\<close>, the length of the array.  \<open>lookup\<close> reads the
  entry \<open>(r, c)\<close> off a list of triples, 0 when there is none.
\<close>

declare SetElem_scan.simps [simp del] shift_down.simps [simp del] shift_up.simps [simp del]
  GetElem_loop.simps [simp del]

definition key_lt :: "Triple \<Rightarrow> Triple \<Rightarrow> bool" where
  "key_lt a b \<longleftrightarrow> row a < row b \<or> (row a = row b \<and> col a < col b)"

definition live :: "TriSparseMatrix \<Rightarrow> Triple list" where
  "live m = take (nat (num m)) (triElems m)"

definition tsm_inv :: "TriSparseMatrix \<Rightarrow> bool" where
  "tsm_inv m \<longleftrightarrow>
     0 \<le> num m \<and> num m \<le> maxSize m \<and> length (triElems m) = nat (maxSize m)
     \<and> sorted_wrt key_lt (live m)
     \<and> (\<forall>t\<in>set (live m). val t \<noteq> 0 \<and> 1 \<le> row t \<and> row t \<le> rows m \<and> 1 \<le> col t \<and> col t \<le> cols m)"

fun lookup :: "Triple list \<Rightarrow> int \<Rightarrow> int \<Rightarrow> int" where
  "lookup [] r c = 0"
| "lookup (t # ts) r c = (if row t = r \<and> col t = c then val t else lookup ts r c)"

definition at_key :: "Triple \<Rightarrow> int \<Rightarrow> int \<Rightarrow> bool" where
  "at_key t r c \<longleftrightarrow> row t = r \<and> col t = c"

definition before_key :: "Triple \<Rightarrow> int \<Rightarrow> int \<Rightarrow> bool" where
  "before_key t r c \<longleftrightarrow> row t < r \<or> (row t = r \<and> col t < c)"

definition after_key :: "Triple \<Rightarrow> int \<Rightarrow> int \<Rightarrow> bool" where
  "after_key t r c \<longleftrightarrow> r < row t \<or> (r = row t \<and> c < col t)"

text \<open>
  The 5 x 6 matrix \<open>SM\<close> of the demonstration program, after its six calls of
  \<open>SetElem\<close>: capacity 16, six triples in use.
\<close>

definition SM_demo :: TriSparseMatrix where
  "SM_demo =
     \<lparr> triElems =
         [\<lparr> row = 1, col = 3, val = 2 \<rparr>, \<lparr> row = 2, col = 6, val = 8 \<rparr>,
          \<lparr> row = 3, col = 1, val = 1 \<rparr>, \<lparr> row = 3, col = 3, val = 3 \<rparr>,
          \<lparr> row = 5, col = 1, val = 4 \<rparr>, \<lparr> row = 5, col = 3, val = 6 \<rparr>]
         @ replicate 10 Triple0,
       maxSize = 16, rows = 5, cols = 6, num = 6 \<rparr>"

text \<open>
  A full table: the 2 x 2 matrix of capacity 2 that holds \<open>(1, 1) = 5\<close> and
  \<open>(2, 2) = 7\<close>.
\<close>

definition SM_full :: TriSparseMatrix where
  "SM_full =
     \<lparr> triElems = [\<lparr> row = 1, col = 1, val = 5 \<rparr>, \<lparr> row = 2, col = 2, val = 7 \<rparr>],
       maxSize = 2, rows = 2, cols = 2, num = 2 \<rparr>"

section \<open>Pattern matching on CharString\<close>

text \<open>
  \<open>s[pos]\<close> used as an rvalue: the character at offset \<open>pos\<close> of \<open>strVal\<close>.
  The matchers below only call it with \<open>0 \<le> pos < Length s\<close> or with the pattern
  cursor \<open>j\<close>, which the proofs show to be in range.
\<close>

definition char_at :: "CharString \<Rightarrow> int \<Rightarrow> char" where
  "char_at s pos = strVal s ! nat pos"

text \<open>
  The loop of \<open>SimpleIndex\<close>; the state is \<open>(startPos, i, j)\<close> and the value is
  the function's return value.
\<close>

function SimpleIndex_loop :: "CharString \<Rightarrow> CharString \<Rightarrow> int \<Rightarrow> int \<Rightarrow> int \<Rightarrow> int" where
  "SimpleIndex_loop T P startPos i j =
     (if i < Length T \<and> j < Length P then
        (if char_at T i = char_at P j then SimpleIndex_loop T P startPos (i + 1) (j + 1)
         else SimpleIndex_loop T P (startPos + 1) (startPos + 1) 0)
      else (if j \<ge> Length P then startPos else -1))"
  by pat_completeness auto
termination
  by (relation "measures [\<lambda>(T, P, startPos, i, j). nat (Length T - startPos),
                          \<lambda>(T, P, startPos, i, j). nat (Length T - i)]") auto

definition SimpleIndex :: "CharString \<Rightarrow> CharString \<Rightarrow> int \<Rightarrow> int" where
  "SimpleIndex T P pos = SimpleIndex_loop T P pos pos 0"

text \<open>
  The loop of \<open>KMP_GetNext\<close>.  Whether it ends depends on the table it reads
  (\<open>j = next[j]\<close>), so it is a partial function: \<open>None\<close> stands for a loop that
  does not return.
\<close>

partial_function (option) KMP_GetNext_loop ::
  "CharString \<Rightarrow> int list \<Rightarrow> int \<Rightarrow> int \<Rightarrow> int list option" where
  "KMP_GetNext_loop P next i j =
     (if i < Length P then
        (if j = -1 \<or> char_at P i = char_at P j
         then KMP_GetNext_loop P (next[nat (i + 1) := j + 1]) (i + 1) (j + 1)
         else KMP_GetNext_loop P next i (next ! nat j))
      else Some next)"

declare KMP_GetNext_loop.simps [code]

definition KMP_GetNext :: "CharString \<Rightarrow> int list option" where
  "KMP_GetNext P =
     KMP_GetNext_loop P ((replicate (nat (Length P + 1)) 0)[0 := -1]) 0 (-1)"

partial_function (option) Index_KMP_loop ::
  "CharString \<Rightarrow> CharString \<Rightarrow> int list \<Rightarrow> int \<Rightarrow> int \<Rightarrow> int option" where
  "Index_KMP_loop T P next i j =
     (if i < Length T \<and> j < Length P then
        (if j = -1 \<or> char_at T i = char_at P j
         then Index_KMP_loop T P next (i + 1) (j + 1)
         else Index_KMP_loop T P next i (next ! nat j))
      else Some (if j \<ge> Length P then i - Length P else -1))"

declare Index_KMP_loop.simps [code]

definition Index_KMP :: "CharString \<Rightarrow> CharString \<Rightarrow> int \<Rightarrow> int option" where
  "Index_KMP T P pos =
     (if Length P = 0 then Some pos
      else case KMP_GetNext P of
             None \<Rightarrow> None
           | Some next \<Rightarrow> Index_KMP_loop T P next pos 0)"

text \<open>
  The class invariant of \<open>CharString\<close>, established by every constructor and by
  assignment: \<open>strVal\<close> holds \<open>length\<close> characters other than NUL, then NUL.
\<close>

definition wf_CharString :: "CharString \<Rightarrow> bool" where
  "wf_CharString s \<longleftrightarrow>
     0 \<le> length_cs s \<and> length (strVal s) = nat (length_cs s) + 1
     \<and> strVal s ! nat (length_cs s) = NUL
     \<and> NUL \<notin> set (take (nat (length_cs s)) (strVal s))"

text \<open>The characters of a string, without the terminator.\<close>

definition chars :: "CharString \<Rightarrow> char list" where
  "chars s = take (nat (length_cs s)) (strVal s)"

text \<open>\<open>p\<close> occurs in \<open>t\<close> at index \<open>i\<close>: \<open>t[i .. i + |p|) = p\<close>.\<close>

definition occurs_at :: "char list \<Rightarrow> char list \<Rightarrow> nat \<Rightarrow> bool" where
  "occurs_at t p i \<longleftrightarrow> i + length p \<le> length t \<and> take (length p) (drop i t) = p"

text \<open>
  Index-level notions used by the proofs.  \<open>tmatch T P s\<close>: the pattern occurs in
  the text at \<open>s\<close>.  \<open>border P k b\<close>: the first \<open>b\<close> characters of the pattern
  are also the last \<open>b\<close> of its first \<open>k\<close>, with \<open>b < k\<close>.  \<open>next_ok P nxt i\<close>:
  the table holds \<open>-1\<close> at 0 and the longest border at \<open>1 .. i\<close>.
  \<open>first_match T P pos r\<close>: \<open>r\<close> is the first occurrence at or after \<open>pos\<close>, or -1
  when there is none.
\<close>

definition tmatch :: "CharString \<Rightarrow> CharString \<Rightarrow> int \<Rightarrow> bool" where
  "tmatch T P s \<longleftrightarrow> 0 \<le> s \<and> s + Length P \<le> Length T
     \<and> (\<forall>x. 0 \<le> x \<and> x < Length P \<longrightarrow> char_at T (s + x) = char_at P x)"

definition border :: "CharString \<Rightarrow> int \<Rightarrow> int \<Rightarrow> bool" where
  "border P k b \<longleftrightarrow> 0 \<le> b \<and> b < k
     \<and> (\<forall>x. 0 \<le> x \<and> x < b \<longrightarrow> char_at P x = char_at P (k - b + x))"

definition next_ok :: "CharString \<Rightarrow> int list \<Rightarrow> int \<Rightarrow> bool" where
  "next_ok P nxt i \<longleftrightarrow> nxt ! 0 = -1
     \<and> (\<forall>k. 1 \<le> k \<and> k \<le> i \<longrightarrow>
           border P k (nxt ! nat k) \<and> (\<forall>b. border P k b \<longrightarrow> b \<le> nxt ! nat k))"

definition first_match :: "CharString \<Rightarrow> CharString \<Rightarrow> int \<Rightarrow> int \<Rightarrow> bool" where
  "first_match T P pos r \<longleftrightarrow>
     (r = -1 \<and> (\<forall>s\<ge>pos. \<not> tmatch T P s))
     \<or> (pos \<le> r \<and> tmatch T P r \<and> (\<forall>s. pos \<le> s \<and> s < r \<longrightarrow> \<not> tmatch T P s))"

section \<open>The line editor\<close>

subsection \<open>DblLinkList\<close>

text \<open>
  \<open>DblLinkList<T>\<close> is a doubly linked list between two sentinels with a node count
  \<open>sz\<close>; its state is the sequence of the data of its nodes, and \<open>sz\<close> is the
  length of that sequence.  Positions are 1-based.
\<close>

definition DblLinkList_Length :: "'a list \<Rightarrow> int" where
  "DblLinkList_Length xs = int (length xs)"

definition DblLinkList_Empty :: "'a list \<Rightarrow> bool" where
  "DblLinkList_Empty xs \<longleftrightarrow> DblLinkList_Length xs = 0"

definition DblLinkList_Insert :: "'a list \<Rightarrow> int \<Rightarrow> 'a \<Rightarrow> bool \<times> 'a list" where
  "DblLinkList_Insert xs pos v =
     (if pos < 1 \<or> pos > DblLinkList_Length xs + 1 then (False, xs)
      else (True, take (nat (pos - 1)) xs @ v # drop (nat (pos - 1)) xs))"

definition DblLinkList_GetElem :: "'a list \<Rightarrow> int \<Rightarrow> 'a option" where
  "DblLinkList_GetElem xs pos =
     (if pos < 1 \<or> pos > DblLinkList_Length xs then None else Some (xs ! nat (pos - 1)))"

definition DblLinkList_Replace :: "'a list \<Rightarrow> int \<Rightarrow> 'a \<Rightarrow> bool \<times> 'a list" where
  "DblLinkList_Replace xs pos v =
     (if pos < 1 \<or> pos > DblLinkList_Length xs then (False, xs)
      else (True, xs[nat (pos - 1) := v]))"

definition DblLinkList_Delete :: "'a list \<Rightarrow> int \<Rightarrow> bool \<times> 'a list" where
  "DblLinkList_Delete xs pos =
     (if pos < 1 \<or> pos > DblLinkList_Length xs then (False, xs)
      else (True, take (nat (pos - 1)) xs @ drop (nat pos) xs))"

subsection \<open>Console and file input\<close>

text \<open>
  What a command reads from \<open>cin\<close> while it runs: the character typed at a yes/no
  prompt, the number typed at a line-number prompt, and up to two lines of text.
\<close>

record console =
  cin_char :: char
  cin_int :: int
  cin_line1 :: "char list"
  cin_line2 :: "char list"

definition tolower :: "char \<Rightarrow> char" where
  "tolower c =
     (if (65::nat) \<le> of_char c \<and> of_char c \<le> (90::nat) then char_of (of_char c + (32::nat)) else c)"

definition strip_cr :: "char list \<Rightarrow> char list" where
  "strip_cr line = (if line \<noteq> [] \<and> last line = CHR 0x0D then butlast line else line)"

text \<open>\<open>CharString Read(std::istream &in)\<close> applied to the line \<open>line\<close>.\<close>

definition Read :: "char list \<Rightarrow> CharString" where
  "Read line = CharString_of (strip_cr line)"

subsection \<open>Editor\<close>

text \<open>
  \<open>class Editor\<close>.  \<open>infile\<close> is the input stream: \<open>None\<close> when the file could
  not be opened (the stream is then not \<open>good()\<close> after \<open>clear()\<close> and
  \<open>seekg\<close>), otherwise the lines of the file.
\<close>

record Editor =
  textBuffer :: "CharString list"
  curLineNo :: int
  infile :: "char list list option"
  userCommand :: char

definition Editor_new :: "char list list option \<Rightarrow> Editor" where
  "Editor_new f = \<lparr> textBuffer = [], curLineNo = 0, infile = f, userCommand = CHR 0x00 \<rparr>"

definition UserSaysYes :: "console \<Rightarrow> bool" where
  "UserSaysYes inp \<longleftrightarrow> tolower (cin_char inp) = CHR ''y''"

definition NextLine :: "Editor \<Rightarrow> bool \<times> Editor" where
  "NextLine e =
     (if curLineNo e = 0 then (False, e)
      else if curLineNo e \<ge> DblLinkList_Length (textBuffer e) then (False, e)
      else (True, e\<lparr> curLineNo := curLineNo e + 1 \<rparr>))"

definition PreviousLine :: "Editor \<Rightarrow> bool \<times> Editor" where
  "PreviousLine e =
     (if curLineNo e \<le> 1 then (False, e)
      else (True, e\<lparr> curLineNo := curLineNo e - 1 \<rparr>))"

definition GotoLine :: "Editor \<Rightarrow> console \<Rightarrow> bool \<times> Editor" where
  "GotoLine e inp =
     (let ln = cin_int inp in
      if ln < 1 \<or> ln > DblLinkList_Length (textBuffer e) then (False, e)
      else (True, e\<lparr> curLineNo := ln \<rparr>))"

text \<open>
  \<open>std::string::find(t, pos)\<close>: the least index \<open>p \<ge> pos\<close> at which \<open>t\<close> occurs
  in \<open>s\<close>; \<open>None\<close> is \<open>npos\<close>.
\<close>

function str_find :: "char list \<Rightarrow> char list \<Rightarrow> nat \<Rightarrow> nat option" where
  "str_find s t pos =
     (if pos + length t > length s then None
      else if take (length t) (drop pos s) = t then Some pos
      else str_find s t (pos + 1))"
  by pat_completeness auto
termination
proof (relation "measure (\<lambda>(s, t, pos). length s - pos)")
  fix s t :: "char list" and pos :: nat
  assume a: "\<not> length s < pos + length t" "take (length t) (drop pos s) \<noteq> t"
  then have "t \<noteq> []" by auto
  then have "pos < length s" using a(1) by (cases t) auto
  then show "((s, t, pos + 1), (s, t, pos)) \<in> measure (\<lambda>(s, t, pos). length s - pos)"
    by simp
qed simp

text \<open>
  The replacement loop of \<open>ChangeLine\<close>:
  \<open>while ((pos = s.find(t, pos)) != npos) { s.replace(pos, t.size(), r); pos += r.size(); ++cnt; }\<close>
  For an empty \<open>t\<close> and an empty \<open>r\<close> the loop does not end, so it is a partial
  function.
\<close>

partial_function (option) ChangeLine_loop ::
  "char list \<Rightarrow> char list \<Rightarrow> char list \<Rightarrow> nat \<Rightarrow> int \<Rightarrow> (char list \<times> int) option" where
  "ChangeLine_loop s t r pos cnt =
     (case str_find s t pos of
        None \<Rightarrow> Some (s, cnt)
      | Some p \<Rightarrow>
          ChangeLine_loop (take p s @ r @ drop (p + length t) s) t r (p + length r) (cnt + 1))"

declare ChangeLine_loop.simps [code]

definition ChangeLine :: "Editor \<Rightarrow> console \<Rightarrow> (bool \<times> Editor) option" where
  "ChangeLine e inp =
     (if curLineNo e = 0 then Some (False, e)
      else case DblLinkList_GetElem (textBuffer e) (curLineNo e) of
        None \<Rightarrow> Some (False, e)
      | Some line \<Rightarrow>
          let target = Read (cin_line1 inp);
              repl = Read (cin_line2 inp);
              s = chars line; t = chars target; r = chars repl
          in if t = [] then Some (False, e)
             else (case ChangeLine_loop s t r 0 0 of
                     None \<Rightarrow> None
                   | Some (s', cnt) \<Rightarrow>
                       if cnt = 0 then Some (False, e)
                       else Some (True, e\<lparr> textBuffer :=
                              snd (DblLinkList_Replace (textBuffer e) (curLineNo e) (CharString_of s')) \<rparr>)))"

text \<open>
  The search loop of \<open>FindString\<close> over the lines \<open>i .. n\<close>; the result is the
  line found, if any.  \<open>Index_KMP\<close> is a partial function, hence the outer option.
\<close>

function FindString_loop :: "CharString list \<Rightarrow> CharString \<Rightarrow> int \<Rightarrow> int \<Rightarrow> int option option" where
  "FindString_loop buf pat i n =
     (if i \<le> n then
        (let line = (case DblLinkList_GetElem buf i of None \<Rightarrow> CharString_of [] | Some l \<Rightarrow> l) in
         (case Index_KMP line pat 0 of
            None \<Rightarrow> None
          | Some r \<Rightarrow> if r \<noteq> -1 then Some (Some i) else FindString_loop buf pat (i + 1) n))
      else Some None)"
  by pat_completeness auto
termination
  by (relation "measure (\<lambda>(buf, pat, i, n). nat (n + 1 - i))") auto

definition FindString :: "Editor \<Rightarrow> console \<Rightarrow> Editor option" where
  "FindString e inp =
     (if curLineNo e = 0 then Some e
      else let pat = Read (cin_line1 inp) in
        if Length pat = 0 then Some e
        else (case FindString_loop (textBuffer e) pat (curLineNo e) (DblLinkList_Length (textBuffer e)) of
                None \<Rightarrow> None
              | Some None \<Rightarrow> Some e
              | Some (Some i) \<Rightarrow> Some (e\<lparr> curLineNo := i \<rparr>)))"

definition InsertLine :: "Editor \<Rightarrow> console \<Rightarrow> bool \<times> Editor" where
  "InsertLine e inp =
     (let lineNumber = cin_int inp; toInsert = Read (cin_line1 inp) in
      case DblLinkList_Insert (textBuffer e) lineNumber toInsert of
        (True, buf) \<Rightarrow> (True, e\<lparr> textBuffer := buf, curLineNo := lineNumber \<rparr>)
      | (False, buf) \<Rightarrow> (False, e))"

text \<open>
  The \<open>getline\<close> loop of \<open>ReadFile\<close>: every line is appended at position
  \<open>Length() + 1\<close>.
\<close>

fun ReadFile_loop :: "CharString list \<Rightarrow> char list list \<Rightarrow> int \<Rightarrow> CharString list \<times> int" where
  "ReadFile_loop buf [] cnt = (buf, cnt)"
| "ReadFile_loop buf (line # rest) cnt =
     ReadFile_loop
       (snd (DblLinkList_Insert buf (DblLinkList_Length buf + 1) (CharString_of (strip_cr line))))
       rest (cnt + 1)"

definition ReadFile :: "Editor \<Rightarrow> console \<Rightarrow> Editor" where
  "ReadFile e inp =
     (if \<not> UserSaysYes inp then e
      else
        let e1 = e\<lparr> textBuffer := [] \<rparr> in
        case infile e1 of
          None \<Rightarrow> e1
        | Some lines \<Rightarrow>
            (case ReadFile_loop (textBuffer e1) lines 0 of
               (buf, cnt) \<Rightarrow>
                 e1\<lparr> textBuffer := buf, curLineNo := (if cnt > 0 then 1 else 0) \<rparr>))"

text \<open>\<open>GetCommand\<close> stores the lower-cased command character.\<close>

definition GetCommand :: "Editor \<Rightarrow> char \<Rightarrow> bool \<times> Editor" where
  "GetCommand e c =
     (let e' = e\<lparr> userCommand := tolower c \<rparr> in (userCommand e' \<noteq> CHR ''q'', e'))"

text \<open>
  \<open>RunCommand\<close>: the \<open>switch\<close> on \<open>userCommand\<close>.  Console output is not part of
  the state.  The commands \<open>h\<close>, \<open>?\<close>, \<open>v\<close>, \<open>w\<close> and every other character
  leave the editor as it is.
\<close>

definition RunCommand :: "Editor \<Rightarrow> console \<Rightarrow> Editor option" where
  "RunCommand e inp =
     (let c = userCommand e in
      if c = CHR ''b'' then
        (if DblLinkList_Empty (textBuffer e) then Some e else Some (e\<lparr> curLineNo := 1 \<rparr>))
      else if c = CHR ''c'' then
        (if DblLinkList_Empty (textBuffer e) then Some e
         else map_option snd (ChangeLine e inp))
      else if c = CHR ''d'' then
        (case DblLinkList_Delete (textBuffer e) (curLineNo e) of
           (False, buf) \<Rightarrow> Some e
         | (True, buf) \<Rightarrow>
             let e' = e\<lparr> textBuffer := buf \<rparr> in
             if DblLinkList_Length buf = 0 then Some (e'\<lparr> curLineNo := 0 \<rparr>)
             else if curLineNo e' > DblLinkList_Length buf
               then Some (e'\<lparr> curLineNo := DblLinkList_Length buf \<rparr>)
             else Some e')
      else if c = CHR ''e'' then
        (if DblLinkList_Empty (textBuffer e) then Some e
         else Some (e\<lparr> curLineNo := DblLinkList_Length (textBuffer e) \<rparr>))
      else if c = CHR ''f'' then
        (if DblLinkList_Empty (textBuffer e) then Some e else FindString e inp)
      else if c = CHR ''g'' then Some (snd (GotoLine e inp))
      else if c = CHR ''i'' then Some (snd (InsertLine e inp))
      else if c = CHR ''n'' then Some (snd (NextLine e))
      else if c = CHR ''p'' then Some (snd (PreviousLine e))
      else if c = CHR ''r'' then Some (ReadFile e inp)
      else Some e)"

text \<open>One turn of the main loop after \<open>GetCommand\<close> returned \<open>true\<close>.\<close>

definition Editor_turn :: "Editor \<Rightarrow> char \<Rightarrow> console \<Rightarrow> Editor option" where
  "Editor_turn e c inp = RunCommand (snd (GetCommand e c)) inp"

text \<open>The cursor invariant: line 0 exactly for the empty buffer, else a line of it.\<close>

definition cursor_ok :: "Editor \<Rightarrow> bool" where
  "cursor_ok e \<longleftrightarrow>
     (curLineNo e = 0 \<longleftrightarrow> DblLinkList_Length (textBuffer e) = 0)
     \<and> (DblLinkList_Length (textBuffer e) \<noteq> 0 \<longrightarrow>
          1 \<le> curLineNo e \<and> curLineNo e \<le> DblLinkList_Length (textBuffer e))"

section \<open>Open-addressing hash table\<close>

datatype SlotState = EMPTY | OCCUPIED | DELETED

record HashSlot =
  key :: int
  state :: SlotState

text \<open>\<open>HashSlot()\<close>: key 0, state \<open>EMPTY\<close>.\<close>

definition HashSlot0 :: HashSlot where
  "HashSlot0 = \<lparr> key = 0, state = EMPTY \<rparr>"

datatype ProbeType = LINEAR | QUADRATIC

text \<open>
  \<open>class OpenAddressHashTable\<close>.  The \<open>size_t\<close> quantities (table size, slot
  indices, \<open>elemCount\<close>) are natural numbers; for tables of fewer than \<open>2^32\<close>
  slots no \<open>size_t\<close> operation of the class wraps around.
\<close>

record OpenAddressHashTable =
  table :: "HashSlot list"
  probeType :: ProbeType
  elemCount :: nat

definition OpenAddressHashTable_new :: "nat \<Rightarrow> ProbeType \<Rightarrow> OpenAddressHashTable" where
  "OpenAddressHashTable_new tableSize type =
     \<lparr> table = replicate tableSize HashSlot0, probeType = type, elemCount = 0 \<rparr>"

text \<open>
  \<open>hashModPrime(key, p)\<close>: \<open>|key| % p\<close> computed in \<open>long long\<close>.  The callers
  pass \<open>p = table.size()\<close>; for an empty table the division is by zero, which the
  class does not guard and which C++ leaves undefined (the program is killed).
\<close>

definition hashModPrime :: "int \<Rightarrow> nat \<Rightarrow> exn + nat" where
  "hashModPrime k p =
     (if p = 0 then Inl undefined_behaviour
      else Inr (nat ((if k \<ge> 0 then k else -1 * k) mod int p)))"

definition probeOffset :: "OpenAddressHashTable \<Rightarrow> nat \<Rightarrow> nat" where
  "probeOffset t i = (if probeType t = LINEAR then i else i * i)"

text \<open>
  \<open>loadFactor() > 0.7\<close>.  The source divides two doubles; for the table sizes
  considered here (below \<open>2^32\<close>) the comparison of the rounded quotient with the
  double nearest to 0.7 agrees with the exact comparison \<open>elemCount / size > 7 / 10\<close>.
\<close>

definition loadFactor_exceeds :: "OpenAddressHashTable \<Rightarrow> bool" where
  "loadFactor_exceeds t \<longleftrightarrow> 10 * elemCount t > 7 * length (table t)"

text \<open>The probe loop of \<open>insert\<close>, from iteration \<open>i\<close> on.\<close>

function insert_probe ::
  "OpenAddressHashTable \<Rightarrow> int \<Rightarrow> nat \<Rightarrow> nat \<Rightarrow> bool \<times> OpenAddressHashTable" where
  "insert_probe t k h0 i =
     (let m = length (table t) in
      if i < m then
        (let di = probeOffset t i; h = (h0 + di) mod m in
         if state (table t ! h) = EMPTY \<or> state (table t ! h) = DELETED then
           (True, t\<lparr> table := (table t)[h := \<lparr> key = k, state = OCCUPIED \<rparr>],
                     elemCount := elemCount t + 1 \<rparr>)
         else if state (table t ! h) = OCCUPIED \<and> key (table t ! h) = k then (True, t)
         else insert_probe t k h0 (i + 1))
      else (False, t))"
  by pat_completeness auto
termination
  by (relation "measure (\<lambda>(t, k, h0, i). length (table t) - i)") auto

declare insert_probe.simps [simp del]

text \<open>
  \<open>insert\<close> and \<open>rehash\<close> call each other, and \<open>rehash\<close> threads the table
  through its calls of \<open>insert\<close>.  Both are obtained from one partial function on
  the pending call: \<open>Call_insert k\<close> is \<open>insert(k)\<close>, \<open>Call_rehash_loop slots\<close> is
  the loop of \<open>rehash\<close> over the remaining slots of the old table.  \<open>None\<close> stands
  for a call that does not return, \<open>Some (Inl e)\<close> for one that ends in \<open>e\<close>.
\<close>

datatype call = Call_insert int | Call_rehash_loop "HashSlot list"

partial_function (option) exec ::
  "call \<Rightarrow> OpenAddressHashTable \<Rightarrow> (exn + bool \<times> OpenAddressHashTable) option" where
  "exec c t =
     (case c of
        Call_insert k \<Rightarrow>
          Option.bind
            (if loadFactor_exceeds t
             then exec (Call_rehash_loop (table t))
                    (t\<lparr> table := replicate (length (table t) * 2 + 1) HashSlot0, elemCount := 0 \<rparr>)
             else Some (Inr (True, t)))
            (\<lambda>r. case r of
                    Inl e \<Rightarrow> Some (Inl e)
                  | Inr (_, t1) \<Rightarrow>
                      (case hashModPrime k (length (table t1)) of
                         Inl e \<Rightarrow> Some (Inl e)
                       | Inr h0 \<Rightarrow> Some (Inr (insert_probe t1 k h0 0))))
      | Call_rehash_loop slots \<Rightarrow>
          (case slots of
             [] \<Rightarrow> Some (Inr (True, t))
           | slot # rest \<Rightarrow>
               if state slot = OCCUPIED
               then Option.bind (exec (Call_insert (key slot)) t)
                      (\<lambda>r. case r of
                              Inl e \<Rightarrow> Some (Inl e)
                            | Inr (_, t1) \<Rightarrow> exec (Call_rehash_loop rest) t1)
               else exec (Call_rehash_loop rest) t))"

declare exec.simps [code]

definition insert_ht ::
  "OpenAddressHashTable \<Rightarrow> int \<Rightarrow> (exn + bool \<times> OpenAddressHashTable) option" where
  "insert_ht t k = exec (Call_insert k) t"

definition rehash :: "OpenAddressHashTable \<Rightarrow> nat \<Rightarrow> (exn + OpenAddressHashTable) option" where
  "rehash t newSize =
     map_option (map_sum id snd)
       (exec (Call_rehash_loop (table t)) (t\<lparr> table := replicate newSize HashSlot0, elemCount := 0 \<rparr>))"

text \<open>The loop of \<open>find\<close>, from iteration \<open>i\<close> on.\<close>

function find_probe :: "OpenAddressHashTable \<Rightarrow> int \<Rightarrow> nat \<Rightarrow> nat \<Rightarrow> bool" where
  "find_probe t k h0 i =
     (let m = length (table t) in
      if i < m then
        (let di = probeOffset t i; h = (h0 + di) mod m in
         if state (table t ! h) = EMPTY then False
         else if state (table t ! h) = OCCUPIED \<and> key (table t ! h) = k then True
         else find_probe t k h0 (i + 1))
      else False)"
  by pat_completeness auto
termination
  by (relation "measure (\<lambda>(t, k, h0, i). length (table t) - i)") auto

declare find_probe.simps [simp del]

definition find_ht :: "OpenAddressHashTable \<Rightarrow> int \<Rightarrow> exn + bool" where
  "find_ht t k =
     (case hashModPrime k (length (table t)) of
        Inl e \<Rightarrow> Inl e
      | Inr h0 \<Rightarrow> Inr (find_probe t k h0 0))"

text \<open>The loop of \<open>erase\<close>, from iteration \<open>i\<close> on.\<close>

function erase_probe ::
  "OpenAddressHashTable \<Rightarrow> int \<Rightarrow> nat \<Rightarrow> nat \<Rightarrow> bool \<times> OpenAddressHashTable" where
  "erase_probe t k h0 i =
     (let m = length (table t) in
      if i < m then
        (let di = probeOffset t i; h = (h0 + di) mod m in
         if state (table t ! h) = EMPTY then (False, t)
         else if state (table t ! h) = OCCUPIED \<and> key (table t ! h) = k then
           (True, t\<lparr> table := (table t)[h := (table t ! h)\<lparr> state := DELETED \<rparr>],
                     elemCount := elemCount t - 1 \<rparr>)
         else erase_probe t k h0 (i + 1))
      else (False, t))"
  by pat_completeness auto
termination
  by (relation "measure (\<lambda>(t, k, h0, i). length (table t) - i)") auto

declare erase_probe.simps [simp del]

definition erase_ht ::
  "OpenAddressHashTable \<Rightarrow> int \<Rightarrow> exn + bool \<times> OpenAddressHashTable" where
  "erase_ht t k =
     (case hashModPrime k (length (table t)) of
        Inl e \<Rightarrow> Inl e
      | Inr h0 \<Rightarrow> Inr (erase_probe t k h0 0))"

text \<open>
  A run of \<open>insert\<close> and \<open>erase\<close> calls on a table: the boolean each call returned,
  in order, and the final table; a call that ends in an exception ends the run.
\<close>

datatype op_ht = Ins int | Era int

fun run_ht ::
  "OpenAddressHashTable \<Rightarrow> op_ht list \<Rightarrow> (exn + bool list \<times> OpenAddressHashTable) option" where
  "run_ht t [] = Some (Inr ([], t))"
| "run_ht t (Ins k # ops) =
     (case insert_ht t k of
        None \<Rightarrow> None
      | Some (Inl e) \<Rightarrow> Some (Inl e)
      | Some (Inr (b, t1)) \<Rightarrow> map_option (map_sum id (\<lambda>(bs, t2). (b # bs, t2))) (run_ht t1 ops))"
| "run_ht t (Era k # ops) =
     (case erase_ht t k of
        Inl e \<Rightarrow> Some (Inl e)
      | Inr (b, t1) \<Rightarrow> map_option (map_sum id (\<lambda>(bs, t2). (b # bs, t2))) (run_ht t1 ops))"

section \<open>Huffman tree and Huffman codes\<close>

record HuffNode =
  weight :: int
  parent :: int
  left :: int
  right :: int
  ch :: char
  isLeaf :: bool

text \<open>A value-initialised \<open>HuffNode\<close>.\<close>

definition HuffNode0 :: HuffNode where
  "HuffNode0 = \<lparr> weight = 0, parent = 0, left = 0, right = 0, ch = CHR 0x00, isLeaf = False \<rparr>"

text \<open>
  \<open>class HuffmanTree\<close>: \<open>nodes\<close> is used from index 1, \<open>nLeaves\<close> is the member
  \<open>n\<close>, the number of leaves, \<open>leafIndex\<close> and \<open>codeOf\<close> are the two hash maps.
\<close>

record HuffmanTree =
  nodes :: "HuffNode list"
  nLeaves :: int
  leafIndex :: "char \<rightharpoonup> int"
  codeOf :: "char \<rightharpoonup> string"

text \<open>
  Addition of two \<open>int\<close> weights as the machine performs it (32 bits, two's
  complement).
\<close>

definition add_int32 :: "int \<Rightarrow> int \<Rightarrow> int" where
  "add_int32 a b = (a + b + 2 ^ 31) mod 2 ^ 32 - 2 ^ 31"

text \<open>The loop of \<open>selectTwoMin\<close> over \<open>i = 1 .. cur\<close>; the state is \<open>(r1, r2)\<close>.\<close>

function selectTwoMin_loop :: "HuffNode list \<Rightarrow> int \<Rightarrow> int \<Rightarrow> int \<Rightarrow> int \<Rightarrow> int \<times> int" where
  "selectTwoMin_loop ns cur i r1 r2 =
     (if i \<le> cur then
        (if parent (ns ! nat i) \<noteq> 0 then selectTwoMin_loop ns cur (i + 1) r1 r2
         else if r1 = 0 \<or> weight (ns ! nat i) < weight (ns ! nat r1)
           then selectTwoMin_loop ns cur (i + 1) i r1
         else if r2 = 0 \<or> weight (ns ! nat i) < weight (ns ! nat r2)
           then selectTwoMin_loop ns cur (i + 1) r1 i
         else selectTwoMin_loop ns cur (i + 1) r1 r2)
      else (r1, r2))"
  by pat_completeness auto
termination
  by (relation "measure (\<lambda>(ns, cur, i, r1, r2). nat (cur + 1 - i))") auto

declare selectTwoMin_loop.simps [simp del]

definition selectTwoMin :: "HuffNode list \<Rightarrow> int \<Rightarrow> exn + int \<times> int" where
  "selectTwoMin ns cur =
     (case selectTwoMin_loop ns cur 1 0 0 of
        (r1, r2) \<Rightarrow>
          if r1 = 0 \<or> r2 = 0 then Inl runtime_error
          else if weight (ns ! nat r1) > weight (ns ! nat r2) then Inr (r2, r1)
          else Inr (r1, r2))"

text \<open>Step (1) of \<open>build\<close>: the leaves \<open>i = 1 .. n\<close>.\<close>

function build_leaves ::
  "char list \<Rightarrow> int list \<Rightarrow> int \<Rightarrow> int \<Rightarrow> HuffNode list \<Rightarrow> (char \<rightharpoonup> int)
     \<Rightarrow> HuffNode list \<times> (char \<rightharpoonup> int)" where
  "build_leaves chs weights cnt i ns li =
     (if i \<le> cnt then
        build_leaves chs weights cnt (i + 1)
          (ns[nat i := (ns ! nat i)\<lparr> weight := weights ! nat (i - 1),
                                     ch := chs ! nat (i - 1), isLeaf := True \<rparr>])
          (li(chs ! nat (i - 1) \<mapsto> i))
      else (ns, li))"
  by pat_completeness auto
termination
  by (relation "measure (\<lambda>(chs, weights, cnt, i, ns, li). nat (cnt + 1 - i))") auto

declare build_leaves.simps [simp del]

text \<open>Step (2) of \<open>build\<close>: the inner nodes \<open>k = n + 1 .. m\<close>.\<close>

function build_inner :: "int \<Rightarrow> int \<Rightarrow> HuffNode list \<Rightarrow> exn + HuffNode list" where
  "build_inner m k ns =
     (if k \<le> m then
        (case selectTwoMin ns (k - 1) of
           Inl e \<Rightarrow> Inl e
         | Inr (r1, r2) \<Rightarrow>
             let ns1 = ns[nat r2 := (ns ! nat r2)\<lparr> parent := k \<rparr>];
                 ns2 = ns1[nat r1 := (ns1 ! nat r1)\<lparr> parent := k \<rparr>];
                 ns3 = ns2[nat k := (ns2 ! nat k)\<lparr> left := r1 \<rparr>];
                 ns4 = ns3[nat k := (ns3 ! nat k)\<lparr> right := r2 \<rparr>];
                 ns5 = ns4[nat k := (ns4 ! nat k)
                            \<lparr> weight := add_int32 (weight (ns4 ! nat r1)) (weight (ns4 ! nat r2)) \<rparr>]
             in build_inner m (k + 1) ns5)
      else Inr ns)"
  by pat_completeness auto
termination
  by (relation "measure (\<lambda>(m, k, ns). nat (m + 1 - k))") auto

declare build_inner.simps [simp del]

text \<open>
  \<open>build\<close>: the result is the new \<open>(nodes, n, leafIndex)\<close>.  The constructor runs
  it on a tree whose \<open>leafIndex\<close> is empty.
\<close>

definition build :: "char list \<Rightarrow> int list \<Rightarrow> exn + HuffNode list \<times> int \<times> (char \<rightharpoonup> int)" where
  "build chs weights =
     (if length chs \<noteq> length weights \<or> chs = [] then Inl invalid_argument
      else
        let cnt = int (length chs);
            m = 2 * cnt - 1;
            ns0 = replicate (nat (m + 1)) HuffNode0
        in case build_leaves chs weights cnt 1 ns0 Map.empty of
             (ns1, li) \<Rightarrow>
               (case build_inner m (cnt + 1) ns1 of
                  Inl e \<Rightarrow> Inl e
                | Inr ns2 \<Rightarrow> Inr (ns2, cnt, li)))"

text \<open>
  The inner loop of \<open>buildCodes\<close>, from a leaf towards the root; \<open>code\<close> is built
  in reverse.  It follows the \<open>parent\<close> fields, so it is a partial function.
\<close>

partial_function (option) code_walk :: "HuffNode list \<Rightarrow> int \<Rightarrow> int \<Rightarrow> string \<Rightarrow> string option" where
  "code_walk ns child par code =
     (if par \<noteq> 0 then
        code_walk ns par (parent (ns ! nat par))
          (code @ [if left (ns ! nat par) = child then CHR ''0'' else CHR ''1''])
      else Some code)"

declare code_walk.simps [code]

function buildCodes_loop ::
  "HuffNode list \<Rightarrow> int \<Rightarrow> int \<Rightarrow> (char \<rightharpoonup> string) \<Rightarrow> (char \<rightharpoonup> string) option" where
  "buildCodes_loop ns cnt i co =
     (if i \<le> cnt then
        (case code_walk ns i (parent (ns ! nat i)) [] of
           None \<Rightarrow> None
         | Some code \<Rightarrow>
             let code1 = rev code;
                 code2 = (if code1 = [] then ''0'' else code1)
             in buildCodes_loop ns cnt (i + 1) (co(ch (ns ! nat i) \<mapsto> code2)))
      else Some co)"
  by pat_completeness auto
termination
  by (relation "measure (\<lambda>(ns, cnt, i, co). nat (cnt + 1 - i))") auto

declare buildCodes_loop.simps [simp del]

text \<open>
  The constructor \<open>HuffmanTree(chars, weights)\<close>: \<open>build\<close>, then \<open>buildCodes\<close>.
  \<open>None\<close>: the constructor does not return; \<open>Some (Inl e)\<close>: it throws \<open>e\<close>.
\<close>

definition HuffmanTree_new :: "char list \<Rightarrow> int list \<Rightarrow> (exn + HuffmanTree) option" where
  "HuffmanTree_new chs weights =
     (case build chs weights of
        Inl e \<Rightarrow> Some (Inl e)
      | Inr (ns, cnt, li) \<Rightarrow>
          (case buildCodes_loop ns cnt 1 Map.empty of
             None \<Rightarrow> None
           | Some co \<Rightarrow> Some (Inr \<lparr> nodes = ns, nLeaves = cnt, leafIndex = li, codeOf = co \<rparr>)))"

definition Encode :: "HuffmanTree \<Rightarrow> char \<Rightarrow> exn + string" where
  "Encode t c = (case codeOf t c of None \<Rightarrow> Inl runtime_error | Some code \<Rightarrow> Inr code)"

fun EncodeString_loop :: "HuffmanTree \<Rightarrow> string \<Rightarrow> string \<Rightarrow> exn + string" where
  "EncodeString_loop t [] out = Inr out"
| "EncodeString_loop t (c # text) out =
     (case Encode t c of Inl e \<Rightarrow> Inl e | Inr code \<Rightarrow> EncodeString_loop t text (out @ code))"

definition EncodeString :: "HuffmanTree \<Rightarrow> string \<Rightarrow> exn + string" where
  "EncodeString t text = EncodeString_loop t text []"

text \<open>The loop of \<open>Decode\<close> over the bits; the state is \<open>(cur, out)\<close>.\<close>

fun Decode_loop :: "HuffmanTree \<Rightarrow> int \<Rightarrow> string \<Rightarrow> int \<Rightarrow> string \<Rightarrow> exn + int \<times> string" where
  "Decode_loop t root [] cur out = Inr (cur, out)"
| "Decode_loop t root (b # bits) cur out =
     (if b = CHR ''0'' then
        (let cur1 = left (nodes t ! nat cur) in
         if isLeaf (nodes t ! nat cur1)
         then Decode_loop t root bits root (out @ [ch (nodes t ! nat cur1)])
         else Decode_loop t root bits cur1 out)
      else if b = CHR ''1'' then
        (let cur1 = right (nodes t ! nat cur) in
         if isLeaf (nodes t ! nat cur1)
         then Decode_loop t root bits root (out @ [ch (nodes t ! nat cur1)])
         else Decode_loop t root bits cur1 out)
      else Inl runtime_error)"

definition Decode :: "HuffmanTree \<Rightarrow> string \<Rightarrow> exn + string" where
  "Decode t bits =
     (let root = int (length (nodes t)) - 1 in
      case Decode_loop t root bits root [] of
        Inl e \<Rightarrow> Inl e
      | Inr (cur, out) \<Rightarrow> if cur \<noteq> root then Inl runtime_error else Inr out)"

text \<open>
  Build the tree for the characters \<open>chs\<close> and \<open>weights\<close>, encode \<open>text\<close>, decode the result.
\<close>

definition encode_then_decode :: "char list \<Rightarrow> int list \<Rightarrow> string \<Rightarrow> (exn + string) option" where
  "encode_then_decode chs weights text =
     (case HuffmanTree_new chs weights of
        None \<Rightarrow> None
      | Some (Inl e) \<Rightarrow> Some (Inl e)
      | Some (Inr t) \<Rightarrow>
          Some (case EncodeString t text of Inl e \<Rightarrow> Inl e | Inr bits \<Rightarrow> Decode t bits))"

section \<open>Transposition of a TriSparseMatrix\<close>

text \<open>
  Both static functions overwrite every member of \<open>dest\<close>, so the model returns
  the new \<open>dest\<close> as a function of \<open>source\<close> (the two are distinct objects).
  The fresh array of \<open>maxSize\<close> value-initialised triples is \<open>replicate\<close>.
\<close>

definition transpose_dest :: "TriSparseMatrix \<Rightarrow> TriSparseMatrix" where
  "transpose_dest source =
     \<lparr> triElems = replicate (nat (maxSize source)) Triple0, maxSize = maxSize source,
       rows = cols source, cols = rows source, num = num source \<rparr>"

text \<open>
  The three assignments \<open>dest[dp].row = src[s].col; dest[dp].col = src[s].row;
  dest[dp].value = src[s].value\<close>.
\<close>

definition put_transposed :: "Triple list \<Rightarrow> int \<Rightarrow> Triple \<Rightarrow> Triple list" where
  "put_transposed dst dp t =
     dst[nat dp := (dst ! nat dp)\<lparr> row := col t, col := row t, val := val t \<rparr>]"

text \<open>The inner loop of \<open>SimpleTranspose\<close> over \<open>s\<close>, for the column \<open>cl\<close>.\<close>

function SimpleTranspose_inner ::
  "Triple list \<Rightarrow> int \<Rightarrow> int \<Rightarrow> int \<Rightarrow> Triple list \<Rightarrow> int \<Rightarrow> Triple list \<times> int" where
  "SimpleTranspose_inner src cnt cl s dst destPos =
     (if s < cnt then
        (if col (src ! nat s) = cl
         then SimpleTranspose_inner src cnt cl (s + 1) (put_transposed dst destPos (src ! nat s)) (destPos + 1)
         else SimpleTranspose_inner src cnt cl (s + 1) dst destPos)
      else (dst, destPos))"
  by pat_completeness auto
termination
  by (relation "measure (\<lambda>(src, cnt, cl, s, dst, destPos). nat (cnt - s))") auto

declare SimpleTranspose_inner.simps [simp del]

text \<open>
  The outer loop of \<open>SimpleTranspose\<close>, \<open>for (col = 1; col <= source.cols; ++col)\<close>.
  The counter is an \<open>int\<close>: \<open>++col\<close> wraps, so with \<open>cols = INT_MAX\<close> the test never
  fails.  \<open>None\<close> stands for a loop that does not end.
\<close>

partial_function (option) SimpleTranspose_outer ::
  "Triple list \<Rightarrow> int \<Rightarrow> int \<Rightarrow> int \<Rightarrow> Triple list \<Rightarrow> int \<Rightarrow> Triple list option" where
  "SimpleTranspose_outer src cnt ncols cl dst destPos =
     (if cl \<le> ncols then
        (case SimpleTranspose_inner src cnt cl 0 dst destPos of
           (dst1, destPos1) \<Rightarrow>
             SimpleTranspose_outer src cnt ncols (wrap32 (cl + 1)) dst1 destPos1)
      else Some dst)"

declare SimpleTranspose_outer.simps [code]

definition SimpleTranspose :: "TriSparseMatrix \<Rightarrow> TriSparseMatrix option" where
  "SimpleTranspose source =
     (let dest = transpose_dest source in
      if num dest = 0 then Some dest
      else
        (case SimpleTranspose_outer (triElems source) (num source) (cols source) 1
                (triElems dest) 0 of
           None \<Rightarrow> None
         | Some te \<Rightarrow> Some (dest\<lparr> triElems := te \<rparr>)))"

text \<open>\<open>for (s = 0; s < num; ++s) ++cNum[src[s].col];\<close>\<close>

function FastTranspose_count :: "Triple list \<Rightarrow> int \<Rightarrow> int \<Rightarrow> int list \<Rightarrow> int list" where
  "FastTranspose_count src cnt s cNum =
     (if s < cnt then
        FastTranspose_count src cnt (s + 1)
          (cNum[nat (col (src ! nat s)) := cNum ! nat (col (src ! nat s)) + 1])
      else cNum)"
  by pat_completeness auto
termination
  by (relation "measure (\<lambda>(src, cnt, s, cNum). nat (cnt - s))") auto

declare FastTranspose_count.simps [simp del]

text \<open>
  \<open>for (col = 2; col <= cols; ++col) cPos[col] = cPos[col-1] + cNum[col-1];\<close> with
  the same \<open>int\<close> counter.
\<close>

partial_function (option) FastTranspose_pos ::
  "int \<Rightarrow> int \<Rightarrow> int list \<Rightarrow> int list \<Rightarrow> int list option" where
  "FastTranspose_pos ncols cl cNum cPos =
     (if cl \<le> ncols then
        FastTranspose_pos ncols (wrap32 (cl + 1)) cNum
          (cPos[nat cl := cPos ! nat (cl - 1) + cNum ! nat (cl - 1)])
      else Some cPos)"

declare FastTranspose_pos.simps [code]

text \<open>The last loop of \<open>FastTranspose\<close>: \<open>dp = cPos[col]++\<close>, then the three assignments.\<close>

function FastTranspose_move :: "Triple list \<Rightarrow> int \<Rightarrow> int \<Rightarrow> int list \<Rightarrow> Triple list \<Rightarrow> Triple list" where
  "FastTranspose_move src cnt s cPos dst =
     (if s < cnt then
        (let cl = col (src ! nat s);
             dp = cPos ! nat cl
         in FastTranspose_move src cnt (s + 1) (cPos[nat cl := dp + 1])
              (put_transposed dst dp (src ! nat s)))
      else dst)"
  by pat_completeness auto
termination
  by (relation "measure (\<lambda>(src, cnt, s, cPos, dst). nat (cnt - s))") auto

declare FastTranspose_move.simps [simp del]

text \<open>
  \<open>FastTranspose\<close>.  The two vectors are built with \<open>source.cols+1\<close> elements, a sum
  computed in \<open>int\<close>: with \<open>cols = INT_MAX\<close> it wraps to a negative number, which as
  an unsigned size is more than \<open>max_size()\<close>, and the constructor of \<open>std::vector\<close>
  throws \<open>std::length_error\<close>.
\<close>

definition FastTranspose :: "TriSparseMatrix \<Rightarrow> (exn + TriSparseMatrix) option" where
  "FastTranspose source =
     (let dest = transpose_dest source in
      if num dest = 0 then Some (Inr dest)
      else
        let sz = wrap32 (cols source + 1) in
        if sz < 0 then Some (Inl length_error)
        else
          let cNum0 = replicate (nat sz) 0;
              cPos0 = replicate (nat sz) 0;
              cNum = FastTranspose_count (triElems source) (num source) 0 cNum0;
              cPos1 = cPos0[1 := 0]
          in (case FastTranspose_pos (cols source) 2 cNum cPos1 of
                None \<Rightarrow> None
              | Some cPos \<Rightarrow>
                  Some (Inr (dest\<lparr> triElems :=
                    FastTranspose_move (triElems source) (num source) 0 cPos (triElems dest) \<rparr>))))"

text \<open>
  The transposed table, column by column: \<open>cl_list L c\<close> holds the triples of \<open>L\<close>
  in column \<open>c\<close>, rows and columns exchanged, in their order in \<open>L\<close>;
  \<open>transposed L k\<close> joins the columns \<open>1 .. k\<close>.
\<close>

definition swap_rc :: "Triple \<Rightarrow> Triple" where
  "swap_rc t = \<lparr> row = col t, col = row t, val = val t \<rparr>"

definition cl_list :: "Triple list \<Rightarrow> int \<Rightarrow> Triple list" where
  "cl_list L c = map swap_rc (filter (\<lambda>t. col t = c) L)"

primrec transposed :: "Triple list \<Rightarrow> nat \<Rightarrow> Triple list" where
  "transposed L 0 = []"
| "transposed L (Suc k) = transposed L k @ cl_list L (int (Suc k))"

text \<open>
  \<open>startn L c\<close> is the number of triples of \<open>L\<close> in the columns before \<open>c\<close>,
  the place where column \<open>c\<close> starts in the transposed table; \<open>cntc L c\<close> is the
  number of triples of \<open>L\<close> in column \<open>c\<close>.
\<close>

definition startn :: "Triple list \<Rightarrow> int \<Rightarrow> nat" where
  "startn L c = length (transposed L (nat (c - 1)))"

definition cntc :: "Triple list \<Rightarrow> int \<Rightarrow> nat" where
  "cntc L c = length (filter (\<lambda>t. col t = c) L)"

text \<open>
  The matrix made by \<open>TriSparseMatrix<int> m(1, INT_MAX, 4); m.SetElem(1, 1, 5)\<close>: one
  row, \<open>INT_MAX\<close> columns, capacity 4, one triple.
\<close>

definition SM_wide :: TriSparseMatrix where
  "SM_wide =
     \<lparr> triElems = \<lparr> row = 1, col = 1, val = 5 \<rparr> # replicate 3 Triple0,
       maxSize = 4, rows = 1, cols = 2147483647, num = 1 \<rparr>"

section \<open>AVL tree insertion\<close>

text \<open>
  \<open>struct AVLNode\<close>: a pointer to a node is a tree, \<open>Null\<close> the null pointer; the fields
  are \<open>key\<close>, \<open>height\<close>, \<open>left\<close>, \<open>right\<close> in this order.  The nodes of a tree are not
  shared, so updating a node in place is building the updated tree.  A function that
  dereferences a null pointer returns \<open>None\<close>.
\<close>

datatype AVLNode = Null | AVLNode int int AVLNode AVLNode

fun height :: "AVLNode \<Rightarrow> int" where
  "height Null = 0"
| "height (AVLNode nk h l r) = h"

fun updateHeight :: "AVLNode \<Rightarrow> AVLNode" where
  "updateHeight Null = Null"
| "updateHeight (AVLNode nk h l r) = AVLNode nk (1 + max (height l) (height r)) l r"

fun balanceFactor :: "AVLNode \<Rightarrow> int" where
  "balanceFactor Null = 0"
| "balanceFactor (AVLNode nk h l r) = height l - height r"

text \<open>
  \<open>rotateRight(y)\<close>: \<open>x = y->left; T2 = x->right; x->right = y; y->left = T2;
  updateHeight(y); updateHeight(x); return x\<close>.
\<close>

fun rotateRight :: "AVLNode \<Rightarrow> AVLNode option" where
  "rotateRight (AVLNode yk yh (AVLNode xk xh xl T2) yr) =
     Some (updateHeight (AVLNode xk xh xl (updateHeight (AVLNode yk yh T2 yr))))"
| "rotateRight (AVLNode yk yh Null yr) = None"
| "rotateRight Null = None"

text \<open>
  \<open>rotateLeft(x)\<close>: \<open>y = x->right; T2 = y->left; y->left = x; x->right = T2;
  updateHeight(x); updateHeight(y); return y\<close>.
\<close>

fun rotateLeft :: "AVLNode \<Rightarrow> AVLNode option" where
  "rotateLeft (AVLNode xk xh xl (AVLNode yk yh T2 yr)) =
     Some (updateHeight (AVLNode yk yh (updateHeight (AVLNode xk xh xl T2)) yr))"
| "rotateLeft (AVLNode xk xh xl Null) = None"
| "rotateLeft Null = None"

text \<open>
  Steps 2 and 3 of \<open>AVLInsert\<close>, after the recursive call has been stored in the
  node (which is not null there): \<open>updateHeight(node)\<close>, \<open>bf = balanceFactor(node)\<close>
  and the four tests in the order of the source.  With \<open>bf > 1\<close> the first test reads
  \<open>node->left->key\<close> (the second is cut short by \<open>bf < -1\<close>, the third reads the same
  key); with \<open>bf < -1\<close> the second test reads \<open>node->right->key\<close>, and the fourth the
  same key; otherwise no child is read and the node is returned.
\<close>

fun AVLInsert_rebalance :: "AVLNode \<Rightarrow> int \<Rightarrow> AVLNode option" where
  "AVLInsert_rebalance Null k = None"
| "AVLInsert_rebalance (AVLNode nk h0 l r) k =
     (let node = updateHeight (AVLNode nk h0 l r);
          bf = balanceFactor node
      in if bf > 1 then
           (case l of
              Null \<Rightarrow> None
            | AVLNode lk lh ll lr \<Rightarrow>
                if k < lk then rotateRight node
                else if k > lk then
                  (case rotateLeft l of
                     None \<Rightarrow> None
                   | Some l' \<Rightarrow> rotateRight (AVLNode nk (height node) l' r))
                else Some node)
         else if bf < -1 then
           (case r of
              Null \<Rightarrow> None
            | AVLNode rk rh rl rr \<Rightarrow>
                if k > rk then rotateLeft node
                else if k < rk then
                  (case rotateRight r of
                     None \<Rightarrow> None
                   | Some r' \<Rightarrow> rotateLeft (AVLNode nk (height node) l r'))
                else Some node)
         else Some node)"

fun AVLInsert :: "AVLNode \<Rightarrow> int \<Rightarrow> AVLNode option" where
  "AVLInsert Null k = Some (AVLNode k 1 Null Null)"
| "AVLInsert (AVLNode nk h l r) k =
     (if k < nk then
        (case AVLInsert l k of
           None \<Rightarrow> None
         | Some l' \<Rightarrow> AVLInsert_rebalance (AVLNode nk h l' r) k)
      else if k > nk then
        (case AVLInsert r k of
           None \<Rightarrow> None
         | Some r' \<Rightarrow> AVLInsert_rebalance (AVLNode nk h l r') k)
      else Some (AVLNode nk h l r))"

text \<open>\<open>root = AVLInsert(root, keys[i])\<close> for the keys of a list in turn.\<close>

fun AVLInsert_all :: "AVLNode \<Rightarrow> int list \<Rightarrow> AVLNode option" where
  "AVLInsert_all t [] = Some t"
| "AVLInsert_all t (k # ks) =
     (case AVLInsert t k of
        None \<Rightarrow> None
      | Some t' \<Rightarrow> AVLInsert_all t' ks)"

text \<open>
  The properties of a tree: its set of keys, the search-tree order, the height of
  a subtree (0 for the empty tree), that every \<open>height\<close> field holds the height of
  its subtree, and that every node's balance factor, the height of the left subtree
  minus that of the right one, is -1, 0 or 1.
\<close>

fun AVL_keys :: "AVLNode \<Rightarrow> int set" where
  "AVL_keys Null = {}"
| "AVL_keys (AVLNode nk h l r) = insert nk (AVL_keys l \<union> AVL_keys r)"

fun is_bst :: "AVLNode \<Rightarrow> bool" where
  "is_bst Null = True"
| "is_bst (AVLNode nk h l r) \<longleftrightarrow>
     is_bst l \<and> is_bst r \<and> (\<forall>x\<in>AVL_keys l. x < nk) \<and> (\<forall>x\<in>AVL_keys r. nk < x)"

fun subtree_height :: "AVLNode \<Rightarrow> int" where
  "subtree_height Null = 0"
| "subtree_height (AVLNode nk h l r) = 1 + max (subtree_height l) (subtree_height r)"

fun heights_ok :: "AVLNode \<Rightarrow> bool" where
  "heights_ok Null = True"
| "heights_ok (AVLNode nk h l r) \<longleftrightarrow>
     h = 1 + max (subtree_height l) (subtree_height r) \<and> heights_ok l \<and> heights_ok r"

fun height_balanced :: "AVLNode \<Rightarrow> bool" where
  "height_balanced Null = True"
| "height_balanced (AVLNode nk h l r) \<longleftrightarrow>
     subtree_height l - subtree_height r \<in> {-1, 0, 1} \<and> height_balanced l \<and> height_balanced r"

definition is_avl :: "AVLNode \<Rightarrow> bool" where
  "is_avl t \<longleftrightarrow> is_bst t \<and> heights_ok t \<and> height_balanced t"

text \<open>
  \<open>grown t k\<close>: the tree \<open>t\<close> is the new leaf \<open>k\<close>, or the side of its root on which
  \<open>k\<close> lies is higher by one than the other side.
\<close>

fun grown :: "AVLNode \<Rightarrow> int \<Rightarrow> bool" where
  "grown Null k = False"
| "grown (AVLNode nk h l r) k \<longleftrightarrow>
     (k = nk \<and> l = Null \<and> r = Null)
     \<or> (k < nk \<and> subtree_height l = subtree_height r + 1)
     \<or> (nk < k \<and> subtree_height r = subtree_height l + 1)"

section \<open>Exchange sorts and radix sort\<close>

text \<open>
  The array \<open>elem\<close> is a list of the elements, \<open>n\<close> the number of elements passed
  with it.  \<open>ElemType\<close> is \<open>int\<close>; the exchange sorts only compare and copy elements.
\<close>

text \<open>
  The inner loop of \<open>BubbleSort\<close>: \<open>for (j = 0; j < n - i; ++j)
  if (elem[j] > elem[j + 1]) { temp = elem[j]; elem[j] = elem[j + 1]; elem[j + 1] = temp; }\<close>
\<close>

function BubbleSort_inner :: "int list \<Rightarrow> int \<Rightarrow> int \<Rightarrow> int \<Rightarrow> int list" where
  "BubbleSort_inner elem n i j =
     (if j < n - i then
        (if elem ! nat j > elem ! nat (j + 1)
         then BubbleSort_inner
                ((elem[nat j := elem ! nat (j + 1)])[nat (j + 1) := elem ! nat j]) n i (j + 1)
         else BubbleSort_inner elem n i (j + 1))
      else elem)"
  by pat_completeness auto
termination
  by (relation "measure (\<lambda>(elem, n, i, j). nat (n - i - j))") auto

declare BubbleSort_inner.simps [simp del]

text \<open>The outer loop \<open>for (i = 1; i < n; ++i)\<close>.\<close>

function BubbleSort_outer :: "int list \<Rightarrow> int \<Rightarrow> int \<Rightarrow> int list" where
  "BubbleSort_outer elem n i =
     (if i < n then BubbleSort_outer (BubbleSort_inner elem n i 0) n (i + 1) else elem)"
  by pat_completeness auto
termination
  by (relation "measure (\<lambda>(elem, n, i). nat (n - i))") auto

declare BubbleSort_outer.simps [simp del]

definition BubbleSort :: "int list \<Rightarrow> int \<Rightarrow> int list" where
  "BubbleSort elem n = BubbleSort_outer elem n 1"

text \<open>
  The two scans of \<open>Partition\<close>:
  \<open>while (low < high && elem[high] >= pivot) --high;\<close> and
  \<open>while (low < high && elem[low] <= pivot) ++low;\<close>
\<close>

function Partition_high :: "int list \<Rightarrow> int \<Rightarrow> int \<Rightarrow> int \<Rightarrow> int" where
  "Partition_high elem low high pivot =
     (if low < high \<and> elem ! nat high \<ge> pivot
      then Partition_high elem low (high - 1) pivot else high)"
  by pat_completeness auto
termination
  by (relation "measure (\<lambda>(elem, low, high, pivot). nat (high - low))") auto

declare Partition_high.simps [simp del]

function Partition_low :: "int list \<Rightarrow> int \<Rightarrow> int \<Rightarrow> int \<Rightarrow> int" where
  "Partition_low elem low high pivot =
     (if low < high \<and> elem ! nat low \<le> pivot
      then Partition_low elem (low + 1) high pivot else low)"
  by pat_completeness auto
termination
  by (relation "measure (\<lambda>(elem, low, high, pivot). nat (high - low))") auto

declare Partition_low.simps [simp del]

text \<open>
  The loop \<open>while (low < high)\<close> of \<open>Partition\<close> and what follows it,
  \<open>elem[low] = pivot; return low\<close>.  The result is the array and the returned index;
  \<open>None\<close> stands for a loop that does not end.
\<close>

partial_function (option) Partition_loop ::
  "int list \<Rightarrow> int \<Rightarrow> int \<Rightarrow> int \<Rightarrow> (int list \<times> int) option" where
  "Partition_loop elem low high pivot =
     (if low < high then
        (let high1 = Partition_high elem low high pivot;
             elem1 = elem[nat low := elem ! nat high1];
             low1 = Partition_low elem1 low high1 pivot;
             elem2 = elem1[nat high1 := elem1 ! nat low1]
         in Partition_loop elem2 low1 high1 pivot)
      else Some (elem[nat low := pivot], low))"

declare Partition_loop.simps [code]

definition Partition :: "int list \<Rightarrow> int \<Rightarrow> int \<Rightarrow> (int list \<times> int) option" where
  "Partition elem low high = Partition_loop elem low high (elem ! nat low)"

text \<open>\<open>QuickSort(elem, low, high)\<close> and \<open>QuickSort(elem, n)\<close>.\<close>

partial_function (option) QuickSort_range :: "int list \<Rightarrow> int \<Rightarrow> int \<Rightarrow> int list option" where
  "QuickSort_range elem low high =
     (if low \<ge> high then Some elem
      else Option.bind (Partition elem low high) (\<lambda>(elem1, pivotPos).
             Option.bind (QuickSort_range elem1 low (pivotPos - 1)) (\<lambda>elem2.
               QuickSort_range elem2 (pivotPos + 1) high)))"

declare QuickSort_range.simps [code]

definition QuickSort :: "int list \<Rightarrow> int \<Rightarrow> int list option" where
  "QuickSort elem n = (if n \<le> 1 then Some elem else QuickSort_range elem 0 (n - 1))"

text \<open>
  \<open>DigitsInBase\<close>: \<open>if (x == 0) return 1; d = 0; while (x > 0) { x /= radix; ++d; }
  return d\<close>.  \<open>None\<close> stands for a loop that does not end.
\<close>

partial_function (option) DigitsInBase_loop :: "int \<Rightarrow> int \<Rightarrow> int \<Rightarrow> int option" where
  "DigitsInBase_loop x radix d =
     (if x > 0 then DigitsInBase_loop (c_div x radix) radix (d + 1) else Some d)"

declare DigitsInBase_loop.simps [code]

definition DigitsInBase :: "int \<Rightarrow> int \<Rightarrow> int option" where
  "DigitsInBase x radix = (if x = 0 then Some 1 else DigitsInBase_loop x radix 0)"

text \<open>
  Step 1 of \<open>RadixSortLSD\<close>: the loop that rejects a negative element and finds
  \<open>maxVal\<close>.
\<close>

function RadixSortLSD_max :: "int list \<Rightarrow> int \<Rightarrow> int \<Rightarrow> int \<Rightarrow> exn + int" where
  "RadixSortLSD_max a n i maxVal =
     (if i < n then
        (if a ! nat i < 0 then Inl invalid_argument
         else RadixSortLSD_max a n (i + 1) (max maxVal (a ! nat i)))
      else Inr maxVal)"
  by pat_completeness auto
termination
  by (relation "measure (\<lambda>(a, n, i, maxVal). nat (n - i))") auto

declare RadixSortLSD_max.simps [simp del]

text \<open>
  Step 2: the singly linked list of the keys, built by appending a node at \<open>tail\<close>.
  The list of nodes from \<open>head\<close> is the list of their keys.
\<close>

function RadixSortLSD_list :: "int list \<Rightarrow> int \<Rightarrow> int \<Rightarrow> int list \<Rightarrow> int list" where
  "RadixSortLSD_list a n i lst =
     (if i < n then RadixSortLSD_list a n (i + 1) (lst @ [a ! nat i]) else lst)"
  by pat_completeness auto
termination
  by (relation "measure (\<lambda>(a, n, i, lst). nat (n - i))") auto

declare RadixSortLSD_list.simps [simp del]

text \<open>
  Distribution: every node of the list, from the head, is appended at the tail of the
  bucket of its digit \<open>(cur->key / exp) % radix\<close>.  A bucket, the chain from
  \<open>bucketHead[digit]\<close> to \<open>bucketTail[digit]\<close>, is the list of its keys.
\<close>

fun RadixSortLSD_distribute ::
  "int list \<Rightarrow> int \<Rightarrow> int \<Rightarrow> int list list \<Rightarrow> int list list" where
  "RadixSortLSD_distribute [] ex radix buckets = buckets"
| "RadixSortLSD_distribute (k # nxt) ex radix buckets =
     (let digit = c_mod (c_div k ex) radix
      in RadixSortLSD_distribute nxt ex radix
           (buckets[nat digit := buckets ! nat digit @ [k]]))"

text \<open>
  Collection: \<open>for (digit = 0; digit < radix; ++digit)\<close>, an empty bucket is skipped,
  another one is linked behind \<open>tail\<close>.
\<close>

function RadixSortLSD_collect :: "int list list \<Rightarrow> int \<Rightarrow> int \<Rightarrow> int list \<Rightarrow> int list" where
  "RadixSortLSD_collect buckets radix digit lst =
     (if digit < radix then
        (if buckets ! nat digit = [] then RadixSortLSD_collect buckets radix (digit + 1) lst
         else RadixSortLSD_collect buckets radix (digit + 1) (lst @ buckets ! nat digit))
      else lst)"
  by pat_completeness auto
termination
  by (relation "measure (\<lambda>(buckets, radix, digit, lst). nat (radix - digit))") auto

declare RadixSortLSD_collect.simps [simp del]

text \<open>
  Step 3: \<open>for (pass = 0; pass < d; ++pass)\<close>, with \<open>exp *= radix\<close> at the end of each
  pass, in 32 bits.
\<close>

function RadixSortLSD_passes :: "int \<Rightarrow> int \<Rightarrow> int \<Rightarrow> int \<Rightarrow> int list \<Rightarrow> int list" where
  "RadixSortLSD_passes d radix pass ex lst =
     (if pass < d then
        RadixSortLSD_passes d radix (pass + 1) (wrap32 (ex * radix))
          (RadixSortLSD_collect
             (RadixSortLSD_distribute lst ex radix (replicate (nat radix) [])) radix 0 [])
      else lst)"
  by pat_completeness auto
termination
  by (relation "measure (\<lambda>(d, radix, pass, ex, lst). nat (d - pass))") auto

declare RadixSortLSD_passes.simps [simp del]

text \<open>
  Step 4: the keys are copied back, \<open>a[i] = cur->key; cur = cur->next\<close>; reading
  a node behind the end of the list is reading through a null pointer.
\<close>

function RadixSortLSD_copy :: "int list \<Rightarrow> int \<Rightarrow> int \<Rightarrow> int list \<Rightarrow> exn + int list" where
  "RadixSortLSD_copy a n i cur =
     (if i < n then
        (case cur of
           [] \<Rightarrow> Inl undefined_behaviour
         | k # nxt \<Rightarrow> RadixSortLSD_copy (a[nat i := k]) n (i + 1) nxt)
      else Inr a)"
  by pat_completeness auto
termination
  by (relation "measure (\<lambda>(a, n, i, cur). nat (n - i))") auto

declare RadixSortLSD_copy.simps [simp del]

definition RadixSortLSD :: "int list \<Rightarrow> int \<Rightarrow> int \<Rightarrow> (exn + int list) option" where
  "RadixSortLSD a n radix =
     (if n \<le> 1 then Some (Inr a)
      else if radix \<le> 1 then Some (Inl invalid_argument)
      else
        (case RadixSortLSD_max a n 0 0 of
           Inl e \<Rightarrow> Some (Inl e)
         | Inr maxVal \<Rightarrow>
             (case DigitsInBase maxVal radix of
                None \<Rightarrow> None
              | Some d \<Rightarrow>
                  Some (RadixSortLSD_copy a n 0
                          (RadixSortLSD_passes d radix 0 1 (RadixSortLSD_list a n 0 []))))))"

section \<open>Indexed access to the other containers\<close>

text \<open>
  The remaining classes with a public member function that takes an index or a
  position.  \<open>ElemType\<close> is \<open>int\<close>.  A member function that returns \<open>bool\<close> and
  delivers a value through a reference parameter \<open>e\<close> returns an option: \<open>None\<close> is
  \<open>false\<close> with \<open>e\<close> untouched, \<open>Some v\<close> is \<open>true\<close> with \<open>e = v\<close>.  A function that
  returns a reference to an element returns the offset of that element in its
  storage.
\<close>

text \<open>Sums, differences and products of the index arithmetic, in 32 bits.\<close>

definition add32 :: "int \<Rightarrow> int \<Rightarrow> int" where
  "add32 a b = wrap32 (a + b)"

definition sub32 :: "int \<Rightarrow> int \<Rightarrow> int" where
  "sub32 a b = wrap32 (a - b)"

definition mul32 :: "int \<Rightarrow> int \<Rightarrow> int" where
  "mul32 a b = wrap32 (a * b)"

subsection \<open>\<open>Array::Length\<close>\<close>

definition Array_Length :: "Array \<Rightarrow> int \<Rightarrow> exn + int" where
  "Array_Length a d =
     (if d < 0 \<or> d \<ge> dim a then Inl out_of_range else Inr (bounds a ! nat d))"

subsection \<open>\<open>Matrix\<close>\<close>

record Matrix =
  rows_mx :: int
  cols_mx :: int
  buf_mx :: "int list"

text \<open>\<open>pos_(i, j)\<close>, and \<open>operator()(i, j)\<close>, which returns \<open>buf[pos_(i,j)]\<close> by reference.\<close>

definition Matrix_pos :: "Matrix \<Rightarrow> int \<Rightarrow> int \<Rightarrow> exn + int" where
  "Matrix_pos m i j =
     (if i < 1 \<or> i > rows_mx m \<or> j < 1 \<or> j > cols_mx m then Inl out_of_range
      else Inr (add32 (mul32 (i - 1) (cols_mx m)) (j - 1)))"

definition Matrix_call :: "Matrix \<Rightarrow> int \<Rightarrow> int \<Rightarrow> exn + int" where
  "Matrix_call m i j = Matrix_pos m i j"

subsection \<open>\<open>SymmetricMatrix\<close>\<close>

record SymmetricMatrix =
  n_sym :: int
  buf_sym :: "int list"

text \<open>
  \<open>lower_index_(i, j, n)\<close>: after the test, \<open>if (i < j) std::swap(i, j)\<close> and
  \<open>return (i * (i - 1)) / 2 + (j - 1)\<close>.
\<close>

definition lower_index :: "int \<Rightarrow> int \<Rightarrow> int \<Rightarrow> exn + int" where
  "lower_index i j n =
     (if i < 1 \<or> i > n \<or> j < 1 \<or> j > n then Inl out_of_range
      else
        (let i1 = (if i < j then j else i);
             j1 = (if i < j then i else j)
         in Inr (add32 (c_div (mul32 i1 (i1 - 1)) 2) (j1 - 1))))"

definition SymmetricMatrix_call :: "SymmetricMatrix \<Rightarrow> int \<Rightarrow> int \<Rightarrow> exn + int" where
  "SymmetricMatrix_call m i j = lower_index i j (n_sym m)"

subsection \<open>\<open>TriangularMatrix\<close>\<close>

record TriangularMatrix =
  n_tri :: int
  upper_tri :: bool
  buf_tri :: "int list"

definition TriangularMatrix_index :: "TriangularMatrix \<Rightarrow> int \<Rightarrow> int \<Rightarrow> exn + int" where
  "TriangularMatrix_index m i j =
     (if i < 1 \<or> i > n_tri m \<or> j < 1 \<or> j > n_tri m then Inl out_of_range
      else if \<not> upper_tri m then
        (if i < j then Inl logic_error
         else Inr (add32 (c_div (mul32 i (i - 1)) 2) (j - 1)))
      else
        (if j < i then Inl logic_error
         else Inr (add32 (c_div (mul32 j (j - 1)) 2) (i - 1))))"

definition TriangularMatrix_set ::
  "TriangularMatrix \<Rightarrow> int \<Rightarrow> int \<Rightarrow> int \<Rightarrow> exn + TriangularMatrix" where
  "TriangularMatrix_set m i j v =
     (case TriangularMatrix_index m i j of
        Inl e \<Rightarrow> Inl e
      | Inr k \<Rightarrow> Inr (m\<lparr> buf_tri := (buf_tri m)[nat k := v] \<rparr>))"

definition TriangularMatrix_get :: "TriangularMatrix \<Rightarrow> int \<Rightarrow> int \<Rightarrow> exn + int" where
  "TriangularMatrix_get m i j =
     (if i < 1 \<or> i > n_tri m \<or> j < 1 \<or> j > n_tri m then Inl out_of_range
      else if \<not> upper_tri m then
        (if i < j then Inr 0
         else Inr (buf_tri m ! nat (add32 (c_div (mul32 i (i - 1)) 2) (j - 1))))
      else
        (if j < i then Inr 0
         else Inr (buf_tri m ! nat (add32 (c_div (mul32 j (j - 1)) 2) (i - 1)))))"

subsection \<open>\<open>TridiagonalMatrix\<close>\<close>

record TridiagonalMatrix =
  n_td :: int
  buf_td :: "int list"

text \<open>\<open>index_(i, j)\<close>; \<open>at(i, j)\<close> returns \<open>buf[index_(i,j)]\<close> by reference.\<close>

definition TridiagonalMatrix_index :: "TridiagonalMatrix \<Rightarrow> int \<Rightarrow> int \<Rightarrow> exn + int" where
  "TridiagonalMatrix_index m i j =
     (if i < 1 \<or> i > n_td m \<or> j < 1 \<or> j > n_td m then Inl out_of_range
      else if \<bar>i - j\<bar> > 1 then Inl logic_error
      else if i = 1 then Inr (j - 1)
      else if i = n_td m then Inr (add32 (sub32 (mul32 3 (n_td m)) 4) (j - (n_td m - 1)))
      else Inr (add32 (sub32 (mul32 3 i) 4) (j - (i - 1))))"

definition TridiagonalMatrix_at :: "TridiagonalMatrix \<Rightarrow> int \<Rightarrow> int \<Rightarrow> exn + int" where
  "TridiagonalMatrix_at m i j = TridiagonalMatrix_index m i j"

definition TridiagonalMatrix_get :: "TridiagonalMatrix \<Rightarrow> int \<Rightarrow> int \<Rightarrow> exn + int" where
  "TridiagonalMatrix_get m i j =
     (if i < 1 \<or> i > n_td m \<or> j < 1 \<or> j > n_td m then Inl out_of_range
      else if \<bar>i - j\<bar> > 1 then Inr 0
      else if i = 1 then Inr (buf_td m ! nat (j - 1))
      else if i = n_td m then
        Inr (buf_td m ! nat (add32 (sub32 (mul32 3 (n_td m)) 4) (j - (n_td m - 1))))
      else Inr (buf_td m ! nat (add32 (sub32 (mul32 3 i) 4) (j - (i - 1)))))"

subsection \<open>\<open>SqList\<close>\<close>

text \<open>
  \<open>count\<close> elements in an array of \<open>maxSize\<close>.  \<open>count + 1\<close> is computed only when
  \<open>count\<close> differs from \<open>maxSize\<close>, so it does not leave the range of \<open>int\<close>.
\<close>

record SqList =
  count_sq :: int
  maxSize_sq :: int
  elems_sq :: "int list"

definition SqList_GetElem :: "SqList \<Rightarrow> int \<Rightarrow> int option" where
  "SqList_GetElem L position =
     (if position < 1 \<or> position > count_sq L then None
      else Some (elems_sq L ! nat (position - 1)))"

definition SqList_SetElem :: "SqList \<Rightarrow> int \<Rightarrow> int \<Rightarrow> bool \<times> SqList" where
  "SqList_SetElem L position e =
     (if position < 1 \<or> position > count_sq L then (False, L)
      else (True, L\<lparr> elems_sq := (elems_sq L)[nat (position - 1) := e] \<rparr>))"

text \<open>\<open>for (i = count; i >= position; --i) elems[i] = elems[i - 1];\<close>\<close>

function SqList_Insert_shift :: "int list \<Rightarrow> int \<Rightarrow> int \<Rightarrow> int list" where
  "SqList_Insert_shift es i position =
     (if i \<ge> position then SqList_Insert_shift (es[nat i := es ! nat (i - 1)]) (i - 1) position
      else es)"
  by pat_completeness auto
termination
  by (relation "measure (\<lambda>(es, i, position). nat (i + 1 - position))") auto

declare SqList_Insert_shift.simps [simp del]

definition SqList_Insert :: "SqList \<Rightarrow> int \<Rightarrow> int \<Rightarrow> bool \<times> SqList" where
  "SqList_Insert L position e =
     (if count_sq L = maxSize_sq L then (False, L)
      else if position < 1 \<or> position > count_sq L + 1 then (False, L)
      else (True, L\<lparr> elems_sq :=
                        (SqList_Insert_shift (elems_sq L) (count_sq L) position)
                          [nat (position - 1) := e],
                      count_sq := count_sq L + 1 \<rparr>))"

text \<open>\<open>for (i = position; i < count; ++i) elems[i - 1] = elems[i];\<close>\<close>

function SqList_Delete_shift :: "int list \<Rightarrow> int \<Rightarrow> int \<Rightarrow> int list" where
  "SqList_Delete_shift es i cnt =
     (if i < cnt then SqList_Delete_shift (es[nat (i - 1) := es ! nat i]) (i + 1) cnt
      else es)"
  by pat_completeness auto
termination
  by (relation "measure (\<lambda>(es, i, cnt). nat (cnt - i))") auto

declare SqList_Delete_shift.simps [simp del]

text \<open>\<open>Delete(position, e)\<close> and the overload \<open>Delete(position)\<close>, which drops \<open>e\<close>.\<close>

definition SqList_Delete :: "SqList \<Rightarrow> int \<Rightarrow> int option \<times> SqList" where
  "SqList_Delete L position =
     (if position < 1 \<or> position > count_sq L then (None, L)
      else (Some (elems_sq L ! nat (position - 1)),
            L\<lparr> elems_sq := SqList_Delete_shift (elems_sq L) position (count_sq L),
               count_sq := count_sq L - 1 \<rparr>))"

definition SqList_Delete1 :: "SqList \<Rightarrow> int \<Rightarrow> bool \<times> SqList" where
  "SqList_Delete1 L position =
     (case SqList_Delete L position of (r, L1) \<Rightarrow> (r \<noteq> None, L1))"

subsection \<open>\<open>SimpleLinkList\<close>\<close>

text \<open>
  A singly linked list behind a head node.  Its state is the list of the data of
  its nodes.  A pointer to a node is the position of the node, 0 for the head
  node; \<open>None\<close> is the null pointer.  \<open>sl_next L p\<close> is \<open>p->next\<close>, and the data of the
  node at position \<open>p\<close> is \<open>L ! (p - 1)\<close>.  Following a null pointer is undefined.
\<close>

definition sl_next :: "int list \<Rightarrow> int \<Rightarrow> int option" where
  "sl_next L p = (if 0 \<le> p \<and> p < int (length L) then Some (p + 1) else None)"

text \<open>\<open>GetElemPtr\<close>: \<open>p = head; j = 0; while (p && j < position) { p = p->next; ++j; }\<close>\<close>

function SimpleLinkList_GetElemPtr_loop ::
  "int list \<Rightarrow> int option \<Rightarrow> int \<Rightarrow> int \<Rightarrow> int option" where
  "SimpleLinkList_GetElemPtr_loop L p j position =
     (case p of
        None \<Rightarrow> None
      | Some q \<Rightarrow>
          if j < position then SimpleLinkList_GetElemPtr_loop L (sl_next L q) (j + 1) position
          else Some q)"
  by pat_completeness auto
termination
  by (relation "measure (\<lambda>(L, p, j, position). nat (position - j))") auto

declare SimpleLinkList_GetElemPtr_loop.simps [simp del]

definition SimpleLinkList_GetElemPtr :: "int list \<Rightarrow> int \<Rightarrow> int option" where
  "SimpleLinkList_GetElemPtr L position =
     (if position < 0 then None else SimpleLinkList_GetElemPtr_loop L (Some 0) 0 position)"

text \<open>\<open>Length\<close>: \<open>for (p = head->next; p; p = p->next) ++len;\<close>\<close>

function SimpleLinkList_Length_loop :: "int list \<Rightarrow> int option \<Rightarrow> int \<Rightarrow> int" where
  "SimpleLinkList_Length_loop L p len =
     (case p of
        None \<Rightarrow> len
      | Some q \<Rightarrow> SimpleLinkList_Length_loop L (sl_next L q) (len + 1))"
  by pat_completeness auto
termination
  by (relation "measure (\<lambda>(L, p, len). case p of None \<Rightarrow> 0 | Some q \<Rightarrow> Suc (nat (int (length L) - q)))")
    (auto simp: sl_next_def split: if_splits)

declare SimpleLinkList_Length_loop.simps [simp del]

definition SimpleLinkList_Length :: "int list \<Rightarrow> int" where
  "SimpleLinkList_Length L = SimpleLinkList_Length_loop L (sl_next L 0) 0"

definition SimpleLinkList_GetElem :: "int list \<Rightarrow> int \<Rightarrow> int option" where
  "SimpleLinkList_GetElem L position =
     (if position < 1 then None
      else
        (case SimpleLinkList_GetElemPtr L position of
           None \<Rightarrow> None
         | Some q \<Rightarrow> Some (L ! nat (q - 1))))"

definition SimpleLinkList_SetElem :: "int list \<Rightarrow> int \<Rightarrow> int \<Rightarrow> bool \<times> int list" where
  "SimpleLinkList_SetElem L position e =
     (if position < 1 then (False, L)
      else
        (case SimpleLinkList_GetElemPtr L position of
           None \<Rightarrow> (False, L)
         | Some q \<Rightarrow> (True, L[nat (q - 1) := e])))"

text \<open>\<open>Insert\<close>: the new node is linked behind the node \<open>prev\<close>.\<close>

definition SimpleLinkList_Insert :: "int list \<Rightarrow> int \<Rightarrow> int \<Rightarrow> bool \<times> int list" where
  "SimpleLinkList_Insert L position e =
     (if position < 1 \<or> position > SimpleLinkList_Length L + 1 then (False, L)
      else
        (case SimpleLinkList_GetElemPtr L (position - 1) of
           None \<Rightarrow> (False, L)
         | Some q \<Rightarrow> (True, take (nat q) L @ e # drop (nat q) L)))"

text \<open>
  \<open>Delete(position, e)\<close>: \<open>target = prev->next; e = target->data;
  prev->next = target->next\<close>, with no test of \<open>prev\<close> or \<open>target\<close>; and the overload
  \<open>Delete(position)\<close>.
\<close>

definition SimpleLinkList_Delete :: "int list \<Rightarrow> int \<Rightarrow> exn + int option \<times> int list" where
  "SimpleLinkList_Delete L position =
     (if position < 1 \<or> position > SimpleLinkList_Length L then Inr (None, L)
      else
        (case SimpleLinkList_GetElemPtr L (position - 1) of
           None \<Rightarrow> Inl undefined_behaviour
         | Some q \<Rightarrow>
             (case sl_next L q of
                None \<Rightarrow> Inl undefined_behaviour
              | Some tq \<Rightarrow> Inr (Some (L ! nat (tq - 1)), take (nat q) L @ drop (nat tq) L))))"

definition SimpleLinkList_Delete1 :: "int list \<Rightarrow> int \<Rightarrow> exn + bool \<times> int list" where
  "SimpleLinkList_Delete1 L position =
     (case SimpleLinkList_Delete L position of
        Inl x \<Rightarrow> Inl x
      | Inr (r, L1) \<Rightarrow> Inr (r \<noteq> None, L1))"

subsection \<open>\<open>SimpleCircLinkList\<close>\<close>

text \<open>
  The circular list: the last node points back to the head node, and so does the
  head node of the empty list.  \<open>cl_next L p\<close> is \<open>p->next\<close>.
\<close>

definition cl_next :: "int list \<Rightarrow> int \<Rightarrow> int" where
  "cl_next L p = (if 0 \<le> p \<and> p < int (length L) then p + 1 else 0)"

text \<open>
  \<open>GetElemPtr\<close>: \<open>p = head->next; j = 1; while (p != head && j < position)
  { p = p->next; ++j; } return (p == head ? nullptr : p);\<close>
\<close>

function SimpleCircLinkList_GetElemPtr_loop :: "int list \<Rightarrow> int \<Rightarrow> int \<Rightarrow> int \<Rightarrow> int" where
  "SimpleCircLinkList_GetElemPtr_loop L p j position =
     (if p \<noteq> 0 \<and> j < position
      then SimpleCircLinkList_GetElemPtr_loop L (cl_next L p) (j + 1) position
      else p)"
  by pat_completeness auto
termination
  by (relation "measure (\<lambda>(L, p, j, position). nat (position - j))") auto

declare SimpleCircLinkList_GetElemPtr_loop.simps [simp del]

definition SimpleCircLinkList_GetElemPtr :: "int list \<Rightarrow> int \<Rightarrow> int option" where
  "SimpleCircLinkList_GetElemPtr L position =
     (if position < 0 then None
      else if position = 0 then Some 0
      else
        (let p = SimpleCircLinkList_GetElemPtr_loop L (cl_next L 0) 1 position
         in if p = 0 then None else Some p))"

text \<open>\<open>Length\<close>: \<open>for (p = head->next; p != head; p = p->next) ++len;\<close>\<close>

function SimpleCircLinkList_Length_loop :: "int list \<Rightarrow> int \<Rightarrow> int \<Rightarrow> int" where
  "SimpleCircLinkList_Length_loop L p len =
     (if p \<noteq> 0 then SimpleCircLinkList_Length_loop L (cl_next L p) (len + 1) else len)"
  by pat_completeness auto
termination
  by (relation "measure (\<lambda>(L, p, len). if p = 0 then 0 else Suc (nat (int (length L) - p)))")
    (auto simp: cl_next_def)

declare SimpleCircLinkList_Length_loop.simps [simp del]

definition SimpleCircLinkList_Length :: "int list \<Rightarrow> int" where
  "SimpleCircLinkList_Length L = SimpleCircLinkList_Length_loop L (cl_next L 0) 0"

definition SimpleCircLinkList_GetElem :: "int list \<Rightarrow> int \<Rightarrow> int option" where
  "SimpleCircLinkList_GetElem L position =
     (if position < 1 then None
      else
        (case SimpleCircLinkList_GetElemPtr L position of
           None \<Rightarrow> None
         | Some q \<Rightarrow> Some (L ! nat (q - 1))))"

definition SimpleCircLinkList_SetElem :: "int list \<Rightarrow> int \<Rightarrow> int \<Rightarrow> bool \<times> int list" where
  "SimpleCircLinkList_SetElem L position e =
     (if position < 1 then (False, L)
      else
        (case SimpleCircLinkList_GetElemPtr L position of
           None \<Rightarrow> (False, L)
         | Some q \<Rightarrow> (True, L[nat (q - 1) := e])))"

definition SimpleCircLinkList_Insert :: "int list \<Rightarrow> int \<Rightarrow> int \<Rightarrow> bool \<times> int list" where
  "SimpleCircLinkList_Insert L position e =
     (if position < 1 \<or> position > SimpleCircLinkList_Length L + 1 then (False, L)
      else
        (case (if position = 1 then Some 0 else SimpleCircLinkList_GetElemPtr L (position - 1)) of
           None \<Rightarrow> (False, L)
         | Some q \<Rightarrow> (True, take (nat q) L @ e # drop (nat q) L)))"

text \<open>
  \<open>Delete(position, e)\<close>: \<open>target = prev->next\<close> with no test of \<open>prev\<close>, then
  \<open>if (target == head) return false\<close>; and the overload \<open>Delete(position)\<close>.
\<close>

definition SimpleCircLinkList_Delete :: "int list \<Rightarrow> int \<Rightarrow> exn + int option \<times> int list" where
  "SimpleCircLinkList_Delete L position =
     (if position < 1 \<or> position > SimpleCircLinkList_Length L then Inr (None, L)
      else
        (case (if position = 1 then Some 0 else SimpleCircLinkList_GetElemPtr L (position - 1)) of
           None \<Rightarrow> Inl undefined_behaviour
         | Some q \<Rightarrow>
             (let tq = cl_next L q
              in if tq = 0 then Inr (None, L)
                 else Inr (Some (L ! nat (tq - 1)), take (nat q) L @ drop (nat tq) L))))"

definition SimpleCircLinkList_Delete1 :: "int list \<Rightarrow> int \<Rightarrow> exn + bool \<times> int list" where
  "SimpleCircLinkList_Delete1 L position =
     (case SimpleCircLinkList_Delete L position of
        Inl x \<Rightarrow> Inl x
      | Inr (r, L1) \<Rightarrow> Inr (r \<noteq> None, L1))"

subsection \<open>\<open>LinkList\<close> of the linked-list file\<close>

text \<open>
  The list with a node count and a cached position: \<open>curPtr\<close> points to the node at
  \<open>curPosition\<close>.  \<open>GetElemPtr\<close> is \<open>const\<close> but updates the cache, so every function
  that calls it returns the list as well.
\<close>

record LinkList =
  elems_ll :: "int list"
  curPosition :: int
  curPtr :: "int option"
  count_ll :: int

text \<open>\<open>while (j < position && p) { p = p->next; ++j; }\<close>\<close>

function LinkList_GetElemPtr_loop :: "int list \<Rightarrow> int option \<Rightarrow> int \<Rightarrow> int \<Rightarrow> int option" where
  "LinkList_GetElemPtr_loop es p j position =
     (if j < position then
        (case p of
           None \<Rightarrow> None
         | Some q \<Rightarrow> LinkList_GetElemPtr_loop es (sl_next es q) (j + 1) position)
      else p)"
  by pat_completeness auto
termination
  by (relation "measure (\<lambda>(es, p, j, position). nat (position - j))") auto

declare LinkList_GetElemPtr_loop.simps [simp del]

definition LinkList_GetElemPtr :: "LinkList \<Rightarrow> int \<Rightarrow> int option \<times> LinkList" where
  "LinkList_GetElemPtr L position =
     (if position < 0 \<or> position > count_ll L then (None, L)
      else
        (let p0 = (if position \<ge> curPosition L then curPtr L else Some 0);
             j0 = (if position \<ge> curPosition L then curPosition L else 0);
             p = LinkList_GetElemPtr_loop (elems_ll L) p0 j0 position
         in (p, L\<lparr> curPtr := p, curPosition := position \<rparr>)))"

definition LinkList_GetElem :: "LinkList \<Rightarrow> int \<Rightarrow> int option \<times> LinkList" where
  "LinkList_GetElem L position =
     (if position < 1 \<or> position > count_ll L then (None, L)
      else
        (case LinkList_GetElemPtr L position of
           (None, L1) \<Rightarrow> (None, L1)
         | (Some q, L1) \<Rightarrow> (Some (elems_ll L1 ! nat (q - 1)), L1)))"

definition LinkList_SetElem :: "LinkList \<Rightarrow> int \<Rightarrow> int \<Rightarrow> bool \<times> LinkList" where
  "LinkList_SetElem L position e =
     (if position < 1 \<or> position > count_ll L then (False, L)
      else
        (case LinkList_GetElemPtr L position of
           (None, L1) \<Rightarrow> (False, L1)
         | (Some q, L1) \<Rightarrow> (True, L1\<lparr> elems_ll := (elems_ll L1)[nat (q - 1) := e] \<rparr>)))"

definition LinkList_Insert :: "LinkList \<Rightarrow> int \<Rightarrow> int \<Rightarrow> bool \<times> LinkList" where
  "LinkList_Insert L position e =
     (if position < 1 \<or> position > count_ll L + 1 then (False, L)
      else
        (case LinkList_GetElemPtr L (position - 1) of
           (None, L1) \<Rightarrow> (False, L1)
         | (Some q, L1) \<Rightarrow>
             (True, L1\<lparr> elems_ll := take (nat q) (elems_ll L1) @ e # drop (nat q) (elems_ll L1),
                        count_ll := count_ll L1 + 1,
                        curPosition := position,
                        curPtr := Some (q + 1) \<rparr>)))"

definition LinkList_Delete :: "LinkList \<Rightarrow> int \<Rightarrow> exn + int option \<times> LinkList" where
  "LinkList_Delete L position =
     (if position < 1 \<or> position > count_ll L then Inr (None, L)
      else
        (case LinkList_GetElemPtr L (position - 1) of
           (None, L1) \<Rightarrow> Inl undefined_behaviour
         | (Some q, L1) \<Rightarrow>
             (case sl_next (elems_ll L1) q of
                None \<Rightarrow> Inl undefined_behaviour
              | Some tq \<Rightarrow>
                  Inr (Some (elems_ll L1 ! nat (tq - 1)),
                       L1\<lparr> elems_ll := take (nat q) (elems_ll L1) @ drop (nat tq) (elems_ll L1),
                           count_ll := count_ll L1 - 1,
                           curPosition := position - 1,
                           curPtr := Some q \<rparr>))))"

definition LinkList_Delete1 :: "LinkList \<Rightarrow> int \<Rightarrow> exn + bool \<times> LinkList" where
  "LinkList_Delete1 L position =
     (case LinkList_Delete L position of
        Inl x \<Rightarrow> Inl x
      | Inr (r, L1) \<Rightarrow> Inr (r \<noteq> None, L1))"

subsection \<open>\<open>LinkList\<close> of the string file\<close>

text \<open>
  The helper list of the string file, with a node count \<open>sz\<close>: its state is the
  sequence of the data of its nodes, and \<open>sz\<close> is the length of that sequence.
\<close>

definition StrLinkList_GetElem :: "'a list \<Rightarrow> int \<Rightarrow> 'a option" where
  "StrLinkList_GetElem xs pos =
     (if pos < 1 \<or> pos > int (length xs) then None else Some (xs ! nat (pos - 1)))"

subsection \<open>\<open>AdjListGraph\<close>\<close>

text \<open>Vertices are numbered from 0; \<open>adjList ! v\<close> is the neighbour list of \<open>v\<close>.\<close>

record AdjListGraph =
  vexNum_al :: int
  edgeNum_al :: int
  adjList :: "int list list"
  elems_al :: "int list"
  tag_al :: "bool list"
  directed :: bool

definition AdjListGraph_new :: "int list \<Rightarrow> bool \<Rightarrow> AdjListGraph" where
  "AdjListGraph_new vertices d =
     \<lparr> vexNum_al = int (length vertices), edgeNum_al = 0,
       adjList = replicate (length vertices) [],
       elems_al = vertices, tag_al = replicate (length vertices) False, directed = d \<rparr>"

definition checkVertex_al :: "AdjListGraph \<Rightarrow> int \<Rightarrow> bool" where
  "checkVertex_al g v \<longleftrightarrow> v \<ge> 0 \<and> v < vexNum_al g"

definition AdjListGraph_GetElem :: "AdjListGraph \<Rightarrow> int \<Rightarrow> int option" where
  "AdjListGraph_GetElem g v =
     (if \<not> checkVertex_al g v then None else Some (elems_al g ! nat v))"

definition AdjListGraph_SetElem :: "AdjListGraph \<Rightarrow> int \<Rightarrow> int \<Rightarrow> bool \<times> AdjListGraph" where
  "AdjListGraph_SetElem g v e =
     (if \<not> checkVertex_al g v then (False, g)
      else (True, g\<lparr> elems_al := (elems_al g)[nat v := e] \<rparr>))"

definition AdjListGraph_FirstAdjVex :: "AdjListGraph \<Rightarrow> int \<Rightarrow> int" where
  "AdjListGraph_FirstAdjVex g v =
     (if \<not> checkVertex_al g v \<or> adjList g ! nat v = [] then -1
      else adjList g ! nat v ! 0)"

text \<open>
  \<open>for (i = 0; i + 1 < neighbors.size(); ++i)
  if (neighbors[i] == v2) return neighbors[i + 1]; return -1;\<close>
\<close>

fun NextAdjVex_loop :: "int list \<Rightarrow> int \<Rightarrow> int" where
  "NextAdjVex_loop (a # b # rest) v2 = (if a = v2 then b else NextAdjVex_loop (b # rest) v2)"
| "NextAdjVex_loop neighbors v2 = -1"

definition AdjListGraph_NextAdjVex :: "AdjListGraph \<Rightarrow> int \<Rightarrow> int \<Rightarrow> int" where
  "AdjListGraph_NextAdjVex g v1 v2 =
     (if \<not> checkVertex_al g v1 \<or> \<not> checkVertex_al g v2 then -1
      else NextAdjVex_loop (adjList g ! nat v1) v2)"

fun isNeighbor_loop :: "int list \<Rightarrow> int \<Rightarrow> bool" where
  "isNeighbor_loop [] to = False"
| "isNeighbor_loop (w # rest) to = (if w = to then True else isNeighbor_loop rest to)"

definition isNeighbor :: "AdjListGraph \<Rightarrow> int \<Rightarrow> int \<Rightarrow> bool" where
  "isNeighbor g from to = isNeighbor_loop (adjList g ! nat from) to"

text \<open>\<open>eraseNeighbor\<close> erases the first occurrence and tells whether there was one.\<close>

fun eraseNeighbor_loop :: "int list \<Rightarrow> int \<Rightarrow> bool \<times> int list" where
  "eraseNeighbor_loop [] to = (False, [])"
| "eraseNeighbor_loop (w # rest) to =
     (if w = to then (True, rest)
      else (case eraseNeighbor_loop rest to of (b, rest1) \<Rightarrow> (b, w # rest1)))"

definition eraseNeighbor :: "AdjListGraph \<Rightarrow> int \<Rightarrow> int \<Rightarrow> bool \<times> AdjListGraph" where
  "eraseNeighbor g from to =
     (case eraseNeighbor_loop (adjList g ! nat from) to of
        (b, neighbors) \<Rightarrow> (b, g\<lparr> adjList := (adjList g)[nat from := neighbors] \<rparr>))"

definition push_back_neighbor :: "AdjListGraph \<Rightarrow> int \<Rightarrow> int \<Rightarrow> AdjListGraph" where
  "push_back_neighbor g from to =
     g\<lparr> adjList := (adjList g)[nat from := adjList g ! nat from @ [to]] \<rparr>"

definition AdjListGraph_InsertEdge :: "AdjListGraph \<Rightarrow> int \<Rightarrow> int \<Rightarrow> exn + AdjListGraph" where
  "AdjListGraph_InsertEdge g v1 v2 =
     (if \<not> checkVertex_al g v1 \<or> \<not> checkVertex_al g v2 then Inl out_of_range
      else
        (let g1 = (if \<not> isNeighbor g v1 v2
                   then (push_back_neighbor g v1 v2)\<lparr> edgeNum_al := edgeNum_al g + 1 \<rparr>
                   else g)
         in Inr (if \<not> directed g1 \<and> \<not> isNeighbor g1 v2 v1
                 then push_back_neighbor g1 v2 v1 else g1)))"

text \<open>\<open>DeleteEdge\<close> returns \<open>void\<close>: its only result is the graph.\<close>

definition AdjListGraph_DeleteEdge :: "AdjListGraph \<Rightarrow> int \<Rightarrow> int \<Rightarrow> AdjListGraph" where
  "AdjListGraph_DeleteEdge g v1 v2 =
     (if \<not> checkVertex_al g v1 \<or> \<not> checkVertex_al g v2 then g
      else
        (case eraseNeighbor g v1 v2 of
           (b, g1) \<Rightarrow>
             (let g2 = (if b then g1\<lparr> edgeNum_al := edgeNum_al g1 - 1 \<rparr> else g1)
              in if \<not> directed g2 then snd (eraseNeighbor g2 v2 v1) else g2)))"

definition AdjListGraph_GetTag :: "AdjListGraph \<Rightarrow> int \<Rightarrow> exn + bool" where
  "AdjListGraph_GetTag g v =
     (if \<not> checkVertex_al g v then Inl out_of_range else Inr (tag_al g ! nat v))"

definition AdjListGraph_SetTag :: "AdjListGraph \<Rightarrow> int \<Rightarrow> bool \<Rightarrow> bool \<times> AdjListGraph" where
  "AdjListGraph_SetTag g v b =
     (if \<not> checkVertex_al g v then (False, g)
      else (True, g\<lparr> tag_al := (tag_al g)[nat v := b] \<rparr>))"

subsection \<open>\<open>AdjMatrixUndirNetwork\<close>\<close>

text \<open>\<open>WeightType\<close> is \<open>int\<close>; the weight \<open>ZERO = 0\<close> stands for no edge.\<close>

record AdjMatrixUndirNetwork =
  vexNum_am :: int
  edgeNum_am :: int
  matrix :: "int list list"
  elems_am :: "int list"
  tag_am :: "bool list"

definition AdjMatrixUndirNetwork_new :: "int list \<Rightarrow> AdjMatrixUndirNetwork" where
  "AdjMatrixUndirNetwork_new vertices =
     \<lparr> vexNum_am = int (length vertices), edgeNum_am = 0,
       matrix = replicate (length vertices) (replicate (length vertices) 0),
       elems_am = vertices, tag_am = replicate (length vertices) False \<rparr>"

definition checkVertex_am :: "AdjMatrixUndirNetwork \<Rightarrow> int \<Rightarrow> bool" where
  "checkVertex_am g v \<longleftrightarrow> v \<ge> 0 \<and> v < vexNum_am g"

definition AdjMatrixUndirNetwork_GetElem :: "AdjMatrixUndirNetwork \<Rightarrow> int \<Rightarrow> int option" where
  "AdjMatrixUndirNetwork_GetElem g v =
     (if \<not> checkVertex_am g v then None else Some (elems_am g ! nat v))"

definition AdjMatrixUndirNetwork_SetElem ::
  "AdjMatrixUndirNetwork \<Rightarrow> int \<Rightarrow> int \<Rightarrow> bool \<times> AdjMatrixUndirNetwork" where
  "AdjMatrixUndirNetwork_SetElem g v e =
     (if \<not> checkVertex_am g v then (False, g)
      else (True, g\<lparr> elems_am := (elems_am g)[nat v := e] \<rparr>))"

text \<open>\<open>for (; j < vexNum; ++j) if (matrix[v][j] > ZERO) return j; return -1;\<close>\<close>

function AdjVex_scan :: "AdjMatrixUndirNetwork \<Rightarrow> int \<Rightarrow> int \<Rightarrow> int" where
  "AdjVex_scan g v j =
     (if j < vexNum_am g then
        (if matrix g ! nat v ! nat j > 0 then j else AdjVex_scan g v (j + 1))
      else -1)"
  by pat_completeness auto
termination
  by (relation "measure (\<lambda>(g, v, j). nat (vexNum_am g - j))") auto

declare AdjVex_scan.simps [simp del]

definition AdjMatrixUndirNetwork_FirstAdjVex :: "AdjMatrixUndirNetwork \<Rightarrow> int \<Rightarrow> int" where
  "AdjMatrixUndirNetwork_FirstAdjVex g v =
     (if \<not> checkVertex_am g v then -1 else AdjVex_scan g v 0)"

definition AdjMatrixUndirNetwork_NextAdjVex :: "AdjMatrixUndirNetwork \<Rightarrow> int \<Rightarrow> int \<Rightarrow> int" where
  "AdjMatrixUndirNetwork_NextAdjVex g v1 v2 =
     (if \<not> checkVertex_am g v1 \<or> \<not> checkVertex_am g v2 then -1
      else AdjVex_scan g v1 (v2 + 1))"

text \<open>\<open>matrix[v1][v2] = matrix[v2][v1] = w\<close>: the right assignment first.\<close>

definition set_weight :: "int list list \<Rightarrow> int \<Rightarrow> int \<Rightarrow> int \<Rightarrow> int list list" where
  "set_weight M v1 v2 w =
     (let M1 = M[nat v2 := (M ! nat v2)[nat v1 := w]]
      in M1[nat v1 := (M1 ! nat v1)[nat v2 := w]])"

definition AdjMatrixUndirNetwork_InsertEdge ::
  "AdjMatrixUndirNetwork \<Rightarrow> int \<Rightarrow> int \<Rightarrow> int \<Rightarrow> exn + AdjMatrixUndirNetwork" where
  "AdjMatrixUndirNetwork_InsertEdge g v1 v2 w =
     (if \<not> checkVertex_am g v1 \<or> \<not> checkVertex_am g v2 \<or> v1 = v2 then Inl out_of_range
      else if w \<le> 0 then Inl invalid_argument
      else
        (let g1 = (if matrix g ! nat v1 ! nat v2 = 0
                   then g\<lparr> edgeNum_am := edgeNum_am g + 1 \<rparr> else g)
         in Inr (g1\<lparr> matrix := set_weight (matrix g1) v1 v2 w \<rparr>)))"

definition AdjMatrixUndirNetwork_DeleteEdge ::
  "AdjMatrixUndirNetwork \<Rightarrow> int \<Rightarrow> int \<Rightarrow> AdjMatrixUndirNetwork" where
  "AdjMatrixUndirNetwork_DeleteEdge g v1 v2 =
     (if \<not> checkVertex_am g v1 \<or> \<not> checkVertex_am g v2 then g
      else if matrix g ! nat v1 ! nat v2 \<noteq> 0
      then g\<lparr> edgeNum_am := edgeNum_am g - 1, matrix := set_weight (matrix g) v1 v2 0 \<rparr>
      else g)"

definition AdjMatrixUndirNetwork_GetWeight ::
  "AdjMatrixUndirNetwork \<Rightarrow> int \<Rightarrow> int \<Rightarrow> exn + int" where
  "AdjMatrixUndirNetwork_GetWeight g v1 v2 =
     (if \<not> checkVertex_am g v1 \<or> \<not> checkVertex_am g v2 then Inl out_of_range
      else Inr (matrix g ! nat v1 ! nat v2))"

definition AdjMatrixUndirNetwork_SetWeight ::
  "AdjMatrixUndirNetwork \<Rightarrow> int \<Rightarrow> int \<Rightarrow> int \<Rightarrow> exn + AdjMatrixUndirNetwork" where
  "AdjMatrixUndirNetwork_SetWeight g v1 v2 w =
     (if \<not> checkVertex_am g v1 \<or> \<not> checkVertex_am g v2 then Inl out_of_range
      else Inr (g\<lparr> matrix := set_weight (matrix g) v1 v2 w \<rparr>))"

definition AdjMatrixUndirNetwork_GetTag :: "AdjMatrixUndirNetwork \<Rightarrow> int \<Rightarrow> exn + bool" where
  "AdjMatrixUndirNetwork_GetTag g v =
     (if \<not> checkVertex_am g v then Inl out_of_range else Inr (tag_am g ! nat v))"

definition AdjMatrixUndirNetwork_SetTag ::
  "AdjMatrixUndirNetwork \<Rightarrow> int \<Rightarrow> bool \<Rightarrow> bool \<times> AdjMatrixUndirNetwork" where
  "AdjMatrixUndirNetwork_SetTag g v b =
     (if \<not> checkVertex_am g v then (False, g)
      else (True, g\<lparr> tag_am := (tag_am g)[nat v := b] \<rparr>))"

subsection \<open>\<open>DisjointSet\<close>\<close>

text \<open>
  \<open>Find(x)\<close> reads \<open>parent[x]\<close> through \<open>std::vector::operator[]\<close> with no test of
  \<open>x\<close>; outside the vector that read is undefined.  \<open>vec_read\<close> is that read.  A
  cycle in \<open>parent\<close> would make \<open>Find\<close> recurse for ever: \<open>None\<close>.
  \<open>DisjointSet_new n\<close> is the constructor for a number \<open>n\<close> of elements that is
  not negative.
\<close>

record DisjointSet =
  parent_ds :: "int list"
  rank_ds :: "int list"

definition DisjointSet_new :: "nat \<Rightarrow> DisjointSet" where
  "DisjointSet_new n = \<lparr> parent_ds = map int [0 ..< n], rank_ds = replicate n 0 \<rparr>"

definition vec_read :: "int list \<Rightarrow> int \<Rightarrow> exn + int" where
  "vec_read v i = (if 0 \<le> i \<and> i < int (length v) then Inr (v ! nat i) else Inl undefined_behaviour)"

partial_function (option) DisjointSet_Find ::
  "DisjointSet \<Rightarrow> int \<Rightarrow> (exn + int \<times> DisjointSet) option" where
  "DisjointSet_Find ds x =
     (case vec_read (parent_ds ds) x of
        Inl e \<Rightarrow> Some (Inl e)
      | Inr px \<Rightarrow>
          if px \<noteq> x then
            Option.bind (DisjointSet_Find ds px)
              (\<lambda>r. case r of
                      Inl e \<Rightarrow> Some (Inl e)
                    | Inr (root, ds1) \<Rightarrow>
                        Some (Inr (root, ds1\<lparr> parent_ds := (parent_ds ds1)[nat x := root] \<rparr>)))
          else Some (Inr (px, ds)))"

declare DisjointSet_Find.simps [code]

definition DisjointSet_Union :: "DisjointSet \<Rightarrow> int \<Rightarrow> int \<Rightarrow> (exn + DisjointSet) option" where
  "DisjointSet_Union ds x y =
     Option.bind (DisjointSet_Find ds x)
       (\<lambda>r. case r of
               Inl e \<Rightarrow> Some (Inl e)
             | Inr (x1, ds1) \<Rightarrow>
                 Option.bind (DisjointSet_Find ds1 y)
                   (\<lambda>r. case r of
                           Inl e \<Rightarrow> Some (Inl e)
                         | Inr (y1, ds2) \<Rightarrow>
                             Some (Inr
                               (if x1 = y1 then ds2
                                else if rank_ds ds2 ! nat x1 < rank_ds ds2 ! nat y1
                                then ds2\<lparr> parent_ds := (parent_ds ds2)[nat x1 := y1] \<rparr>
                                else if rank_ds ds2 ! nat x1 > rank_ds ds2 ! nat y1
                                then ds2\<lparr> parent_ds := (parent_ds ds2)[nat y1 := x1] \<rparr>
                                else ds2\<lparr> parent_ds := (parent_ds ds2)[nat y1 := x1],
                                          rank_ds := (rank_ds ds2)[nat x1 := rank_ds ds2 ! nat x1 + 1] \<rparr>))))"

section \<open>Arithmetic of \<open>int\<close>: facts\<close>

lemma wrap32_id: "0 \<le> x \<Longrightarrow> x < 2147483648 \<Longrightarrow> wrap32 x = x"
  by (simp add: wrap32_def)

section \<open>Bounds checks of the indexed accessors\<close>

subsection \<open>\<open>Array\<close>\<close>

lemma Locate_loop_out_of_range:
  "1 \<le> i \<Longrightarrow> int (length va) = dim a - i \<Longrightarrow>
   \<exists>j<length va. va ! j < 0 \<or> va ! j \<ge> bounds a ! (nat i + j) \<Longrightarrow>
   Locate_loop a i va idx = Inl out_of_range"
proof (induction a i va idx rule: Locate_loop.induct)
  case (1 a i va idx)
  from "1.prems" obtain j where j: "j < length va" "va ! j < 0 \<or> va ! j \<ge> bounds a ! (nat i + j)"
    by blast
  then obtain sub va' where va: "va = sub # va'" by (cases va) auto
  have lt: "i < dim a" using "1.prems"(2) va by simp
  show ?case
  proof (cases "sub < 0 \<or> sub \<ge> bounds a ! nat i")
    case True
    then show ?thesis using lt va by (subst Locate_loop.simps) simp
  next
    case False
    with j va obtain j' where j': "j = Suc j'" by (cases j) auto
    have "\<exists>j<length va'. va' ! j < 0 \<or> va' ! j \<ge> bounds a ! (nat (i + 1) + j)"
      using j j' va "1.prems"(1) by (intro exI[of _ j']) (simp add: nat_add_distrib)
    moreover have "int (length va') = dim a - (i + 1)" using "1.prems"(2) va by simp
    ultimately have "Locate_loop a (i + 1) va' (idx + sub * constants a ! nat i) = Inl out_of_range"
      using "1.IH"[OF lt va False] "1.prems"(1) by simp
    then show ?thesis using lt va False by (subst Locate_loop.simps) simp
  qed
qed

lemma Array_call_out_of_range:
  assumes "int (length subs) = dim a"
    and "\<exists>j<length subs. subs ! j < 0 \<or> subs ! j \<ge> bounds a ! j"
  shows "Array_call a (hd subs) (tl subs) = Inl out_of_range"
proof (cases "dim a \<le> 0")
  case True
  then show ?thesis by (simp add: Array_call_def Locate_def)
next
  case False
  with assms(1) obtain s0 va where subs: "subs = s0 # va" by (cases subs) auto
  show ?thesis
  proof (cases "s0 < 0 \<or> s0 \<ge> bounds a ! 0")
    case True
    then show ?thesis using subs by (simp add: Array_call_def Locate_def)
  next
    case F2: False
    from assms(2) obtain j where j: "j < length subs" "subs ! j < 0 \<or> subs ! j \<ge> bounds a ! j"
      by blast
    with F2 subs obtain j' where j': "j = Suc j'" by (cases j) auto
    have "\<exists>j<length va. va ! j < 0 \<or> va ! j \<ge> bounds a ! (nat 1 + j)"
      using j j' subs by (intro exI[of _ j']) simp
    moreover have "int (length va) = dim a - 1" using assms(1) subs by simp
    ultimately have "Locate_loop a 1 va (0 + s0 * constants a ! 0) = Inl out_of_range"
      by (intro Locate_loop_out_of_range) auto
    then show ?thesis using False F2 subs by (simp add: Array_call_def Locate_def)
  qed
qed

lemma Array_Length_out_of_range:
  "d < 0 \<or> d \<ge> dim a \<Longrightarrow> Array_Length a d = Inl out_of_range"
  by (simp add: Array_Length_def)

subsection \<open>The matrices\<close>

lemma Matrix_call_out_of_range:
  "i < 1 \<or> i > rows_mx mx \<or> j < 1 \<or> j > cols_mx mx \<Longrightarrow> Matrix_call mx i j = Inl out_of_range"
  by (simp add: Matrix_call_def Matrix_pos_def)

lemma SymmetricMatrix_call_out_of_range:
  "i < 1 \<or> i > n_sym sy \<or> j < 1 \<or> j > n_sym sy \<Longrightarrow>
   SymmetricMatrix_call sy i j = Inl out_of_range"
  by (simp add: SymmetricMatrix_call_def lower_index_def)

lemma TriangularMatrix_out_of_range:
  "i < 1 \<or> i > n_tri tr \<or> j < 1 \<or> j > n_tri tr \<Longrightarrow>
   TriangularMatrix_set tr i j v = Inl out_of_range
   \<and> TriangularMatrix_get tr i j = Inl out_of_range"
  by (simp add: TriangularMatrix_set_def TriangularMatrix_index_def TriangularMatrix_get_def)

lemma TridiagonalMatrix_out_of_range:
  "i < 1 \<or> i > n_td td \<or> j < 1 \<or> j > n_td td \<Longrightarrow>
   TridiagonalMatrix_at td i j = Inl out_of_range
   \<and> TridiagonalMatrix_get td i j = Inl out_of_range"
  by (simp add: TridiagonalMatrix_at_def TridiagonalMatrix_index_def TridiagonalMatrix_get_def)

lemma SetElem_index_error:
  "r < 1 \<or> r > rows m \<or> c < 1 \<or> c > cols m \<Longrightarrow> SetElem m r c v = (False, m)"
  by (auto simp: SetElem_def)

lemma GetElem_index_error:
  "r < 1 \<or> r > rows m \<or> c < 1 \<or> c > cols m \<Longrightarrow> GetElem m r c = None"
  by (auto simp: GetElem_def)

subsection \<open>\<open>SqList\<close>\<close>

lemma SqList_position_error:
  "p < 1 \<or> p > count_sq sq \<Longrightarrow>
   SqList_GetElem sq p = None \<and> SqList_SetElem sq p v = (False, sq)
   \<and> SqList_Delete sq p = (None, sq) \<and> SqList_Delete1 sq p = (False, sq)"
  by (simp add: SqList_GetElem_def SqList_SetElem_def SqList_Delete_def SqList_Delete1_def)

lemma SqList_Insert_position_error:
  "p < 1 \<or> p > count_sq sq + 1 \<Longrightarrow> SqList_Insert sq p v = (False, sq)"
  by (simp add: SqList_Insert_def)

subsection \<open>\<open>SimpleLinkList\<close>\<close>

text \<open>A walk of more steps than there are nodes left ends in the null pointer.\<close>

lemma SimpleLinkList_GetElemPtr_loop_past_end:
  "0 \<le> q \<Longrightarrow> q \<le> int (length L) \<Longrightarrow> position - j > int (length L) - q \<Longrightarrow>
   SimpleLinkList_GetElemPtr_loop L (Some q) j position = None"
proof (induction "nat (int (length L) - q)" arbitrary: q j)
  case 0
  then have q: "q = int (length L)" by simp
  have "j < position" using "0.prems"(3) q by simp
  then have "SimpleLinkList_GetElemPtr_loop L (Some q) j position
      = SimpleLinkList_GetElemPtr_loop L (sl_next L q) (j + 1) position"
    by (subst SimpleLinkList_GetElemPtr_loop.simps) simp
  also have "sl_next L q = None" using q by (simp add: sl_next_def)
  also have "SimpleLinkList_GetElemPtr_loop L None (j + 1) position = None"
    by (subst SimpleLinkList_GetElemPtr_loop.simps) simp
  finally show ?case .
next
  case (Suc n)
  then have q: "q < int (length L)" by linarith
  have "j < position" using Suc.prems q by linarith
  then have "SimpleLinkList_GetElemPtr_loop L (Some q) j position
      = SimpleLinkList_GetElemPtr_loop L (sl_next L q) (j + 1) position"
    by (subst SimpleLinkList_GetElemPtr_loop.simps) simp
  also have "sl_next L q = Some (q + 1)" using q Suc.prems(1) by (simp add: sl_next_def)
  also have "SimpleLinkList_GetElemPtr_loop L (Some (q + 1)) (j + 1) position = None"
  proof (rule Suc.hyps(1))
    show "n = nat (int (length L) - (q + 1))" using Suc.hyps(2) by linarith
    show "0 \<le> q + 1" using Suc.prems(1) by simp
    show "q + 1 \<le> int (length L)" using q by simp
    show "int (length L) - (q + 1) < position - (j + 1)" using Suc.prems(3) by simp
  qed
  finally show ?case .
qed

lemma SimpleLinkList_GetElemPtr_past_end:
  "position > int (length L) \<Longrightarrow> SimpleLinkList_GetElemPtr L position = None"
  using SimpleLinkList_GetElemPtr_loop_past_end[of 0 L position 0]
  by (simp add: SimpleLinkList_GetElemPtr_def)

text \<open>\<open>Length()\<close> counts the nodes.\<close>

lemma SimpleLinkList_Length_loop_count:
  "0 \<le> q \<Longrightarrow> q \<le> int (length L) \<Longrightarrow>
   SimpleLinkList_Length_loop L (Some q) len = len + (int (length L) - q) + 1"
proof (induction "nat (int (length L) - q)" arbitrary: q len)
  case 0
  then have q: "q = int (length L)" by simp
  have "SimpleLinkList_Length_loop L (Some q) len
      = SimpleLinkList_Length_loop L (sl_next L q) (len + 1)"
    by (subst SimpleLinkList_Length_loop.simps) simp
  also have "sl_next L q = None" using q by (simp add: sl_next_def)
  also have "SimpleLinkList_Length_loop L None (len + 1) = len + 1"
    by (subst SimpleLinkList_Length_loop.simps) simp
  finally show ?case using q by simp
next
  case (Suc n)
  then have q: "q < int (length L)" by linarith
  have "SimpleLinkList_Length_loop L (Some q) len
      = SimpleLinkList_Length_loop L (sl_next L q) (len + 1)"
    by (subst SimpleLinkList_Length_loop.simps) simp
  also have "sl_next L q = Some (q + 1)" using q Suc.prems(1) by (simp add: sl_next_def)
  also have "SimpleLinkList_Length_loop L (Some (q + 1)) (len + 1)
      = (len + 1) + (int (length L) - (q + 1)) + 1"
  proof (rule Suc.hyps(1))
    show "n = nat (int (length L) - (q + 1))" using Suc.hyps(2) by linarith
    show "0 \<le> q + 1" using Suc.prems(1) by simp
    show "q + 1 \<le> int (length L)" using q by simp
  qed
  finally show ?case by simp
qed

lemma SimpleLinkList_Length_eq: "SimpleLinkList_Length L = int (length L)"
proof (cases L)
  case Nil
  then show ?thesis
    unfolding SimpleLinkList_Length_def sl_next_def
    by (subst SimpleLinkList_Length_loop.simps) simp
next
  case (Cons x xs)
  then have "sl_next L 0 = Some 1" by (simp add: sl_next_def)
  then show ?thesis
    unfolding SimpleLinkList_Length_def
    using SimpleLinkList_Length_loop_count[of 1 L 0] Cons by simp
qed

lemma SimpleLinkList_position_error:
  assumes "p < 1 \<or> p > int (length L)"
  shows "SimpleLinkList_GetElem L p = None \<and> SimpleLinkList_SetElem L p v = (False, L)
   \<and> SimpleLinkList_Delete L p = Inr (None, L) \<and> SimpleLinkList_Delete1 L p = Inr (False, L)"
proof -
  have ptr: "\<not> p < 1 \<Longrightarrow> SimpleLinkList_GetElemPtr L p = None"
    using assms by (intro SimpleLinkList_GetElemPtr_past_end) simp
  have del: "SimpleLinkList_Delete L p = Inr (None, L)"
    using assms by (simp add: SimpleLinkList_Delete_def SimpleLinkList_Length_eq)
  show ?thesis
    using ptr del
    by (simp add: SimpleLinkList_GetElem_def SimpleLinkList_SetElem_def SimpleLinkList_Delete1_def)
qed

lemma SimpleLinkList_Insert_position_error:
  "p < 1 \<or> p > int (length L) + 1 \<Longrightarrow> SimpleLinkList_Insert L p v = (False, L)"
  by (simp add: SimpleLinkList_Insert_def SimpleLinkList_Length_eq)

subsection \<open>\<open>SimpleCircLinkList\<close>\<close>

text \<open>In the circular list the walk past the last node ends at the head node.\<close>

lemma SimpleCircLinkList_GetElemPtr_loop_past_end:
  "1 \<le> q \<Longrightarrow> q \<le> int (length L) \<Longrightarrow> position - j > int (length L) - q \<Longrightarrow>
   SimpleCircLinkList_GetElemPtr_loop L q j position = 0"
proof (induction "nat (int (length L) - q)" arbitrary: q j)
  case 0
  then have q: "q = int (length L)" by simp
  have "q \<noteq> 0 \<and> j < position" using "0.prems" q by linarith
  then have "SimpleCircLinkList_GetElemPtr_loop L q j position
      = SimpleCircLinkList_GetElemPtr_loop L (cl_next L q) (j + 1) position"
    by (subst SimpleCircLinkList_GetElemPtr_loop.simps) simp
  also have "cl_next L q = 0" using q by (simp add: cl_next_def)
  also have "SimpleCircLinkList_GetElemPtr_loop L 0 (j + 1) position = 0"
    by (subst SimpleCircLinkList_GetElemPtr_loop.simps) simp
  finally show ?case .
next
  case (Suc n)
  then have q: "q < int (length L)" by linarith
  have "q \<noteq> 0 \<and> j < position" using Suc.prems q by linarith
  then have "SimpleCircLinkList_GetElemPtr_loop L q j position
      = SimpleCircLinkList_GetElemPtr_loop L (cl_next L q) (j + 1) position"
    by (subst SimpleCircLinkList_GetElemPtr_loop.simps) simp
  also have "cl_next L q = q + 1" using q Suc.prems(1) by (simp add: cl_next_def)
  also have "SimpleCircLinkList_GetElemPtr_loop L (q + 1) (j + 1) position = 0"
  proof (rule Suc.hyps(1))
    show "n = nat (int (length L) - (q + 1))" using Suc.hyps(2) by linarith
    show "1 \<le> q + 1" using Suc.prems(1) by simp
    show "q + 1 \<le> int (length L)" using q by simp
    show "int (length L) - (q + 1) < position - (j + 1)" using Suc.prems(3) by simp
  qed
  finally show ?case .
qed

lemma SimpleCircLinkList_GetElemPtr_past_end:
  assumes "position > int (length L)"
  shows "SimpleCircLinkList_GetElemPtr L position = None"
proof (cases L)
  case Nil
  have "SimpleCircLinkList_GetElemPtr_loop L 0 1 position = 0"
    by (subst SimpleCircLinkList_GetElemPtr_loop.simps) simp
  then show ?thesis using assms Nil
    by (simp add: SimpleCircLinkList_GetElemPtr_def cl_next_def)
next
  case (Cons x xs)
  then have nx: "cl_next L 0 = 1" by (simp add: cl_next_def)
  have "SimpleCircLinkList_GetElemPtr_loop L 1 1 position = 0"
    using assms Cons by (intro SimpleCircLinkList_GetElemPtr_loop_past_end) simp_all
  then show ?thesis using assms nx
    by (simp add: SimpleCircLinkList_GetElemPtr_def)
qed

lemma SimpleCircLinkList_Length_loop_count:
  "1 \<le> q \<Longrightarrow> q \<le> int (length L) \<Longrightarrow>
   SimpleCircLinkList_Length_loop L q len = len + (int (length L) - q) + 1"
proof (induction "nat (int (length L) - q)" arbitrary: q len)
  case 0
  then have q: "q = int (length L)" by simp
  have "q \<noteq> 0" using "0.prems" by simp
  then have "SimpleCircLinkList_Length_loop L q len
      = SimpleCircLinkList_Length_loop L (cl_next L q) (len + 1)"
    by (subst SimpleCircLinkList_Length_loop.simps) simp
  also have "cl_next L q = 0" using q by (simp add: cl_next_def)
  also have "SimpleCircLinkList_Length_loop L 0 (len + 1) = len + 1"
    by (subst SimpleCircLinkList_Length_loop.simps) simp
  finally show ?case using q by simp
next
  case (Suc n)
  then have q: "q < int (length L)" by linarith
  have "q \<noteq> 0" using Suc.prems by simp
  then have "SimpleCircLinkList_Length_loop L q len
      = SimpleCircLinkList_Length_loop L (cl_next L q) (len + 1)"
    by (subst SimpleCircLinkList_Length_loop.simps) simp
  also have "cl_next L q = q + 1" using q Suc.prems(1) by (simp add: cl_next_def)
  also have "SimpleCircLinkList_Length_loop L (q + 1) (len + 1)
      = (len + 1) + (int (length L) - (q + 1)) + 1"
  proof (rule Suc.hyps(1))
    show "n = nat (int (length L) - (q + 1))" using Suc.hyps(2) by linarith
    show "1 \<le> q + 1" using Suc.prems(1) by simp
    show "q + 1 \<le> int (length L)" using q by simp
  qed
  finally show ?case by simp
qed

lemma SimpleCircLinkList_Length_eq: "SimpleCircLinkList_Length L = int (length L)"
proof (cases L)
  case Nil
  then show ?thesis
    unfolding SimpleCircLinkList_Length_def cl_next_def
    by (subst SimpleCircLinkList_Length_loop.simps) simp
next
  case (Cons x xs)
  then have "cl_next L 0 = 1" by (simp add: cl_next_def)
  then show ?thesis
    unfolding SimpleCircLinkList_Length_def
    using SimpleCircLinkList_Length_loop_count[of 1 L 0] Cons by simp
qed

lemma SimpleCircLinkList_position_error:
  assumes "p < 1 \<or> p > int (length L)"
  shows "SimpleCircLinkList_GetElem L p = None \<and> SimpleCircLinkList_SetElem L p v = (False, L)
   \<and> SimpleCircLinkList_Delete L p = Inr (None, L)
   \<and> SimpleCircLinkList_Delete1 L p = Inr (False, L)"
proof -
  have ptr: "\<not> p < 1 \<Longrightarrow> SimpleCircLinkList_GetElemPtr L p = None"
    using assms by (intro SimpleCircLinkList_GetElemPtr_past_end) simp
  have del: "SimpleCircLinkList_Delete L p = Inr (None, L)"
    using assms by (simp add: SimpleCircLinkList_Delete_def SimpleCircLinkList_Length_eq)
  show ?thesis
    using ptr del
    by (simp add: SimpleCircLinkList_GetElem_def SimpleCircLinkList_SetElem_def
        SimpleCircLinkList_Delete1_def)
qed

lemma SimpleCircLinkList_Insert_position_error:
  "p < 1 \<or> p > int (length L) + 1 \<Longrightarrow> SimpleCircLinkList_Insert L p v = (False, L)"
  by (simp add: SimpleCircLinkList_Insert_def SimpleCircLinkList_Length_eq)

subsection \<open>The lists with a node count\<close>

lemma LinkList_position_error:
  "p < 1 \<or> p > count_ll ll \<Longrightarrow>
   LinkList_GetElem ll p = (None, ll) \<and> LinkList_SetElem ll p v = (False, ll)
   \<and> LinkList_Delete ll p = Inr (None, ll) \<and> LinkList_Delete1 ll p = Inr (False, ll)"
  by (simp add: LinkList_GetElem_def LinkList_SetElem_def LinkList_Delete_def LinkList_Delete1_def)

lemma LinkList_Insert_position_error:
  "p < 1 \<or> p > count_ll ll + 1 \<Longrightarrow> LinkList_Insert ll p v = (False, ll)"
  by (simp add: LinkList_Insert_def)

lemma DblLinkList_position_error:
  "p < 1 \<or> p > int (length xs) \<Longrightarrow>
   StrLinkList_GetElem xs p = None \<and> DblLinkList_GetElem xs p = None
   \<and> DblLinkList_Replace xs p x = (False, xs) \<and> DblLinkList_Delete xs p = (False, xs)"
  by (simp add: StrLinkList_GetElem_def DblLinkList_GetElem_def DblLinkList_Replace_def
      DblLinkList_Delete_def DblLinkList_Length_def)

lemma DblLinkList_Insert_position_error:
  "p < 1 \<or> p > int (length xs) + 1 \<Longrightarrow> DblLinkList_Insert xs p x = (False, xs)"
  by (simp add: DblLinkList_Insert_def DblLinkList_Length_def)

subsection \<open>The graphs\<close>

lemma AdjListGraph_vertex_error:
  "u < 0 \<or> u \<ge> vexNum_al g \<Longrightarrow>
   AdjListGraph_GetElem g u = None \<and> AdjListGraph_SetElem g u v = (False, g)
   \<and> AdjListGraph_SetTag g u b = (False, g)
   \<and> AdjListGraph_GetTag g u = Inl out_of_range
   \<and> AdjListGraph_InsertEdge g u w = Inl out_of_range
   \<and> AdjListGraph_InsertEdge g w u = Inl out_of_range
   \<and> AdjListGraph_FirstAdjVex g u = -1
   \<and> AdjListGraph_NextAdjVex g u w = -1 \<and> AdjListGraph_NextAdjVex g w u = -1
   \<and> AdjListGraph_DeleteEdge g u w = g \<and> AdjListGraph_DeleteEdge g w u = g"
  by (auto simp: checkVertex_al_def AdjListGraph_GetElem_def AdjListGraph_SetElem_def
      AdjListGraph_SetTag_def AdjListGraph_GetTag_def AdjListGraph_InsertEdge_def
      AdjListGraph_FirstAdjVex_def AdjListGraph_NextAdjVex_def AdjListGraph_DeleteEdge_def)

lemma AdjMatrixUndirNetwork_vertex_error:
  "u < 0 \<or> u \<ge> vexNum_am nw \<Longrightarrow>
   AdjMatrixUndirNetwork_GetElem nw u = None
   \<and> AdjMatrixUndirNetwork_SetElem nw u v = (False, nw)
   \<and> AdjMatrixUndirNetwork_SetTag nw u b = (False, nw)
   \<and> AdjMatrixUndirNetwork_GetTag nw u = Inl out_of_range
   \<and> AdjMatrixUndirNetwork_InsertEdge nw u w wt = Inl out_of_range
   \<and> AdjMatrixUndirNetwork_InsertEdge nw w u wt = Inl out_of_range
   \<and> AdjMatrixUndirNetwork_GetWeight nw u w = Inl out_of_range
   \<and> AdjMatrixUndirNetwork_GetWeight nw w u = Inl out_of_range
   \<and> AdjMatrixUndirNetwork_SetWeight nw u w wt = Inl out_of_range
   \<and> AdjMatrixUndirNetwork_SetWeight nw w u wt = Inl out_of_range
   \<and> AdjMatrixUndirNetwork_FirstAdjVex nw u = -1
   \<and> AdjMatrixUndirNetwork_NextAdjVex nw u w = -1
   \<and> AdjMatrixUndirNetwork_NextAdjVex nw w u = -1
   \<and> AdjMatrixUndirNetwork_DeleteEdge nw u w = nw
   \<and> AdjMatrixUndirNetwork_DeleteEdge nw w u = nw"
  by (auto simp: checkVertex_am_def AdjMatrixUndirNetwork_GetElem_def
      AdjMatrixUndirNetwork_SetElem_def AdjMatrixUndirNetwork_SetTag_def
      AdjMatrixUndirNetwork_GetTag_def AdjMatrixUndirNetwork_InsertEdge_def
      AdjMatrixUndirNetwork_GetWeight_def AdjMatrixUndirNetwork_SetWeight_def
      AdjMatrixUndirNetwork_FirstAdjVex_def AdjMatrixUndirNetwork_NextAdjVex_def
      AdjMatrixUndirNetwork_DeleteEdge_def)

subsection \<open>\<open>DisjointSet\<close>\<close>

lemma DisjointSet_unchecked:
  assumes "k < 0 \<or> k \<ge> int (length (parent_ds ds))"
  shows "DisjointSet_Find ds k = Some (Inl undefined_behaviour)
   \<and> DisjointSet_Union ds k y = Some (Inl undefined_behaviour)"
proof -
  have "vec_read (parent_ds ds) k = Inl undefined_behaviour"
    using assms by (auto simp: vec_read_def)
  then have f: "DisjointSet_Find ds k = Some (Inl undefined_behaviour)"
    by (subst DisjointSet_Find.simps) simp
  then show ?thesis by (simp add: DisjointSet_Union_def)
qed

subsection \<open>The claim\<close>

text \<open>
  C3, as the code has it.  The claim as stated fails in three ways.
  \<open>CharString::operator[]\<close> performs no check: for the string \<open>abc\<close> (length 3,
  buffer of 4 characters) the index 7 yields a reference to \<open>strVal[7]\<close>.
  \<open>DisjointSet::Find\<close> performs none either: with three elements, \<open>Find(5)\<close> reads
  \<open>parent[5]\<close> outside the vector.  The graph classes do check the vertex, but for
  a graph of three vertices \<open>FirstAdjVex(3)\<close> and \<open>NextAdjVex(3, 0)\<close> return \<open>-1\<close>
  and \<open>DeleteEdge(0, 3)\<close> returns nothing and leaves the graph as it was: neither
  an exception nor a boolean failure flag.
\<close>

theorem C3_unchecked_access_counterexample:
  "Length (CharString_of ''abc'') = 3
   \<and> length (strVal (CharString_of ''abc'')) = 4
   \<and> CharString_index (CharString_of ''abc'') 7 = Inr 7
   \<and> parent_ds (DisjointSet_new 3) = [0, 1, 2]
   \<and> DisjointSet_Find (DisjointSet_new 3) 5 = Some (Inl undefined_behaviour)
   \<and> vexNum_al (AdjListGraph_new [10, 20, 30] False) = 3
   \<and> AdjListGraph_FirstAdjVex (AdjListGraph_new [10, 20, 30] False) 3 = - 1
   \<and> AdjListGraph_NextAdjVex (AdjListGraph_new [10, 20, 30] False) 3 0 = - 1
   \<and> AdjListGraph_DeleteEdge (AdjListGraph_new [10, 20, 30] False) 0 3
       = AdjListGraph_new [10, 20, 30] False
   \<and> vexNum_am (AdjMatrixUndirNetwork_new [10, 20, 30]) = 3
   \<and> AdjMatrixUndirNetwork_FirstAdjVex (AdjMatrixUndirNetwork_new [10, 20, 30]) 3 = - 1
   \<and> AdjMatrixUndirNetwork_NextAdjVex (AdjMatrixUndirNetwork_new [10, 20, 30]) 3 0 = - 1
   \<and> AdjMatrixUndirNetwork_DeleteEdge (AdjMatrixUndirNetwork_new [10, 20, 30]) 0 3
       = AdjMatrixUndirNetwork_new [10, 20, 30]"
  by code_simp

text \<open>
  C3 (amended): every public indexed accessor other than \<open>CharString::operator[]\<close>
  and \<open>DisjointSet::Find\<close> and \<open>Union\<close> tests its index or position before it
  touches storage, and for every index outside the valid range:
  \<^item> \<open>Array::operator()\<close> (through \<open>Locate\<close>), \<open>Array::Length\<close>,
    \<open>Matrix::operator()\<close>, \<open>SymmetricMatrix::operator()\<close>,
    \<open>TriangularMatrix::set\<close> and \<open>get\<close>, \<open>TridiagonalMatrix::at\<close> and \<open>get\<close>,
    \<open>AdjListGraph::InsertEdge\<close> and \<open>GetTag\<close>, and
    \<open>AdjMatrixUndirNetwork::InsertEdge\<close>, \<open>GetWeight\<close>, \<open>SetWeight\<close> and \<open>GetTag\<close>
    throw \<open>std::out_of_range\<close>;
  \<^item> \<open>TriSparseMatrix::SetElem\<close> and \<open>GetElem\<close>, \<open>GetElem\<close>, \<open>SetElem\<close>, \<open>Insert\<close>
    and \<open>Delete\<close> of \<open>SqList\<close>, \<open>SimpleLinkList\<close>, \<open>SimpleCircLinkList\<close> and
    \<open>LinkList\<close>, \<open>GetElem\<close> of the list of the string file, \<open>Insert\<close>, \<open>GetElem\<close>,
    \<open>Replace\<close> and \<open>Delete\<close> of \<open>DblLinkList\<close>, and \<open>GetElem\<close>, \<open>SetElem\<close> and
    \<open>SetTag\<close> of the two graph classes return \<open>false\<close> and leave the container
    as it was;
  \<^item> \<open>FirstAdjVex\<close> and \<open>NextAdjVex\<close> of the two graph classes return \<open>-1\<close>, and
    their \<open>DeleteEdge\<close> returns leaving the graph as it was.

  \<open>CharString::operator[]\<close> refers to \<open>strVal[pos]\<close> for every \<open>pos\<close>, and
  \<open>DisjointSet::Find(x)\<close> and \<open>Union(x, y)\<close> read \<open>parent[x]\<close> whatever \<open>x\<close> is.
\<close>

theorem C3_indexed_access_bounds:
  "(int (length subs) = dim a \<longrightarrow>
      (\<exists>j<length subs. subs ! j < 0 \<or> subs ! j \<ge> bounds a ! j) \<longrightarrow>
      Array_call a (hd subs) (tl subs) = Inl out_of_range)
   \<and> (d < 0 \<or> d \<ge> dim a \<longrightarrow> Array_Length a d = Inl out_of_range)
   \<and> (i < 1 \<or> i > rows_mx mx \<or> j < 1 \<or> j > cols_mx mx \<longrightarrow>
        Matrix_call mx i j = Inl out_of_range)
   \<and> (i < 1 \<or> i > n_sym sy \<or> j < 1 \<or> j > n_sym sy \<longrightarrow>
        SymmetricMatrix_call sy i j = Inl out_of_range)
   \<and> (i < 1 \<or> i > n_tri tr \<or> j < 1 \<or> j > n_tri tr \<longrightarrow>
        TriangularMatrix_set tr i j v = Inl out_of_range
        \<and> TriangularMatrix_get tr i j = Inl out_of_range)
   \<and> (i < 1 \<or> i > n_td td \<or> j < 1 \<or> j > n_td td \<longrightarrow>
        TridiagonalMatrix_at td i j = Inl out_of_range
        \<and> TridiagonalMatrix_get td i j = Inl out_of_range)
   \<and> (r < 1 \<or> r > rows m \<or> c < 1 \<or> c > cols m \<longrightarrow>
        SetElem m r c v = (False, m) \<and> GetElem m r c = None)
   \<and> (p < 1 \<or> p > count_sq sq \<longrightarrow>
        SqList_GetElem sq p = None \<and> SqList_SetElem sq p v = (False, sq)
        \<and> SqList_Delete sq p = (None, sq) \<and> SqList_Delete1 sq p = (False, sq))
   \<and> (p < 1 \<or> p > count_sq sq + 1 \<longrightarrow> SqList_Insert sq p v = (False, sq))
   \<and> (p < 1 \<or> p > int (length L) \<longrightarrow>
        SimpleLinkList_GetElem L p = None \<and> SimpleLinkList_SetElem L p v = (False, L)
        \<and> SimpleLinkList_Delete L p = Inr (None, L)
        \<and> SimpleLinkList_Delete1 L p = Inr (False, L)
        \<and> SimpleCircLinkList_GetElem L p = None
        \<and> SimpleCircLinkList_SetElem L p v = (False, L)
        \<and> SimpleCircLinkList_Delete L p = Inr (None, L)
        \<and> SimpleCircLinkList_Delete1 L p = Inr (False, L))
   \<and> (p < 1 \<or> p > int (length L) + 1 \<longrightarrow>
        SimpleLinkList_Insert L p v = (False, L)
        \<and> SimpleCircLinkList_Insert L p v = (False, L))
   \<and> (p < 1 \<or> p > count_ll ll \<longrightarrow>
        LinkList_GetElem ll p = (None, ll) \<and> LinkList_SetElem ll p v = (False, ll)
        \<and> LinkList_Delete ll p = Inr (None, ll) \<and> LinkList_Delete1 ll p = Inr (False, ll))
   \<and> (p < 1 \<or> p > count_ll ll + 1 \<longrightarrow> LinkList_Insert ll p v = (False, ll))
   \<and> (p < 1 \<or> p > int (length xs) \<longrightarrow>
        StrLinkList_GetElem xs p = None \<and> DblLinkList_GetElem xs p = None
        \<and> DblLinkList_Replace xs p x = (False, xs) \<and> DblLinkList_Delete xs p = (False, xs))
   \<and> (p < 1 \<or> p > int (length xs) + 1 \<longrightarrow> DblLinkList_Insert xs p x = (False, xs))
   \<and> (u < 0 \<or> u \<ge> vexNum_al g \<longrightarrow>
        AdjListGraph_GetElem g u = None \<and> AdjListGraph_SetElem g u v = (False, g)
        \<and> AdjListGraph_SetTag g u b = (False, g)
        \<and> AdjListGraph_GetTag g u = Inl out_of_range
        \<and> AdjListGraph_InsertEdge g u w = Inl out_of_range
        \<and> AdjListGraph_InsertEdge g w u = Inl out_of_range
        \<and> AdjListGraph_FirstAdjVex g u = - 1
        \<and> AdjListGraph_NextAdjVex g u w = - 1 \<and> AdjListGraph_NextAdjVex g w u = - 1
        \<and> AdjListGraph_DeleteEdge g u w = g \<and> AdjListGraph_DeleteEdge g w u = g)
   \<and> (u < 0 \<or> u \<ge> vexNum_am nw \<longrightarrow>
        AdjMatrixUndirNetwork_GetElem nw u = None
        \<and> AdjMatrixUndirNetwork_SetElem nw u v = (False, nw)
        \<and> AdjMatrixUndirNetwork_SetTag nw u b = (False, nw)
        \<and> AdjMatrixUndirNetwork_GetTag nw u = Inl out_of_range
        \<and> AdjMatrixUndirNetwork_InsertEdge nw u w wt = Inl out_of_range
        \<and> AdjMatrixUndirNetwork_InsertEdge nw w u wt = Inl out_of_range
        \<and> AdjMatrixUndirNetwork_GetWeight nw u w = Inl out_of_range
        \<and> AdjMatrixUndirNetwork_GetWeight nw w u = Inl out_of_range
        \<and> AdjMatrixUndirNetwork_SetWeight nw u w wt = Inl out_of_range
        \<and> AdjMatrixUndirNetwork_SetWeight nw w u wt = Inl out_of_range
        \<and> AdjMatrixUndirNetwork_FirstAdjVex nw u = - 1
        \<and> AdjMatrixUndirNetwork_NextAdjVex nw u w = - 1
        \<and> AdjMatrixUndirNetwork_NextAdjVex nw w u = - 1
        \<and> AdjMatrixUndirNetwork_DeleteEdge nw u w = nw
        \<and> AdjMatrixUndirNetwork_DeleteEdge nw w u = nw)
   \<and> CharString_index s pos = Inr pos
   \<and> (k < 0 \<or> k \<ge> int (length (parent_ds ds)) \<longrightarrow>
        DisjointSet_Find ds k = Some (Inl undefined_behaviour)
        \<and> DisjointSet_Union ds k y = Some (Inl undefined_behaviour))"
proof (intro conjI impI)
qed (simp_all add: Array_call_out_of_range Array_Length_out_of_range
    Matrix_call_out_of_range SymmetricMatrix_call_out_of_range
    TriangularMatrix_out_of_range TridiagonalMatrix_out_of_range
    SetElem_index_error GetElem_index_error
    SqList_position_error SqList_Insert_position_error
    SimpleLinkList_position_error SimpleLinkList_Insert_position_error
    SimpleCircLinkList_position_error SimpleCircLinkList_Insert_position_error
    LinkList_position_error LinkList_Insert_position_error
    DblLinkList_position_error DblLinkList_Insert_position_error
    AdjListGraph_vertex_error AdjMatrixUndirNetwork_vertex_error
    DisjointSet_unchecked CharString_index_def)

text \<open>
  The theorem at concrete containers, once with every index or position beyond
  the valid range and once with every one below it: the 3 x 4 array of the
  demonstration program, matrices of order 3, a 5 x 6 sparse matrix, lists of
  three elements, graphs of three vertices, the string \<open>abc\<close> and a disjoint set of
  three elements.
\<close>

theorem C3_indexed_access_bounds_witness:
  "Array_call \<lparr> base = replicate 12 0, dim = 2, bounds = [3, 4], constants = [4, 1], total = 12 \<rparr>
      3 [0] = Inl out_of_range
   \<and> Array_call \<lparr> base = replicate 12 0, dim = 2, bounds = [3, 4], constants = [4, 1], total = 12 \<rparr>
      (- 1) [0] = Inl out_of_range
   \<and> Array_Length \<lparr> base = replicate 12 0, dim = 2, bounds = [3, 4], constants = [4, 1], total = 12 \<rparr>
      2 = Inl out_of_range
   \<and> Array_Length \<lparr> base = replicate 12 0, dim = 2, bounds = [3, 4], constants = [4, 1], total = 12 \<rparr>
      (- 1) = Inl out_of_range
   \<and> Matrix_call \<lparr> rows_mx = 3, cols_mx = 3, buf_mx = replicate 9 0 \<rparr> 4 1 = Inl out_of_range
   \<and> Matrix_call \<lparr> rows_mx = 3, cols_mx = 3, buf_mx = replicate 9 0 \<rparr> 1 0 = Inl out_of_range
   \<and> SymmetricMatrix_call \<lparr> n_sym = 3, buf_sym = replicate 6 0 \<rparr> 4 1 = Inl out_of_range
   \<and> SymmetricMatrix_call \<lparr> n_sym = 3, buf_sym = replicate 6 0 \<rparr> 1 0 = Inl out_of_range
   \<and> TriangularMatrix_set \<lparr> n_tri = 3, upper_tri = False, buf_tri = replicate 6 0 \<rparr> 4 1 9
       = Inl out_of_range
   \<and> TriangularMatrix_get \<lparr> n_tri = 3, upper_tri = False, buf_tri = replicate 6 0 \<rparr> 1 0
       = Inl out_of_range
   \<and> TridiagonalMatrix_at \<lparr> n_td = 3, buf_td = replicate 7 0 \<rparr> 4 1 = Inl out_of_range
   \<and> TridiagonalMatrix_get \<lparr> n_td = 3, buf_td = replicate 7 0 \<rparr> 1 0 = Inl out_of_range
   \<and> SetElem (TriSparseMatrix_new 5 6 16) 6 1 9 = (False, TriSparseMatrix_new 5 6 16)
   \<and> GetElem (TriSparseMatrix_new 5 6 16) 0 1 = None
   \<and> SqList_GetElem \<lparr> count_sq = 3, maxSize_sq = 5, elems_sq = [1, 2, 3, 0, 0] \<rparr> 5 = None
   \<and> SqList_Delete \<lparr> count_sq = 3, maxSize_sq = 5, elems_sq = [1, 2, 3, 0, 0] \<rparr> 0
       = (None, \<lparr> count_sq = 3, maxSize_sq = 5, elems_sq = [1, 2, 3, 0, 0] \<rparr>)
   \<and> SqList_Insert \<lparr> count_sq = 3, maxSize_sq = 5, elems_sq = [1, 2, 3, 0, 0] \<rparr> 5 9
       = (False, \<lparr> count_sq = 3, maxSize_sq = 5, elems_sq = [1, 2, 3, 0, 0] \<rparr>)
   \<and> SqList_Insert \<lparr> count_sq = 3, maxSize_sq = 5, elems_sq = [1, 2, 3, 0, 0] \<rparr> 0 9
       = (False, \<lparr> count_sq = 3, maxSize_sq = 5, elems_sq = [1, 2, 3, 0, 0] \<rparr>)
   \<and> SimpleLinkList_GetElem [10, 20, 30] 5 = None
   \<and> SimpleLinkList_Delete [10, 20, 30] 0 = Inr (None, [10, 20, 30])
   \<and> SimpleLinkList_Insert [10, 20, 30] 5 9 = (False, [10, 20, 30])
   \<and> SimpleLinkList_Insert [10, 20, 30] 0 9 = (False, [10, 20, 30])
   \<and> SimpleCircLinkList_SetElem [10, 20, 30] 5 9 = (False, [10, 20, 30])
   \<and> SimpleCircLinkList_Delete [10, 20, 30] 0 = Inr (None, [10, 20, 30])
   \<and> SimpleCircLinkList_Insert [10, 20, 30] 5 9 = (False, [10, 20, 30])
   \<and> SimpleCircLinkList_Insert [10, 20, 30] 0 9 = (False, [10, 20, 30])
   \<and> LinkList_GetElem \<lparr> elems_ll = [10, 20, 30], curPosition = 0, curPtr = Some 0, count_ll = 3 \<rparr> 5
       = (None, \<lparr> elems_ll = [10, 20, 30], curPosition = 0, curPtr = Some 0, count_ll = 3 \<rparr>)
   \<and> LinkList_Delete \<lparr> elems_ll = [10, 20, 30], curPosition = 0, curPtr = Some 0, count_ll = 3 \<rparr> 0
       = Inr (None, \<lparr> elems_ll = [10, 20, 30], curPosition = 0, curPtr = Some 0, count_ll = 3 \<rparr>)
   \<and> LinkList_Insert \<lparr> elems_ll = [10, 20, 30], curPosition = 0, curPtr = Some 0, count_ll = 3 \<rparr> 5 9
       = (False, \<lparr> elems_ll = [10, 20, 30], curPosition = 0, curPtr = Some 0, count_ll = 3 \<rparr>)
   \<and> LinkList_Insert \<lparr> elems_ll = [10, 20, 30], curPosition = 0, curPtr = Some 0, count_ll = 3 \<rparr> 0 9
       = (False, \<lparr> elems_ll = [10, 20, 30], curPosition = 0, curPtr = Some 0, count_ll = 3 \<rparr>)
   \<and> StrLinkList_GetElem ''abc'' 5 = None
   \<and> DblLinkList_GetElem ''abc'' 0 = None
   \<and> DblLinkList_Replace ''abc'' 5 (CHR ''z'') = (False, ''abc'')
   \<and> DblLinkList_Delete ''abc'' 0 = (False, ''abc'')
   \<and> DblLinkList_Insert ''abc'' 5 (CHR ''z'') = (False, ''abc'')
   \<and> DblLinkList_Insert ''abc'' 0 (CHR ''z'') = (False, ''abc'')
   \<and> AdjListGraph_GetElem (AdjListGraph_new [10, 20, 30] False) 3 = None
   \<and> AdjListGraph_SetElem (AdjListGraph_new [10, 20, 30] False) (- 1) 9
       = (False, AdjListGraph_new [10, 20, 30] False)
   \<and> AdjListGraph_InsertEdge (AdjListGraph_new [10, 20, 30] False) 0 3 = Inl out_of_range
   \<and> AdjListGraph_GetTag (AdjListGraph_new [10, 20, 30] False) (- 1) = Inl out_of_range
   \<and> AdjListGraph_FirstAdjVex (AdjListGraph_new [10, 20, 30] False) 3 = - 1
   \<and> AdjListGraph_NextAdjVex (AdjListGraph_new [10, 20, 30] False) 0 (- 1) = - 1
   \<and> AdjListGraph_DeleteEdge (AdjListGraph_new [10, 20, 30] False) 3 0
       = AdjListGraph_new [10, 20, 30] False
   \<and> AdjMatrixUndirNetwork_GetElem (AdjMatrixUndirNetwork_new [10, 20, 30]) 3 = None
   \<and> AdjMatrixUndirNetwork_SetTag (AdjMatrixUndirNetwork_new [10, 20, 30]) (- 1) True
       = (False, AdjMatrixUndirNetwork_new [10, 20, 30])
   \<and> AdjMatrixUndirNetwork_InsertEdge (AdjMatrixUndirNetwork_new [10, 20, 30]) 3 0 5
       = Inl out_of_range
   \<and> AdjMatrixUndirNetwork_GetWeight (AdjMatrixUndirNetwork_new [10, 20, 30]) 0 (- 1)
       = Inl out_of_range
   \<and> AdjMatrixUndirNetwork_SetWeight (AdjMatrixUndirNetwork_new [10, 20, 30]) 0 3 5
       = Inl out_of_range
   \<and> AdjMatrixUndirNetwork_FirstAdjVex (AdjMatrixUndirNetwork_new [10, 20, 30]) (- 1) = - 1
   \<and> AdjMatrixUndirNetwork_DeleteEdge (AdjMatrixUndirNetwork_new [10, 20, 30]) 0 3
       = AdjMatrixUndirNetwork_new [10, 20, 30]
   \<and> CharString_index (CharString_of ''abc'') 7 = Inr 7
   \<and> CharString_index (CharString_of ''abc'') (- 1) = Inr (- 1)
   \<and> DisjointSet_Find (DisjointSet_new 3) 5 = Some (Inl undefined_behaviour)
   \<and> DisjointSet_Union (DisjointSet_new 3) (- 1) 0 = Some (Inl undefined_behaviour)"
proof -
  let ?a = "\<lparr> base = replicate 12 0, dim = 2, bounds = [3, 4], constants = [4, 1], total = 12 \<rparr>"
  let ?mx = "\<lparr> rows_mx = 3, cols_mx = 3, buf_mx = replicate 9 0 \<rparr>"
  let ?sy = "\<lparr> n_sym = 3, buf_sym = replicate 6 0 \<rparr>"
  let ?tr = "\<lparr> n_tri = 3, upper_tri = False, buf_tri = replicate 6 0 \<rparr>"
  let ?td = "\<lparr> n_td = 3, buf_td = replicate 7 0 \<rparr>"
  let ?m = "TriSparseMatrix_new 5 6 16"
  let ?sq = "\<lparr> count_sq = 3, maxSize_sq = 5, elems_sq = [1, 2, 3, 0, 0] \<rparr>"
  let ?ll = "\<lparr> elems_ll = [10, 20, 30], curPosition = 0, curPtr = Some 0, count_ll = 3 \<rparr>"
  let ?g = "AdjListGraph_new [10, 20, 30] False"
  let ?nw = "AdjMatrixUndirNetwork_new [10, 20, 30]"
  let ?ds = "DisjointSet_new 3"
  have a1: "int (length [3, 0 :: int]) = dim ?a" "int (length [- 1, 0 :: int]) = dim ?a"
    by simp_all
  have a2: "\<exists>j<length [3, 0 :: int]. [3, 0 :: int] ! j < 0 \<or> [3, 0] ! j \<ge> bounds ?a ! j"
    by (intro exI[of _ 0]) simp
  have a3: "\<exists>j<length [- 1, 0 :: int]. [- 1, 0 :: int] ! j < 0 \<or> [- 1, 0] ! j \<ge> bounds ?a ! j"
    by (intro exI[of _ 0]) simp
  have sz: "rows ?m = 5" "cols ?m = 6" "vexNum_al ?g = 3" "vexNum_am ?nw = 3"
    "length (parent_ds ?ds) = 3"
    by (simp_all add: TriSparseMatrix_new_def AdjListGraph_new_def AdjMatrixUndirNetwork_new_def
        DisjointSet_new_def)
  note large = C3_indexed_access_bounds[where subs = "[3, 0]" and a = ?a and d = 2
      and i = 4 and j = 1 and mx = ?mx and sy = ?sy and tr = ?tr and td = ?td and v = 9
      and r = 6 and c = 1 and m = ?m and p = 5 and sq = ?sq and L = "[10, 20, 30]" and ll = ?ll
      and xs = "''abc''" and x = "CHR ''z''" and u = 3 and w = 0 and g = ?g and b = True
      and nw = ?nw and wt = 5 and s = "CharString_of ''abc''" and pos = 7
      and k = 5 and ds = ?ds and y = 0]
  note small = C3_indexed_access_bounds[where subs = "[- 1, 0]" and a = ?a and d = "- 1"
      and i = 1 and j = 0 and mx = ?mx and sy = ?sy and tr = ?tr and td = ?td and v = 9
      and r = 0 and c = 1 and m = ?m and p = 0 and sq = ?sq and L = "[10, 20, 30]" and ll = ?ll
      and xs = "''abc''" and x = "CHR ''z''" and u = "- 1" and w = 0 and g = ?g and b = True
      and nw = ?nw and wt = 5 and s = "CharString_of ''abc''" and pos = "- 1"
      and k = "- 1" and ds = ?ds and y = 0]
  from large a1 a2 have l1: "Array_call ?a 3 [0] = Inl out_of_range" by simp
  from small a1 a3 have s1: "Array_call ?a (- 1) [0] = Inl out_of_range" by simp
  from large sz have l2: "Array_Length ?a 2 = Inl out_of_range
    \<and> Matrix_call ?mx 4 1 = Inl out_of_range
    \<and> SymmetricMatrix_call ?sy 4 1 = Inl out_of_range
    \<and> TriangularMatrix_set ?tr 4 1 9 = Inl out_of_range
    \<and> TridiagonalMatrix_at ?td 4 1 = Inl out_of_range
    \<and> SetElem ?m 6 1 9 = (False, ?m)
    \<and> SqList_GetElem ?sq 5 = None
    \<and> SqList_Insert ?sq 5 9 = (False, ?sq)
    \<and> SimpleLinkList_GetElem [10, 20, 30] 5 = None
    \<and> SimpleLinkList_Insert [10, 20, 30] 5 9 = (False, [10, 20, 30])
    \<and> SimpleCircLinkList_SetElem [10, 20, 30] 5 9 = (False, [10, 20, 30])
    \<and> SimpleCircLinkList_Insert [10, 20, 30] 5 9 = (False, [10, 20, 30])
    \<and> LinkList_GetElem ?ll 5 = (None, ?ll)
    \<and> LinkList_Insert ?ll 5 9 = (False, ?ll)
    \<and> StrLinkList_GetElem ''abc'' 5 = None
    \<and> DblLinkList_Replace ''abc'' 5 (CHR ''z'') = (False, ''abc'')
    \<and> DblLinkList_Insert ''abc'' 5 (CHR ''z'') = (False, ''abc'')
    \<and> AdjListGraph_GetElem ?g 3 = None
    \<and> AdjListGraph_InsertEdge ?g 0 3 = Inl out_of_range
    \<and> AdjListGraph_FirstAdjVex ?g 3 = - 1
    \<and> AdjListGraph_DeleteEdge ?g 3 0 = ?g
    \<and> AdjMatrixUndirNetwork_GetElem ?nw 3 = None
    \<and> AdjMatrixUndirNetwork_InsertEdge ?nw 3 0 5 = Inl out_of_range
    \<and> AdjMatrixUndirNetwork_SetWeight ?nw 0 3 5 = Inl out_of_range
    \<and> AdjMatrixUndirNetwork_DeleteEdge ?nw 0 3 = ?nw
    \<and> CharString_index (CharString_of ''abc'') 7 = Inr 7
    \<and> DisjointSet_Find ?ds 5 = Some (Inl undefined_behaviour)"
    by simp
  from small sz have s2: "Array_Length ?a (- 1) = Inl out_of_range
    \<and> Matrix_call ?mx 1 0 = Inl out_of_range
    \<and> SymmetricMatrix_call ?sy 1 0 = Inl out_of_range
    \<and> TriangularMatrix_get ?tr 1 0 = Inl out_of_range
    \<and> TridiagonalMatrix_get ?td 1 0 = Inl out_of_range
    \<and> GetElem ?m 0 1 = None
    \<and> SqList_Delete ?sq 0 = (None, ?sq)
    \<and> SqList_Insert ?sq 0 9 = (False, ?sq)
    \<and> SimpleLinkList_Delete [10, 20, 30] 0 = Inr (None, [10, 20, 30])
    \<and> SimpleLinkList_Insert [10, 20, 30] 0 9 = (False, [10, 20, 30])
    \<and> SimpleCircLinkList_Delete [10, 20, 30] 0 = Inr (None, [10, 20, 30])
    \<and> SimpleCircLinkList_Insert [10, 20, 30] 0 9 = (False, [10, 20, 30])
    \<and> LinkList_Delete ?ll 0 = Inr (None, ?ll)
    \<and> LinkList_Insert ?ll 0 9 = (False, ?ll)
    \<and> DblLinkList_GetElem ''abc'' 0 = None
    \<and> DblLinkList_Delete ''abc'' 0 = (False, ''abc'')
    \<and> DblLinkList_Insert ''abc'' 0 (CHR ''z'') = (False, ''abc'')
    \<and> AdjListGraph_SetElem ?g (- 1) 9 = (False, ?g)
    \<and> AdjListGraph_GetTag ?g (- 1) = Inl out_of_range
    \<and> AdjListGraph_NextAdjVex ?g 0 (- 1) = - 1
    \<and> AdjMatrixUndirNetwork_SetTag ?nw (- 1) True = (False, ?nw)
    \<and> AdjMatrixUndirNetwork_GetWeight ?nw 0 (- 1) = Inl out_of_range
    \<and> AdjMatrixUndirNetwork_FirstAdjVex ?nw (- 1) = - 1
    \<and> CharString_index (CharString_of ''abc'') (- 1) = Inr (- 1)
    \<and> DisjointSet_Union ?ds (- 1) 0 = Some (Inl undefined_behaviour)"
    by simp
  show ?thesis using l1 s1 l2 s2 by simp
qed

section \<open>Correctness of the pattern matchers\<close>

lemma border_trans: 
  assumes "border P k b" "border P b c" shows "border P k c"
proof -
  have "char_at P x = char_at P (k - c + x)" if "0 \<le> x" "x < c" for x
  proof -
    have "char_at P x = char_at P (b - c + x)" using assms(2) that by (simp add: border_def)
    also have "\<dots> = char_at P (k - b + (b - c + x))"
      using assms that by (simp add: border_def)
    finally show ?thesis by (simp add: algebra_simps)
  qed
  then show ?thesis using assms by (simp add: border_def)
qed

lemma border_restrict:
  assumes "border P k b" "border P k c" "c < b" shows "border P b c"
proof -
  have "char_at P x = char_at P (b - c + x)" if "0 \<le> x" "x < c" for x
  proof -
    have "char_at P x = char_at P (k - c + x)" using assms(2) that by (simp add: border_def)
    moreover have "char_at P (b - c + x) = char_at P (k - b + (b - c + x))"
      using assms that by (simp add: border_def)
    ultimately show ?thesis by (simp add: algebra_simps)
  qed
  then show ?thesis using assms by (simp add: border_def)
qed

lemma border_Suc:
  "0 \<le> b \<Longrightarrow> border P (k + 1) (b + 1) \<longleftrightarrow> border P k b \<and> char_at P b = char_at P k"
proof (intro iffI conjI)
  assume b: "0 \<le> b" and h: "border P (k + 1) (b + 1)"
  have *: "char_at P x = char_at P (k - b + x)" if "0 \<le> x" "x < b + 1" for x
    using h that by (simp add: border_def)
  show "border P k b" using h b * by (simp add: border_def)
  show "char_at P b = char_at P k" using *[of b] b by simp
next
  assume b: "0 \<le> b" and h: "border P k b \<and> char_at P b = char_at P k"
  have "char_at P x = char_at P (k - b + x)" if "0 \<le> x" "x < b + 1" for x
  proof (cases "x = b")
    case True then show ?thesis using h by simp
  next
    case False then show ?thesis using h that by (simp add: border_def)
  qed
  then show "border P (k + 1) (b + 1)" using h b by (simp add: border_def)
qed


lemma next_ok_update:
  assumes ok: "next_ok P nxt i" and i: "0 \<le> i" "i < m" and len: "length nxt = nat (m + 1)"
    and b: "border P (i + 1) j'" and mx: "\<forall>b. border P (i + 1) b \<longrightarrow> b \<le> j'"
  shows "next_ok P (nxt[nat (i + 1) := j']) (i + 1)"
proof -
  let ?n = "nxt[nat (i + 1) := j']"
  have l: "nat (i + 1) < length nxt" using i len by simp
  have z: "?n ! 0 = -1" using ok i by (simp add: next_ok_def)
  have old: "?n ! nat k = nxt ! nat k" if "1 \<le> k" "k \<le> i" for k
    using that i by simp
  have new: "?n ! nat (i + 1) = j'" using l by simp
  have "border P k (?n ! nat k) \<and> (\<forall>b. border P k b \<longrightarrow> b \<le> ?n ! nat k)"
    if k: "1 \<le> k" "k \<le> i + 1" for k
  proof (cases "k = i + 1")
    case True
    then show ?thesis using new b mx by simp
  next
    case False
    then have "k \<le> i" using k by simp
    then show ?thesis using old[OF k(1)] ok k(1) by (simp add: next_ok_def)
  qed
  then show ?thesis using z by (simp add: next_ok_def)
qed

lemma KMP_GetNext_loop_correct:
  assumes "m = Length P" "0 \<le> i" "i \<le> m" "-1 \<le> j" "j < i" "length nxt = nat (m + 1)"
    "next_ok P nxt i" "j \<ge> 0 \<longrightarrow> border P i j"
    "i < m \<longrightarrow> (\<forall>b. border P i b \<and> char_at P b = char_at P i \<longrightarrow> b \<le> j)"
  shows "\<exists>nxt'. KMP_GetNext_loop P nxt i j = Some nxt' \<and> length nxt' = nat (m + 1) \<and> next_ok P nxt' m"
  using assms
proof (induction "nat (2 * (m - i) + j + 1)" arbitrary: nxt i j rule: less_induct)
  case less
  note m = \<open>m = Length P\<close>
  show ?case
  proof (cases "i < m")
    case False
    then have "i = m" using less.prems by simp
    then show ?thesis using less.prems by (subst KMP_GetNext_loop.simps) simp
  next
    case im: True
    show ?thesis
    proof (cases "j = -1 \<or> char_at P i = char_at P j")
      case True
      let ?n = "nxt[nat (i + 1) := j + 1]"
      have bj: "border P (i + 1) (j + 1)"
      proof (cases "j = -1")
        case True then show ?thesis using less.prems by (auto simp: border_def)
      next
        case False
        then have "0 \<le> j" "char_at P j = char_at P i" "border P i j" using True less.prems by auto
        then show ?thesis by (simp add: border_Suc)
      qed
      have mx: "\<forall>b. border P (i + 1) b \<longrightarrow> b \<le> j + 1"
      proof (intro allI impI)
        fix b assume b: "border P (i + 1) b"
        show "b \<le> j + 1"
        proof (cases "b = 0")
          case True then show ?thesis using less.prems by simp
        next
          case False
          then have "0 \<le> b - 1" using b by (simp add: border_def)
          then have "border P i (b - 1) \<and> char_at P (b - 1) = char_at P i"
            using border_Suc[of "b - 1" P i] b by simp
          then have "b - 1 \<le> j" using less.prems(9) im by blast
          then show ?thesis by simp
        qed
      qed
      have ok: "next_ok P ?n (i + 1)"
        using next_ok_update[OF less.prems(7) less.prems(2) im less.prems(6) bj mx] .
      have nx: "i + 1 < m \<longrightarrow> (\<forall>b. border P (i + 1) b \<and> char_at P b = char_at P (i + 1) \<longrightarrow> b \<le> j + 1)"
        using mx by blast
      have "\<exists>nxt'. KMP_GetNext_loop P ?n (i + 1) (j + 1) = Some nxt' \<and> length nxt' = nat (m + 1) \<and> next_ok P nxt' m"
        using less.prems im bj ok nx
        by (intro less.hyps) auto
      then show ?thesis using im True m by (subst KMP_GetNext_loop.simps) simp
    next
      case False
      then have j0: "0 \<le> j" and ne: "char_at P i \<noteq> char_at P j" using less.prems by auto
      let ?j = "nxt ! nat j"
      have bij: "border P i j" using j0 less.prems by simp
      have 1: "-1 \<le> ?j \<and> ?j < j \<and> (?j \<ge> 0 \<longrightarrow> border P i ?j)
          \<and> (\<forall>b. border P i b \<and> char_at P b = char_at P i \<longrightarrow> b \<le> ?j)"
      proof (cases "j = 0")
        case True
        then have "?j = -1" using less.prems(7) by (simp add: next_ok_def)
        moreover have "\<not> (border P i b \<and> char_at P b = char_at P i)" for b
        proof
          assume h: "border P i b \<and> char_at P b = char_at P i"
          then have "b \<le> j" using less.prems(9) im by blast
          moreover have "0 \<le> b" using h by (simp add: border_def)
          ultimately have "b = j" using True by simp
          then show False using h ne by simp
        qed
        ultimately show ?thesis using True by auto
      next
        case F: False
        then have k: "1 \<le> j" "j \<le> i" using j0 less.prems by auto
        then have bj: "border P j ?j" and mj: "\<forall>b. border P j b \<longrightarrow> b \<le> ?j"
          using less.prems(7) by (auto simp: next_ok_def)
        have "b \<le> ?j" if h: "border P i b \<and> char_at P b = char_at P i" for b
        proof -
          have "b \<le> j" using less.prems(9) im h by blast
          moreover have "b \<noteq> j" using h ne by auto
          ultimately have "b < j" by simp
          then have "border P j b" using border_restrict[OF bij _ ] h by blast
          then show ?thesis using mj by blast
        qed
        moreover have "border P i ?j" using border_trans[OF bij bj] .
        moreover have "0 \<le> ?j" "?j < j" using bj by (auto simp: border_def)
        ultimately show ?thesis by auto
      qed
      have "\<exists>nxt'. KMP_GetNext_loop P nxt i ?j = Some nxt' \<and> length nxt' = nat (m + 1) \<and> next_ok P nxt' m"
        using less.prems im 1 j0
        by (intro less.hyps) auto
      then show ?thesis using im False m by (subst KMP_GetNext_loop.simps) simp
    qed
  qed
qed

lemma KMP_GetNext_correct:
  assumes "0 \<le> Length P"
  shows "\<exists>nxt. KMP_GetNext P = Some nxt \<and> length nxt = nat (Length P + 1) \<and> next_ok P nxt (Length P)"
proof -
  let ?n0 = "(replicate (nat (Length P + 1)) (0::int))[0 := -1]"
  have "0 < nat (Length P + 1)" using assms by simp
  then have "?n0 ! 0 = -1" by simp
  then have "next_ok P ?n0 0" unfolding next_ok_def by auto
  moreover have "\<not> border P 0 b" for b by (simp add: border_def)
  ultimately show ?thesis
    unfolding KMP_GetNext_def using assms
    by (intro KMP_GetNext_loop_correct) auto
qed


lemma Index_KMP_loop_correct:
  assumes "m = Length P" "0 < m" "n = Length T" "0 \<le> pos" "next_ok P nxt m"
    "-1 \<le> j" "j \<le> m" "pos \<le> i - j" "0 < j \<longrightarrow> i \<le> n" "j = -1 \<longrightarrow> i < n"
    "\<forall>x. 0 \<le> x \<and> x < j \<longrightarrow> char_at T (i - j + x) = char_at P x"
    "\<forall>s. pos \<le> s \<and> s < i - j \<longrightarrow> \<not> tmatch T P s"
  shows "\<exists>r. Index_KMP_loop T P nxt i j = Some r \<and> first_match T P pos r"
  using assms
proof (induction "nat (2 * (n - i) + j + 1)" arbitrary: i j rule: less_induct)
  case less
  note m = \<open>m = Length P\<close> and n = \<open>n = Length T\<close>
  note pm = \<open>\<forall>x. 0 \<le> x \<and> x < j \<longrightarrow> char_at T (i - j + x) = char_at P x\<close>
  note nm = \<open>\<forall>s. pos \<le> s \<and> s < i - j \<longrightarrow> \<not> tmatch T P s\<close>
  show ?case
  proof (cases "i < n \<and> j < m")
    case False
    show ?thesis
    proof (cases "j \<ge> m")
      case True
      then have jm: "j = m" using less.prems by simp
      then have "i \<le> n" using less.prems by simp
      then have "tmatch T P (i - m)"
        using pm jm less.prems(4,8) m n by (simp add: tmatch_def)
      then have "first_match T P pos (i - m)"
        using nm jm less.prems(8) by (simp add: first_match_def)
      then show ?thesis using False True m n by (subst Index_KMP_loop.simps) auto
    next
      case jm: False
      then have ni: "n \<le> i" using False by simp
      have "\<not> tmatch T P s" if "pos \<le> s" for s
      proof (cases "s < i - j")
        case True then show ?thesis using nm that by simp
      next
        case F: False
        then have "s + m > n" using jm ni by simp
        then show ?thesis using m n by (simp add: tmatch_def)
      qed
      then have "first_match T P pos (-1)" by (simp add: first_match_def)
      then show ?thesis using False jm m n by (subst Index_KMP_loop.simps) auto
    qed
  next
    case lp: True
    show ?thesis
    proof (cases "j = -1 \<or> char_at T i = char_at P j")
      case True
      have "\<forall>x. 0 \<le> x \<and> x < j + 1 \<longrightarrow> char_at T (i + 1 - (j + 1) + x) = char_at P x"
      proof (intro allI impI)
        fix x assume x: "0 \<le> x \<and> x < j + 1"
        show "char_at T (i + 1 - (j + 1) + x) = char_at P x"
        proof (cases "x = j")
          case True
          then show ?thesis using \<open>j = -1 \<or> char_at T i = char_at P j\<close> x by auto
        next
          case False
          then show ?thesis using pm x by simp
        qed
      qed
      moreover have "\<forall>s. pos \<le> s \<and> s < i + 1 - (j + 1) \<longrightarrow> \<not> tmatch T P s"
        using nm by simp
      ultimately have "\<exists>r. Index_KMP_loop T P nxt (i + 1) (j + 1) = Some r \<and> first_match T P pos r"
        using less.prems(1-10) lp
        by (intro less.hyps) auto
      then show ?thesis using lp True m n by (subst Index_KMP_loop.simps) simp
    next
      case False
      then have j0: "0 \<le> j" and ne: "char_at T i \<noteq> char_at P j" using less.prems by auto
      let ?j = "nxt ! nat j"
      have no_ij: "\<not> tmatch T P (i - j)"
      proof
        assume "tmatch T P (i - j)"
        then have "char_at T (i - j + j) = char_at P j" using j0 lp m unfolding tmatch_def by blast
        then show False using ne by simp
      qed
      have 1: "-1 \<le> ?j \<and> ?j < j
          \<and> (\<forall>x. 0 \<le> x \<and> x < ?j \<longrightarrow> char_at T (i - ?j + x) = char_at P x)
          \<and> (\<forall>s. pos \<le> s \<and> s < i - ?j \<longrightarrow> \<not> tmatch T P s)"
      proof (cases "j = 0")
        case True
        then have "?j = -1" using less.prems(5) by (simp add: next_ok_def)
        moreover have "\<not> tmatch T P s" if "pos \<le> s \<and> s < i + 1" for s
        proof (cases "s = i")
          case True then show ?thesis using no_ij \<open>j = 0\<close> by simp
        next
          case False then show ?thesis using nm that \<open>j = 0\<close> by simp
        qed
        ultimately show ?thesis using True by auto
      next
        case F: False
        then have k: "1 \<le> j" "j \<le> m" using j0 less.prems by auto
        then have bj: "border P j ?j" and mj: "\<forall>b. border P j b \<longrightarrow> b \<le> ?j"
          using less.prems(5) by (auto simp: next_ok_def)
        have r: "0 \<le> ?j" "?j < j" using bj by (auto simp: border_def)
        have a: "char_at T (i - ?j + x) = char_at P x" if "0 \<le> x \<and> x < ?j" for x
        proof -
          have "char_at P x = char_at P (j - ?j + x)" using bj that by (simp add: border_def)
          also have "\<dots> = char_at T (i - j + (j - ?j + x))"
          proof -
            have "0 \<le> j - ?j + x \<and> j - ?j + x < j" using that r by simp
            from pm[rule_format, OF this] show ?thesis by simp
          qed
          also have "i - j + (j - ?j + x) = i - ?j + x" by simp
          finally show ?thesis by simp
        qed
        have b: "\<not> tmatch T P s" if s: "pos \<le> s \<and> s < i - ?j" for s
        proof (cases "s < i - j")
          case True then show ?thesis using nm s by simp
        next
          case F1: False
          show ?thesis
          proof (cases "s = i - j")
            case True then show ?thesis using no_ij by simp
          next
            case F2: False
            show ?thesis
            proof
              assume tm: "tmatch T P s"
              let ?b = "i - s"
              have bb: "?j < ?b" "?b < j" "0 \<le> ?b" using s F1 F2 r by auto
              have "char_at P x = char_at P (j - ?b + x)" if x: "0 \<le> x \<and> x < ?b" for x
              proof -
                have "char_at P x = char_at T (s + x)"
                  using tm x bb k m unfolding tmatch_def by auto
                also have "\<dots> = char_at T (i - j + (j - ?b + x))" by (simp add: algebra_simps)
                also have "\<dots> = char_at P (j - ?b + x)"
                proof -
                  have "0 \<le> j - ?b + x \<and> j - ?b + x < j" using x bb by simp
                  from pm[rule_format, OF this] show ?thesis .
                qed
                finally show ?thesis .
              qed
              then have "border P j ?b" using bb by (simp add: border_def)
              then show False using mj bb by auto
            qed
          qed
        qed
        show ?thesis using r a b by auto
      qed
      have "\<exists>r. Index_KMP_loop T P nxt i ?j = Some r \<and> first_match T P pos r"
        using less.prems(1-10) lp 1 j0
        by (intro less.hyps) auto
      then show ?thesis using lp False m n by (subst Index_KMP_loop.simps) simp
    qed
  qed
qed

lemma Index_KMP_first_match:
  assumes "0 \<le> Length P" "0 \<le> pos"
  shows "\<exists>r. Index_KMP T P pos = Some r \<and> (pos \<le> Length T \<or> Length P \<noteq> 0 \<longrightarrow> first_match T P pos r)"
proof (cases "Length P = 0")
  case True
  have "tmatch T P pos" if "pos \<le> Length T" using True assms that by (auto simp: tmatch_def)
  then show ?thesis using True by (auto simp: Index_KMP_def first_match_def)
next
  case False
  then have m: "0 < Length P" using assms by simp
  obtain nxt where nxt: "KMP_GetNext P = Some nxt" "next_ok P nxt (Length P)"
    using KMP_GetNext_correct[OF assms(1)] by blast
  have "\<exists>r. Index_KMP_loop T P nxt pos 0 = Some r \<and> first_match T P pos r"
    using m assms(2) nxt(2)
    by (intro Index_KMP_loop_correct[where m = "Length P" and n = "Length T"]) auto
  then show ?thesis using False nxt by (simp add: Index_KMP_def)
qed


lemma Index_KMP_returns:
  "0 \<le> Length P \<Longrightarrow> 0 \<le> pos \<Longrightarrow> \<exists>r. Index_KMP T P pos = Some r"
  using Index_KMP_first_match[of P pos T] by blast

lemma first_match_unique:
  assumes "0 \<le> pos" "first_match T P pos r" "first_match T P pos r'"
  shows "r = r'"
proof -
  have "r \<le> r'" if "first_match T P pos r" "first_match T P pos r'" for r r'
  proof (rule ccontr)
    assume "\<not> r \<le> r'"
    then have lt: "r' < r" by simp
    from that(1) consider "r = -1" "\<forall>s\<ge>pos. \<not> tmatch T P s"
      | "pos \<le> r" "tmatch T P r" "\<forall>s. pos \<le> s \<and> s < r \<longrightarrow> \<not> tmatch T P s"
      unfolding first_match_def by blast
    then show False
    proof cases
      case 1
      then show ?thesis using that(2) lt assms(1) unfolding first_match_def by auto
    next
      case A: 2
      from that(2) consider "r' = -1" "\<forall>s\<ge>pos. \<not> tmatch T P s"
        | "pos \<le> r'" "tmatch T P r'"
        unfolding first_match_def by blast
      then show ?thesis
      proof cases
        case 1 then show ?thesis using A by blast
      next
        case B: 2 then show ?thesis using A lt by blast
      qed
    qed
  qed
  from this[OF assms(2,3)] this[OF assms(3,2)] show ?thesis by simp
qed

lemma SimpleIndex_loop_correct:
  assumes "m = Length P" "0 < m" "n = Length T" "0 \<le> pos"
    "0 \<le> j" "j \<le> m" "i = startPos + j" "pos \<le> startPos" "0 < j \<longrightarrow> i \<le> n"
    "\<forall>x. 0 \<le> x \<and> x < j \<longrightarrow> char_at T (startPos + x) = char_at P x"
    "\<forall>s. pos \<le> s \<and> s < startPos \<longrightarrow> \<not> tmatch T P s"
  shows "first_match T P pos (SimpleIndex_loop T P startPos i j)"
  using assms
proof (induction T P startPos i j rule: SimpleIndex_loop.induct)
  case (1 T P startPos i j)
  note m = \<open>m = Length P\<close> and n = \<open>n = Length T\<close>
  note pm = \<open>\<forall>x. 0 \<le> x \<and> x < j \<longrightarrow> char_at T (startPos + x) = char_at P x\<close>
  note nm = \<open>\<forall>s. pos \<le> s \<and> s < startPos \<longrightarrow> \<not> tmatch T P s\<close>
  show ?case
  proof (cases "i < Length T \<and> j < Length P")
    case False
    show ?thesis
    proof (cases "j \<ge> m")
      case True
      then have jm: "j = m" using "1.prems" by simp
      then have "i \<le> n" using "1.prems" by simp
      then have "tmatch T P startPos"
        using pm jm "1.prems"(4,7,8) m n by (simp add: tmatch_def)
      then have "first_match T P pos startPos"
        using nm "1.prems"(8) by (simp add: first_match_def)
      then show ?thesis using False True m n by (subst SimpleIndex_loop.simps) auto
    next
      case jm: False
      then have ni: "n \<le> i" using False m n by simp
      have "\<not> tmatch T P s" if "pos \<le> s" for s
      proof (cases "s < startPos")
        case True then show ?thesis using nm that by simp
      next
        case F: False
        then have "s + m > n" using jm ni "1.prems"(7) by simp
        then show ?thesis using m n by (simp add: tmatch_def)
      qed
      then have "first_match T P pos (-1)" by (simp add: first_match_def)
      then show ?thesis using False jm m n by (subst SimpleIndex_loop.simps) auto
    qed
  next
    case lp: True
    show ?thesis
    proof (cases "char_at T i = char_at P j")
      case True
      have "\<forall>x. 0 \<le> x \<and> x < j + 1 \<longrightarrow> char_at T (startPos + x) = char_at P x"
      proof (intro allI impI)
        fix x assume x: "0 \<le> x \<and> x < j + 1"
        show "char_at T (startPos + x) = char_at P x"
        proof (cases "x = j")
          case T2: True
          then show ?thesis using True "1.prems"(7) by simp
        next
          case False
          then show ?thesis using pm x by simp
        qed
      qed
      then have "first_match T P pos (SimpleIndex_loop T P startPos (i + 1) (j + 1))"
        using "1.prems"(1-9) lp nm m n
        by (intro "1.IH"(1)[OF lp True]) auto
      then show ?thesis using lp True by (subst SimpleIndex_loop.simps) simp
    next
      case False
      have "\<not> tmatch T P startPos"
      proof
        assume "tmatch T P startPos"
        then have "char_at T (startPos + j) = char_at P j"
          using "1.prems"(5) lp unfolding tmatch_def by blast
        then show False using False "1.prems"(7) by simp
      qed
      then have "\<forall>s. pos \<le> s \<and> s < startPos + 1 \<longrightarrow> \<not> tmatch T P s"
        using nm by (metis zless_add1_eq)
      then have "first_match T P pos (SimpleIndex_loop T P (startPos + 1) (startPos + 1) 0)"
        using "1.prems"(1-9) lp m n
        by (intro "1.IH"(2)[OF lp False]) auto
      then show ?thesis using lp False by (subst SimpleIndex_loop.simps) simp
    qed
  qed
qed

lemma SimpleIndex_first_match:
  assumes "0 < Length P" "0 \<le> pos"
  shows "first_match T P pos (SimpleIndex T P pos)"
  unfolding SimpleIndex_def using assms
  by (intro SimpleIndex_loop_correct[where m = "Length P" and n = "Length T"]) auto

lemma SimpleIndex_empty_pattern: "Length P = 0 \<Longrightarrow> SimpleIndex T P pos = pos"
  unfolding SimpleIndex_def by (subst SimpleIndex_loop.simps) simp

lemma KMP_eq_Simple:
  assumes "0 \<le> Length P" "0 \<le> pos"
  shows "Index_KMP T P pos = Some (SimpleIndex T P pos)"
proof (cases "Length P = 0")
  case True
  then show ?thesis by (simp add: SimpleIndex_empty_pattern Index_KMP_def)
next
  case False
  then have m: "0 < Length P" using assms by simp
  obtain r where r: "Index_KMP T P pos = Some r" "first_match T P pos r"
    using Index_KMP_first_match[OF assms, of T] False by blast
  have "r = SimpleIndex T P pos"
    using first_match_unique[OF assms(2) r(2) SimpleIndex_first_match[OF m assms(2)]] .
  then show ?thesis using r by simp
qed


lemma length_chars: "wf_CharString s \<Longrightarrow> length (chars s) = nat (Length s)"
  by (simp add: wf_CharString_def chars_def Length_def)

lemma chars_nth: "0 \<le> x \<Longrightarrow> x < Length s \<Longrightarrow> chars s ! nat x = char_at s x"
  by (simp add: chars_def char_at_def Length_def)

lemma tmatch_occurs_at:
  assumes "wf_CharString T" "wf_CharString P" "0 \<le> s"
  shows "tmatch T P s \<longleftrightarrow> occurs_at (chars T) (chars P) (nat s)"
proof -
  have lT: "length (chars T) = nat (Length T)" and lP: "length (chars P) = nat (Length P)"
    using assms by (simp_all add: length_chars)
  have nT: "0 \<le> Length T" and nP: "0 \<le> Length P"
    using assms by (simp_all add: wf_CharString_def Length_def)
  show ?thesis
  proof (cases "s + Length P \<le> Length T")
    case False
    then have "\<not> nat s + length (chars P) \<le> length (chars T)"
      using lT lP nT nP assms(3) by simp
    then show ?thesis using False by (simp add: tmatch_def occurs_at_def)
  next
    case True
    then have le: "nat s + length (chars P) \<le> length (chars T)"
      using lT lP nP assms(3) by simp
    have "(\<forall>x. 0 \<le> x \<and> x < Length P \<longrightarrow> char_at T (s + x) = char_at P x)
        \<longleftrightarrow> take (length (chars P)) (drop (nat s) (chars T)) = chars P" (is "?L \<longleftrightarrow> ?R")
    proof
      assume L: ?L
      show ?R
      proof (rule nth_equalityI)
        show "length (take (length (chars P)) (drop (nat s) (chars T))) = length (chars P)"
          using le by simp
      next
        fix k assume "k < length (take (length (chars P)) (drop (nat s) (chars T)))"
        then have k: "k < length (chars P)" by simp
        then have kk: "0 \<le> int k \<and> int k < Length P" using lP by simp
        have "take (length (chars P)) (drop (nat s) (chars T)) ! k = chars T ! (nat s + k)"
          using k le by simp
        also have "nat s + k = nat (s + int k)" using assms(3) by (simp add: nat_add_distrib)
        also have "chars T ! nat (s + int k) = char_at T (s + int k)"
          using kk True assms(3) by (intro chars_nth) auto
        also have "\<dots> = char_at P (int k)" using L kk by blast
        also have "\<dots> = chars P ! nat (int k)" using kk by (intro chars_nth[symmetric]) auto
        finally show "take (length (chars P)) (drop (nat s) (chars T)) ! k = chars P ! k" by simp
      qed
    next
      assume R: ?R
      show ?L
      proof (intro allI impI)
        fix x assume x: "0 \<le> x \<and> x < Length P"
        then have k: "nat x < length (chars P)" using lP by simp
        have "char_at P x = chars P ! nat x" using x by (simp add: chars_nth)
        also have "\<dots> = take (length (chars P)) (drop (nat s) (chars T)) ! nat x" using R by simp
        also have "\<dots> = chars T ! (nat s + nat x)" using k le by simp
        also have "nat s + nat x = nat (s + x)" using assms(3) x by (simp add: nat_add_distrib)
        also have "chars T ! nat (s + x) = char_at T (s + x)"
          using x True assms(3) by (intro chars_nth) auto
        finally show "char_at T (s + x) = char_at P x" by simp
      qed
    qed
    then show ?thesis using True le assms(3) by (simp add: tmatch_def occurs_at_def)
  qed
qed

text \<open>
  C2: for well-formed strings \<open>T\<close> and \<open>P\<close>, \<open>Index_KMP(T, P, 0)\<close> returns, and
  its value is the least index at which \<open>P\<close> occurs in \<open>T\<close>, or \<open>-1\<close> when \<open>P\<close>
  occurs nowhere; for the empty pattern it is 0.
\<close>

theorem C2_Index_KMP_least_occurrence:
  assumes "wf_CharString T" "wf_CharString P"
  shows "\<exists>r. Index_KMP T P 0 = Some r \<and>
           (if \<exists>i. occurs_at (chars T) (chars P) i
            then 0 \<le> r \<and> occurs_at (chars T) (chars P) (nat r)
                 \<and> (\<forall>i<nat r. \<not> occurs_at (chars T) (chars P) i)
            else r = -1)
           \<and> (chars P = [] \<longrightarrow> r = 0)"
proof -
  have nT: "0 \<le> Length T" and nP: "0 \<le> Length P"
    using assms by (simp_all add: wf_CharString_def Length_def)
  obtain r where r: "Index_KMP T P 0 = Some r" "first_match T P 0 r"
    using Index_KMP_first_match[of P 0 T] nT nP by auto
  have occ: "tmatch T P s \<longleftrightarrow> occurs_at (chars T) (chars P) (nat s)" if "0 \<le> s" for s
    using tmatch_occurs_at[OF assms that] .
  have e: "r = 0" if "chars P = []"
  proof -
    have "Length P = 0" using that length_chars[OF assms(2)] nP by simp
    then show ?thesis using r(1) by (simp add: Index_KMP_def)
  qed
  from r(2) consider "r = -1" "\<forall>s\<ge>0. \<not> tmatch T P s"
    | "0 \<le> r" "tmatch T P r" "\<forall>s. 0 \<le> s \<and> s < r \<longrightarrow> \<not> tmatch T P s"
    unfolding first_match_def by blast
  then show ?thesis
  proof cases
    case 1
    have "\<not> occurs_at (chars T) (chars P) i" for i
      using 1(2) occ[of "int i"] by simp
    then show ?thesis using r(1) 1(1) e by auto
  next
    case 2
    have a: "occurs_at (chars T) (chars P) (nat r)" using 2 occ by simp
    have b: "\<not> occurs_at (chars T) (chars P) i" if "i < nat r" for i
      using 2(3) occ[of "int i"] that by simp
    show ?thesis using r(1) 2(1) a b e by auto
  qed
qed

lemma wf_CharString_of: "wf_CharString (CharString_of src)"
proof -
  have "NUL \<notin> set (takeWhile (\<lambda>c. c \<noteq> NUL) src)"
    by (auto dest: set_takeWhileD)
  then show ?thesis
    by (simp add: wf_CharString_def CharString_of_def strlen_def nth_append)
qed

text \<open>The theorem at the text \<open>aabaab\<close> and the pattern \<open>ab\<close>: the result is 1.\<close>

theorem C2_Index_KMP_least_occurrence_witness:
  "wf_CharString (CharString_of ''aabaab'') \<and> wf_CharString (CharString_of ''ab'')
   \<and> (\<exists>r. Index_KMP (CharString_of ''aabaab'') (CharString_of ''ab'') 0 = Some r \<and>
           (if \<exists>i. occurs_at (chars (CharString_of ''aabaab'')) (chars (CharString_of ''ab'')) i
            then 0 \<le> r \<and> occurs_at (chars (CharString_of ''aabaab'')) (chars (CharString_of ''ab'')) (nat r)
                 \<and> (\<forall>i<nat r. \<not> occurs_at (chars (CharString_of ''aabaab'')) (chars (CharString_of ''ab'')) i)
            else r = -1)
           \<and> (chars (CharString_of ''ab'') = [] \<longrightarrow> r = 0))
   \<and> Index_KMP (CharString_of ''aabaab'') (CharString_of ''ab'') 0 = Some 1"
proof -
  have h1: "wf_CharString (CharString_of ''aabaab'')" by (rule wf_CharString_of)
  have h2: "wf_CharString (CharString_of ''ab'')" by (rule wf_CharString_of)
  have v: "Index_KMP (CharString_of ''aabaab'') (CharString_of ''ab'') 0 = Some 1" by code_simp
  show ?thesis using C2_Index_KMP_least_occurrence[OF h1 h2] h1 h2 v by blast
qed

text \<open>
  C8: for well-formed strings and every start position \<open>pos \<ge> 0\<close>,
  \<open>Index_KMP(T, P, pos)\<close> returns, and returns what \<open>SimpleIndex(T, P, pos)\<close>
  returns.
\<close>

theorem C8_SimpleIndex_eq_Index_KMP:
  assumes "wf_CharString T" "wf_CharString P" "0 \<le> pos"
  shows "Index_KMP T P pos = Some (SimpleIndex T P pos)"
proof -
  have "0 \<le> Length P" using assms(2) by (simp add: wf_CharString_def Length_def)
  then show ?thesis using assms(3) by (rule KMP_eq_Simple)
qed

text \<open>The theorem at \<open>aabaab\<close>, \<open>ab\<close> and start position 2: both return 4.\<close>

theorem C8_SimpleIndex_eq_Index_KMP_witness:
  "wf_CharString (CharString_of ''aabaab'') \<and> wf_CharString (CharString_of ''ab'') \<and> (0::int) \<le> 2
   \<and> Index_KMP (CharString_of ''aabaab'') (CharString_of ''ab'') 2
       = Some (SimpleIndex (CharString_of ''aabaab'') (CharString_of ''ab'') 2)
   \<and> SimpleIndex (CharString_of ''aabaab'') (CharString_of ''ab'') 2 = 4"
proof -
  have h1: "wf_CharString (CharString_of ''aabaab'')" by (rule wf_CharString_of)
  have h2: "wf_CharString (CharString_of ''ab'')" by (rule wf_CharString_of)
  have h3: "(0::int) \<le> 2" by simp
  have v: "SimpleIndex (CharString_of ''aabaab'') (CharString_of ''ab'') 2 = 4" by code_simp
  show ?thesis using C8_SimpleIndex_eq_Index_KMP[OF h1 h2 h3] h1 h2 v by simp
qed

section \<open>The cursor of the line editor\<close>

lemma FindString_loop_range:
  "FindString_loop buf pat i n = Some (Some k) \<Longrightarrow> i \<le> k \<and> k \<le> n"
proof (induction buf pat i n rule: FindString_loop.induct)
  case (1 buf pat i n)
  show ?case
  proof (cases "i \<le> n")
    case False
    then show ?thesis using "1.prems" by (subst (asm) FindString_loop.simps) simp
  next
    case True
    let ?line = "case DblLinkList_GetElem buf i of None \<Rightarrow> CharString_of [] | Some l \<Rightarrow> l"
    from "1.prems" True obtain r where r: "Index_KMP ?line pat 0 = Some r"
      by (subst (asm) FindString_loop.simps) (auto split: option.splits)
    show ?thesis
    proof (cases "r \<noteq> -1")
      case T: True
      then have "k = i" using "1.prems" True r
        by (subst (asm) FindString_loop.simps) simp
      then show ?thesis using True by simp
    next
      case False
      then have "FindString_loop buf pat (i + 1) n = Some (Some k)"
        using "1.prems" True r by (subst (asm) FindString_loop.simps) simp
      then have "i + 1 \<le> k \<and> k \<le> n" using "1.IH"[OF True refl r] False by simp
      then show ?thesis by simp
    qed
  qed
qed

lemma ReadFile_loop_length:
  "ReadFile_loop buf ls cnt = (buf', cnt') \<Longrightarrow>
   int (length buf') = int (length buf) + int (length ls) \<and> cnt' = cnt + int (length ls)"
  by (induction buf ls cnt rule: ReadFile_loop.induct)
     (auto simp: DblLinkList_Insert_def DblLinkList_Length_def)

lemma NextLine_cursor_ok: "cursor_ok e \<Longrightarrow> cursor_ok (snd (NextLine e))"
  by (auto simp: NextLine_def cursor_ok_def)

lemma PreviousLine_cursor_ok: "cursor_ok e \<Longrightarrow> cursor_ok (snd (PreviousLine e))"
  by (auto simp: PreviousLine_def cursor_ok_def)

lemma GotoLine_cursor_ok: "cursor_ok e \<Longrightarrow> cursor_ok (snd (GotoLine e inp))"
  by (auto simp: GotoLine_def cursor_ok_def Let_def)

lemma InsertLine_cursor_ok: "cursor_ok e \<Longrightarrow> cursor_ok (snd (InsertLine e inp))"
  by (auto simp: InsertLine_def DblLinkList_Insert_def cursor_ok_def DblLinkList_Length_def Let_def)

lemma ChangeLine_cursor_ok:
  assumes "cursor_ok e" "ChangeLine e inp = Some (b, e')"
  shows "cursor_ok e'"
proof -
  have "curLineNo e' = curLineNo e \<and> length (textBuffer e') = length (textBuffer e)"
    using assms(2)
    by (auto simp: ChangeLine_def DblLinkList_Replace_def Let_def split: if_splits option.splits)
  then show ?thesis using assms(1) by (simp add: cursor_ok_def DblLinkList_Length_def)
qed

lemma FindString_cursor_ok:
  assumes "cursor_ok e" "FindString e inp = Some e'"
  shows "cursor_ok e'"
proof (cases "curLineNo e = 0 \<or> Length (Read (cin_line1 inp)) = 0")
  case True
  then have "FindString e inp = Some e" by (auto simp: FindString_def Let_def)
  then have "e' = e" using assms(2) by simp
  then show ?thesis using assms(1) by simp
next
  case False
  let ?r = "FindString_loop (textBuffer e) (Read (cin_line1 inp)) (curLineNo e)
      (DblLinkList_Length (textBuffer e))"
  have eq: "FindString e inp = (case ?r of None \<Rightarrow> None | Some None \<Rightarrow> Some e
      | Some (Some i) \<Rightarrow> Some (e\<lparr> curLineNo := i \<rparr>))"
    using False by (simp add: FindString_def Let_def)
  show ?thesis
  proof (cases ?r)
    case None
    then show ?thesis using eq assms(2) by simp
  next
    case (Some a)
    show ?thesis
    proof (cases a)
      case None
      then have "e' = e" using eq Some assms(2) by simp
      then show ?thesis using assms(1) by simp
    next
      case (Some i)
      then have e': "e' = e\<lparr> curLineNo := i \<rparr>" using eq \<open>?r = Some a\<close> assms(2) by simp
      have "curLineNo e \<le> i \<and> i \<le> DblLinkList_Length (textBuffer e)"
        using FindString_loop_range[of "textBuffer e" _ "curLineNo e" _ i] Some \<open>?r = Some a\<close> by simp
      then show ?thesis using e' assms(1) False by (auto simp: cursor_ok_def)
    qed
  qed
qed

lemma Delete_cursor_ok:
  assumes "cursor_ok e" "userCommand e = CHR ''d''" "RunCommand e inp = Some e'"
  shows "cursor_ok e'"
proof (cases "curLineNo e < 1 \<or> curLineNo e > DblLinkList_Length (textBuffer e)")
  case True
  then have "e' = e" using assms(2,3) by (simp add: RunCommand_def DblLinkList_Delete_def)
  then show ?thesis using assms(1) by simp
next
  case False
  let ?buf = "take (nat (curLineNo e - 1)) (textBuffer e) @ drop (nat (curLineNo e)) (textBuffer e)"
  have d: "DblLinkList_Delete (textBuffer e) (curLineNo e) = (True, ?buf)"
    using False by (simp add: DblLinkList_Delete_def)
  have len: "DblLinkList_Length ?buf = DblLinkList_Length (textBuffer e) - 1"
    using False by (auto simp: DblLinkList_Length_def)
  show ?thesis
  proof (cases "DblLinkList_Length ?buf = 0")
    case True
    then have "e' = e\<lparr> textBuffer := ?buf, curLineNo := 0 \<rparr>"
      using assms(2,3) d by (simp add: RunCommand_def Let_def)
    then show ?thesis using True by (simp add: cursor_ok_def)
  next
    case nz: False
    show ?thesis
    proof (cases "curLineNo e > DblLinkList_Length ?buf")
      case True
      then have "e' = e\<lparr> textBuffer := ?buf, curLineNo := DblLinkList_Length ?buf \<rparr>"
        using assms(2,3) d nz by (simp add: RunCommand_def Let_def)
      then show ?thesis using nz len False by (simp add: cursor_ok_def DblLinkList_Length_def)
    next
      case F2: False
      then have "e' = e\<lparr> textBuffer := ?buf \<rparr>"
        using assms(2,3) d nz by (simp add: RunCommand_def Let_def)
      then show ?thesis using nz len False F2 by (simp add: cursor_ok_def)
    qed
  qed
qed

lemma ReadFile_cursor_ok:
  assumes "cursor_ok e"
    and "\<not> (UserSaysYes inp \<and> infile e = None \<and> textBuffer e \<noteq> [])"
  shows "cursor_ok (ReadFile e inp)"
proof (cases "UserSaysYes inp")
  case False
  then show ?thesis using assms(1) by (simp add: ReadFile_def)
next
  case yes: True
  show ?thesis
  proof (cases "infile e")
    case None
    then have "textBuffer e = []" using assms(2) yes by simp
    then have "ReadFile e inp = e" using yes None by (simp add: ReadFile_def)
    then show ?thesis using assms(1) by simp
  next
    case (Some ls)
    obtain buf cnt where l: "ReadFile_loop [] ls 0 = (buf, cnt)" by force
    from ReadFile_loop_length[OF l] have "int (length buf) = int (length ls)" "cnt = int (length ls)"
      by simp_all
    moreover have "ReadFile e inp = e\<lparr> textBuffer := buf, curLineNo := (if cnt > 0 then 1 else 0) \<rparr>"
      using yes Some l by (simp add: ReadFile_def)
    ultimately show ?thesis
      by (cases ls) (auto simp: cursor_ok_def DblLinkList_Length_def)
  qed
qed

lemma RunCommand_cursor_ok:
  assumes "cursor_ok e" "RunCommand e inp = Some e'"
    and "\<not> (userCommand e = CHR ''r'' \<and> UserSaysYes inp \<and> infile e = None \<and> textBuffer e \<noteq> [])"
  shows "cursor_ok e'"
proof -
  let ?c = "userCommand e"
  consider "?c = CHR ''b''" | "?c = CHR ''c''" | "?c = CHR ''d''" | "?c = CHR ''e''" | "?c = CHR ''f''"
    | "?c = CHR ''g''" | "?c = CHR ''i''" | "?c = CHR ''n''" | "?c = CHR ''p''" | "?c = CHR ''r''"
    | "?c \<noteq> CHR ''b''" "?c \<noteq> CHR ''c''" "?c \<noteq> CHR ''d''" "?c \<noteq> CHR ''e''" "?c \<noteq> CHR ''f''"
      "?c \<noteq> CHR ''g''" "?c \<noteq> CHR ''i''" "?c \<noteq> CHR ''n''" "?c \<noteq> CHR ''p''" "?c \<noteq> CHR ''r''"
    by blast
  then show ?thesis
  proof cases
    case 1
    then have "e' = e \<or> (textBuffer e \<noteq> [] \<and> e' = e\<lparr> curLineNo := 1 \<rparr>)"
      using assms(2)
      by (auto simp: RunCommand_def DblLinkList_Empty_def DblLinkList_Length_def split: if_splits)
    then show ?thesis using assms(1) by (auto simp: cursor_ok_def DblLinkList_Length_def)
  next
    case 2
    then have "e' = e \<or> (\<exists>b. ChangeLine e inp = Some (b, e'))"
      using assms(2) by (auto simp: RunCommand_def split: if_splits)
    then show ?thesis using assms(1) ChangeLine_cursor_ok by blast
  next
    case 3
    show ?thesis using assms(1) 3 assms(2) by (rule Delete_cursor_ok)
  next
    case 4
    then have "e' = e \<or> (textBuffer e \<noteq> [] \<and> e' = e\<lparr> curLineNo := DblLinkList_Length (textBuffer e) \<rparr>)"
      using assms(2)
      by (auto simp: RunCommand_def DblLinkList_Empty_def DblLinkList_Length_def split: if_splits)
    then show ?thesis using assms(1) by (auto simp: cursor_ok_def DblLinkList_Length_def)
  next
    case 5
    then have "e' = e \<or> FindString e inp = Some e'"
      using assms(2) by (auto simp: RunCommand_def split: if_splits)
    then show ?thesis using assms(1) FindString_cursor_ok by blast
  next
    case 6
    then have "e' = snd (GotoLine e inp)" using assms(2) by (simp add: RunCommand_def)
    then show ?thesis using assms(1) GotoLine_cursor_ok by simp
  next
    case 7
    then have "e' = snd (InsertLine e inp)" using assms(2) by (simp add: RunCommand_def)
    then show ?thesis using assms(1) InsertLine_cursor_ok by simp
  next
    case 8
    then have "e' = snd (NextLine e)" using assms(2) by (simp add: RunCommand_def)
    then show ?thesis using assms(1) NextLine_cursor_ok by simp
  next
    case 9
    then have "e' = snd (PreviousLine e)" using assms(2) by (simp add: RunCommand_def)
    then show ?thesis using assms(1) PreviousLine_cursor_ok by simp
  next
    case 10
    then have "e' = ReadFile e inp" using assms(2) by (simp add: RunCommand_def)
    then show ?thesis using assms(1,3) 10 ReadFile_cursor_ok by simp
  next
    case 11
    then have "e' = e" using assms(2) by (simp add: RunCommand_def)
    then show ?thesis using assms(1) by simp
  qed
qed

lemma str_find_Some:
  "str_find s t pos = Some p \<Longrightarrow> pos \<le> p \<and> p + length t \<le> length s"
proof (induction s t pos rule: str_find.induct)
  case (1 s t pos)
  show ?case
  proof (cases "pos + length t > length s")
    case True
    then show ?thesis using "1.prems" by (subst (asm) str_find.simps) simp
  next
    case False
    show ?thesis
    proof (cases "take (length t) (drop pos s) = t")
      case True
      then show ?thesis using "1.prems" False by (subst (asm) str_find.simps) simp
    next
      case F2: False
      then have "str_find s t (pos + 1) = Some p"
        using "1.prems" False by (subst (asm) str_find.simps) simp
      then have "pos + 1 \<le> p \<and> p + length t \<le> length s" using "1.IH"[OF False F2] by simp
      then show ?thesis by simp
    qed
  qed
qed

lemma ChangeLine_loop_returns:
  assumes "t \<noteq> []"
  shows "\<exists>res. ChangeLine_loop s t r pos cnt = Some res"
proof (induction "length s - pos" arbitrary: s pos cnt rule: less_induct)
  case less
  show ?case
  proof (cases "str_find s t pos")
    case None
    then show ?thesis by (subst ChangeLine_loop.simps) simp
  next
    case (Some p)
    from str_find_Some[OF Some] have p: "pos \<le> p" "p + length t \<le> length s" by simp_all
    obtain k where "length t = Suc k" using assms by (cases t) auto
    then have "length (take p s @ r @ drop (p + length t) s) - (p + length r) < length s - pos"
      using p by simp
    from less.hyps[OF this]
    obtain res where "ChangeLine_loop (take p s @ r @ drop (p + length t) s) t r (p + length r) (cnt + 1) = Some res"
      by blast
    then show ?thesis using Some by (subst ChangeLine_loop.simps) simp
  qed
qed

lemma FindString_loop_returns:
  assumes "0 \<le> Length pat"
  shows "\<exists>res. FindString_loop buf pat i n = Some res"
  using assms
proof (induction buf pat i n rule: FindString_loop.induct)
  case (1 buf pat i n)
  show ?case
  proof (cases "i \<le> n")
    case False
    then show ?thesis by (subst FindString_loop.simps) simp
  next
    case True
    let ?line = "case DblLinkList_GetElem buf i of None \<Rightarrow> CharString_of [] | Some l \<Rightarrow> l"
    have "\<exists>r. Index_KMP ?line pat 0 = Some r"
      by (rule Index_KMP_returns[OF "1.prems" order_refl])
    then obtain r where r: "Index_KMP ?line pat 0 = Some r" ..
    show ?thesis
    proof (cases "r \<noteq> -1")
      case T: True
      then show ?thesis using True r by (subst FindString_loop.simps) simp
    next
      case False
      then obtain res where "FindString_loop buf pat (i + 1) n = Some res"
        using "1.IH"[OF True refl r] "1.prems" by auto
      then show ?thesis using True r False by (subst FindString_loop.simps) simp
    qed
  qed
qed

lemma RunCommand_returns: "\<exists>e'. RunCommand e inp = Some e'"
proof -
  have cl: "\<exists>x. ChangeLine e inp = Some x"
  proof (cases "curLineNo e = 0")
    case True
    then show ?thesis by (auto simp: ChangeLine_def)
  next
    case False
    show ?thesis
    proof (cases "DblLinkList_GetElem (textBuffer e) (curLineNo e)")
      case None
      then show ?thesis using False by (auto simp: ChangeLine_def)
    next
      case (Some line)
      show ?thesis
      proof (cases "chars (Read (cin_line1 inp)) = []")
        case True
        then show ?thesis using False Some by (auto simp: ChangeLine_def Let_def)
      next
        case F2: False
        obtain s' k where "ChangeLine_loop (chars line) (chars (Read (cin_line1 inp)))
            (chars (Read (cin_line2 inp))) 0 0 = Some (s', k)"
          using ChangeLine_loop_returns[OF F2] by fastforce
        then show ?thesis using False Some F2 by (auto simp: ChangeLine_def Let_def)
      qed
    qed
  qed
  have fs: "\<exists>x. FindString e inp = Some x"
  proof (cases "curLineNo e = 0 \<or> Length (Read (cin_line1 inp)) = 0")
    case True
    then show ?thesis by (auto simp: FindString_def Let_def)
  next
    case False
    have "0 \<le> Length (Read (cin_line1 inp))"
      using wf_CharString_of by (simp add: Read_def wf_CharString_def Length_def)
    from FindString_loop_returns[OF this]
    obtain res where "FindString_loop (textBuffer e) (Read (cin_line1 inp)) (curLineNo e)
        (DblLinkList_Length (textBuffer e)) = Some res" by blast
    then show ?thesis using False by (cases res) (simp_all add: FindString_def Let_def)
  qed
  show ?thesis
  proof (cases "userCommand e = CHR ''c''")
    case True
    then show ?thesis using cl by (auto simp: RunCommand_def)
  next
    case False
    show ?thesis
    proof (cases "userCommand e = CHR ''f''")
      case True
      then show ?thesis using fs by (auto simp: RunCommand_def)
    next
      case F2: False
      then show ?thesis using False
        by (simp add: RunCommand_def Let_def split: prod.splits bool.splits)
    qed
  qed
qed

lemma RunCommand_keeps_cursor:
  assumes "cursor_ok e"
    and "\<not> (userCommand e = CHR ''r'' \<and> UserSaysYes inp \<and> infile e = None \<and> textBuffer e \<noteq> [])"
  shows "\<exists>e'. RunCommand e inp = Some e' \<and> cursor_ok e'"
  using RunCommand_returns[of e inp] RunCommand_cursor_ok[OF assms(1) _ assms(2)] by blast

text \<open>
  C10 fails on the code.  The editor is opened on an input file that cannot be read;
  the user inserts the line \<open>x\<close> at position 1 (command \<open>i\<close>), then asks to read
  the file (command \<open>r\<close>) and confirms with \<open>y\<close>.  \<open>ReadFile\<close> clears the
  buffer, finds the stream not good and returns without resetting \<open>curLineNo\<close>:
  the buffer is empty (length 0) and the cursor is still 1.  Every other path keeps
  the invariant (lemma \<open>RunCommand_keeps_cursor\<close>).
\<close>

theorem C10_ReadFile_unreadable_leaves_cursor:
  "Option.bind
     (Editor_turn (Editor_new None) (CHR ''i'')
        \<lparr> cin_char = CHR ''y'', cin_int = 1, cin_line1 = ''x'', cin_line2 = [] \<rparr>)
     (\<lambda>e. Editor_turn e (CHR ''r'')
        \<lparr> cin_char = CHR ''y'', cin_int = 1, cin_line1 = ''x'', cin_line2 = [] \<rparr>)
   = Some \<lparr> textBuffer = [], curLineNo = 1, infile = None, userCommand = CHR ''r'' \<rparr>
   \<and> DblLinkList_Length
        (textBuffer \<lparr> textBuffer = [], curLineNo = 1, infile = None, userCommand = CHR ''r'' \<rparr>) = 0
   \<and> curLineNo \<lparr> textBuffer = [], curLineNo = 1, infile = None, userCommand = CHR ''r'' \<rparr> = 1"
  by code_simp

text \<open>That state violates the cursor invariant; the initial state satisfies it.\<close>

lemma cursor_ok_violated:
  "\<not> cursor_ok \<lparr> textBuffer = [], curLineNo = 1, infile = None, userCommand = CHR ''r'' \<rparr>"
  by (simp add: cursor_ok_def DblLinkList_Length_def)

lemma cursor_ok_initial: "cursor_ok (Editor_new f)"
  by (simp add: cursor_ok_def DblLinkList_Length_def Editor_new_def)

section \<open>The open-addressing hash table: insert, erase and find\<close>

text \<open>The equations of \<open>insert\<close> and of the loop of \<open>rehash\<close>, as the source has them.\<close>

lemma insert_ht_unfold:
  "insert_ht t k =
     (if loadFactor_exceeds t
      then Option.bind (rehash t (length (table t) * 2 + 1))
             (\<lambda>r. case r of
                     Inl e \<Rightarrow> Some (Inl e)
                   | Inr t1 \<Rightarrow>
                       (case hashModPrime k (length (table t1)) of
                          Inl e \<Rightarrow> Some (Inl e)
                        | Inr h0 \<Rightarrow> Some (Inr (insert_probe t1 k h0 0))))
      else (case hashModPrime k (length (table t)) of
              Inl e \<Rightarrow> Some (Inl e)
            | Inr h0 \<Rightarrow> Some (Inr (insert_probe t k h0 0))))"
proof (cases "loadFactor_exceeds t")
  case False
  then show ?thesis unfolding insert_ht_def by (subst exec.simps) simp
next
  case True
  let ?r = "exec (Call_rehash_loop (table t))
      (t\<lparr> table := replicate (length (table t) * 2 + 1) HashSlot0, elemCount := 0 \<rparr>)"
  have "exec (Call_insert k) t =
      Option.bind ?r (\<lambda>r. case r of
                    Inl e \<Rightarrow> Some (Inl e)
                  | Inr (_, t1) \<Rightarrow>
                      (case hashModPrime k (length (table t1)) of
                         Inl e \<Rightarrow> Some (Inl e)
                       | Inr h0 \<Rightarrow> Some (Inr (insert_probe t1 k h0 0))))"
    using True by (subst exec.simps) simp
  then show ?thesis using True
    unfolding insert_ht_def rehash_def by (cases ?r) (auto split: sum.splits)
qed

lemma rehash_loop_Nil: "exec (Call_rehash_loop []) t = Some (Inr (True, t))"
  by (subst exec.simps) simp

lemma rehash_loop_Cons:
  "exec (Call_rehash_loop (slot # rest)) t =
     (if state slot = OCCUPIED
      then Option.bind (insert_ht t (key slot))
             (\<lambda>r. case r of
                     Inl e \<Rightarrow> Some (Inl e)
                   | Inr (_, t1) \<Rightarrow> exec (Call_rehash_loop rest) t1)
      else exec (Call_rehash_loop rest) t)"
  unfolding insert_ht_def by (subst exec.simps) simp

text \<open>On a table without slots every operation divides by zero.\<close>

lemma empty_table_divides_by_zero:
  "find_ht (OpenAddressHashTable_new 0 LINEAR) 5 = Inl undefined_behaviour
   \<and> erase_ht (OpenAddressHashTable_new 0 LINEAR) 5 = Inl undefined_behaviour
   \<and> insert_ht (OpenAddressHashTable_new 0 LINEAR) 5 = Some (Inl undefined_behaviour)"
  by code_simp

text \<open>
  C6 fails on the code.  In a table of 7 slots the keys 1 and 8 share the home slot 1,
  so 8 is stored in slot 2.  After \<open>erase(1)\<close>, \<open>insert(8)\<close> takes the first slot
  that is \<open>EMPTY\<close> or \<open>DELETED\<close>, slot 1, without looking further along the probe
  sequence, and stores a second copy of 8.  \<open>erase(8)\<close> then succeeds on slot 1 and
  \<open>find(8)\<close> still returns \<open>true\<close> from slot 2.  All five calls return \<open>true\<close>;
  the same happens with quadratic probing.
\<close>

theorem C6_erased_key_still_found:
  "map_option (map_sum id (\<lambda>(bs, t). (bs, find_ht t 8)))
     (run_ht (OpenAddressHashTable_new 7 LINEAR) [Ins 1, Ins 8, Era 1, Ins 8, Era 8])
   = Some (Inr ([True, True, True, True, True], Inr True))
   \<and> map_option (map_sum id (\<lambda>(bs, t). (bs, find_ht t 8)))
     (run_ht (OpenAddressHashTable_new 7 QUADRATIC) [Ins 1, Ins 8, Era 1, Ins 8, Era 8])
   = Some (Inr ([True, True, True, True, True], Inr True))"
  by code_simp

section \<open>Huffman coding: decoding an encoded text\<close>

text \<open>
  C7 fails on the code for a character set of one character.  \<open>buildCodes\<close> gives
  the only character the code \<open>0\<close> (its comment: for \<open>n = 1\<close> the code is \<open>0\<close> by
  convention), but the tree is the single leaf \<open>nodes[1]\<close>, which is also the root:
  \<open>Decode\<close> follows \<open>nodes[1].left = 0\<close> to the unused \<open>nodes[0]\<close>, which is no leaf,
  and throws \<open>runtime_error\<close> at the end of the bits.  For the character set and
  text of the demonstration program the round trip succeeds.
\<close>

theorem C7_single_character_round_trip_throws:
  "encode_then_decode ''A'' [5] ''A'' = Some (Inl runtime_error)
   \<and> map_option (map_sum id (\<lambda>t. (EncodeString t ''A'', Decode t ''0''))) (HuffmanTree_new ''A'' [5])
       = Some (Inr (Inr ''0'', Inl runtime_error))
   \<and> encode_then_decode ''CAST'' [2, 7, 4, 5] ''CASTCASTSATATATASA''
       = Some (Inr ''CASTCASTSATATATASA'')"
  by code_simp

section \<open>TriSparseMatrix: SetElem and GetElem\<close>

lemma key_trichotomy: "at_key t r c \<or> before_key t r c \<or> after_key t r c"
  by (auto simp: at_key_def before_key_def after_key_def)

lemma SetElem_scan_props:
  "-1 \<le> pos \<Longrightarrow>
   -1 \<le> SetElem_scan te r c pos \<and> SetElem_scan te r c pos \<le> pos
   \<and> (\<forall>j. SetElem_scan te r c pos < j \<and> j \<le> pos \<longrightarrow> after_key (te ! nat j) r c)
   \<and> (0 \<le> SetElem_scan te r c pos \<longrightarrow> \<not> after_key (te ! nat (SetElem_scan te r c pos)) r c)"
proof (induction te r c pos rule: SetElem_scan.induct)
  case (1 te r c pos)
  let ?cond = "pos \<ge> 0 \<and> (r < row (te ! nat pos) \<or> (r = row (te ! nat pos) \<and> c < col (te ! nat pos)))"
  show ?case
  proof (cases ?cond)
    case False
    then have "SetElem_scan te r c pos = pos" by (subst SetElem_scan.simps) auto
    then show ?thesis using False "1.prems" by (auto simp: after_key_def)
  next
    case True
    then have eq: "SetElem_scan te r c pos = SetElem_scan te r c (pos - 1)"
      by (subst SetElem_scan.simps) simp
    have ih: "-1 \<le> SetElem_scan te r c (pos - 1) \<and> SetElem_scan te r c (pos - 1) \<le> pos - 1
       \<and> (\<forall>j. SetElem_scan te r c (pos - 1) < j \<and> j \<le> pos - 1 \<longrightarrow> after_key (te ! nat j) r c)
       \<and> (0 \<le> SetElem_scan te r c (pos - 1) \<longrightarrow> \<not> after_key (te ! nat (SetElem_scan te r c (pos - 1))) r c)"
      using "1.IH"[OF True] True by simp
    have "after_key (te ! nat j) r c" if "SetElem_scan te r c (pos - 1) < j \<and> j \<le> pos" for j
    proof (cases "j = pos")
      case True
      then show ?thesis using \<open>?cond\<close> by (simp add: after_key_def)
    next
      case False
      then show ?thesis using ih that by simp
    qed
    then show ?thesis using ih eq by simp
  qed
qed

lemma shift_down_length: "length (shift_down te k n') = length te"
  by (induction te k n' rule: shift_down.induct) (subst shift_down.simps, simp)

lemma shift_down_nth:
  "1 \<le> k \<Longrightarrow> n' \<le> int (length te) \<Longrightarrow> 0 \<le> j \<Longrightarrow> j < int (length te) \<Longrightarrow>
   shift_down te k n' ! nat j = (if k - 1 \<le> j \<and> j < n' - 1 then te ! nat (j + 1) else te ! nat j)"
proof (induction te k n' arbitrary: rule: shift_down.induct)
  case (1 te k n')
  show ?case
  proof (cases "k < n'")
    case False
    then show ?thesis by (subst shift_down.simps) auto
  next
    case True
    let ?te = "te[nat (k - 1) := te ! nat k]"
    have "shift_down te k n' ! nat j = shift_down ?te (k + 1) n' ! nat j"
      using True by (subst shift_down.simps) simp
    also have "\<dots> = (if k + 1 - 1 \<le> j \<and> j < n' - 1 then ?te ! nat (j + 1) else ?te ! nat j)"
      using "1.IH"[OF True] "1.prems" by simp
    also have "\<dots> = (if k - 1 \<le> j \<and> j < n' - 1 then te ! nat (j + 1) else te ! nat j)"
    proof -
      have a: "?te ! nat (j + 1) = te ! nat (j + 1)" if "k \<le> j" "j < n' - 1"
        using that "1.prems" by (simp add: nth_list_update)
      have b: "?te ! nat j = te ! nat (j + 1)" if "j = k - 1"
        using that "1.prems" True by (simp add: nth_list_update)
      have c: "?te ! nat j = te ! nat j" if "j \<noteq> k - 1"
      proof -
        have "nat j \<noteq> nat (k - 1)" using that "1.prems" by auto
        then show ?thesis by simp
      qed
      consider "j < k - 1" | "j = k - 1" | "k \<le> j" by linarith
      then show ?thesis
      proof cases
        case 1 then show ?thesis using c by simp
      next
        case 2 then show ?thesis using b True by simp
      next
        case 3 then show ?thesis using a c by auto
      qed
    qed
    finally show ?thesis .
  qed
qed

lemma shift_up_length: "length (shift_up te k pos) = length te"
  by (induction te k pos rule: shift_up.induct) (subst shift_up.simps, simp)

lemma shift_up_nth:
  "-1 \<le> pos \<Longrightarrow> k + 1 < int (length te) \<Longrightarrow> 0 \<le> j \<Longrightarrow> j < int (length te) \<Longrightarrow>
   shift_up te k pos ! nat j = (if pos + 1 < j \<and> j \<le> k + 1 then te ! nat (j - 1) else te ! nat j)"
proof (induction te k pos rule: shift_up.induct)
  case (1 te k pos)
  show ?case
  proof (cases "k > pos")
    case False
    then show ?thesis by (subst shift_up.simps) auto
  next
    case True
    let ?te = "te[nat (k + 1) := te ! nat k]"
    have "shift_up te k pos ! nat j = shift_up ?te (k - 1) pos ! nat j"
      using True by (subst shift_up.simps) simp
    also have "\<dots> = (if pos + 1 < j \<and> j \<le> k - 1 + 1 then ?te ! nat (j - 1) else ?te ! nat j)"
      using "1.IH"[OF True] "1.prems" by simp
    also have "\<dots> = (if pos + 1 < j \<and> j \<le> k + 1 then te ! nat (j - 1) else te ! nat j)"
    proof -
      have a: "?te ! nat (j - 1) = te ! nat (j - 1)" if "pos + 1 < j" "j \<le> k"
      proof -
        have "nat (j - 1) \<noteq> nat (k + 1)" using that "1.prems" by auto
        then show ?thesis by simp
      qed
      have b: "?te ! nat j = te ! nat (j - 1)" if "j = k + 1"
        using that "1.prems" True by (simp add: nth_list_update)
      have c: "?te ! nat j = te ! nat j" if "j \<noteq> k + 1"
      proof -
        have "nat j \<noteq> nat (k + 1)" using that "1.prems" True by auto
        then show ?thesis by simp
      qed
      consider "j \<le> pos + 1" | "pos + 1 < j \<and> j \<le> k" | "j = k + 1" | "k + 1 < j" by linarith
      then show ?thesis
      proof cases
        case 1 then show ?thesis using c True by simp
      next
        case 2 then show ?thesis using a by simp
      next
        case 3 then show ?thesis using b True by simp
      next
        case 4 then show ?thesis using c by simp
      qed
    qed
    finally show ?thesis .
  qed
qed


lemma lookup_absent: "\<forall>t\<in>set xs. \<not> at_key t r c \<Longrightarrow> lookup xs r c = 0"
  by (induction xs) (auto simp: at_key_def)

lemma lookup_append:
  "lookup (xs @ ys) r c = (if \<exists>t\<in>set xs. at_key t r c then lookup xs r c else lookup ys r c)"
  by (induction xs) (auto simp: at_key_def)

lemma key_lt_trans: "key_lt a b \<Longrightarrow> key_lt b c \<Longrightarrow> key_lt a c"
  by (auto simp: key_lt_def)

lemma key_lt_after: "key_lt a b \<Longrightarrow> \<not> after_key b r c \<Longrightarrow> before_key a r c"
  by (auto simp: key_lt_def after_key_def before_key_def)

lemma key_lt_iff_before: "key_lt a b \<longleftrightarrow> before_key a (row b) (col b)"
  by (auto simp: key_lt_def before_key_def)

lemma key_lt_iff_after: "key_lt a b \<longleftrightarrow> after_key b (row a) (col a)"
  by (auto simp: key_lt_def after_key_def)

lemma before_not_at: "before_key t r c \<Longrightarrow> \<not> at_key t r c"
  by (auto simp: before_key_def at_key_def)

lemma after_not_at: "after_key t r c \<Longrightarrow> \<not> at_key t r c"
  by (auto simp: after_key_def at_key_def)

text \<open>The loop of GetElem on a sorted table is a lookup.\<close>

lemma GetElem_loop_lookup:
  "sorted_wrt key_lt (take (nat n') te) \<Longrightarrow> 0 \<le> k \<Longrightarrow> n' \<le> int (length te) \<Longrightarrow>
   GetElem_loop te n' r c k = lookup (drop (nat k) (take (nat n') te)) r c"
proof (induction te n' r c k rule: GetElem_loop.induct)
  case (1 te n' r c k)
  let ?L = "take (nat n') te"
  show ?case
  proof (cases "k < n'")
    case False
    then have "drop (nat k) ?L = []" using "1.prems" by simp
    then have "lookup (drop (nat k) ?L) r c = 0" by simp
    moreover have "GetElem_loop te n' r c k = 0" using False by (subst GetElem_loop.simps) simp
    ultimately show ?thesis by simp
  next
    case True
    then have kl: "nat k < length ?L" using "1.prems" by simp
    have nth: "?L ! nat k = te ! nat k" using kl by simp
    have Sk: "Suc (nat k) = nat (k + 1)" using "1.prems" by simp
    have "drop (nat k) ?L = ?L ! nat k # drop (Suc (nat k)) ?L"
      using kl by (rule Cons_nth_drop_Suc[symmetric])
    then have d: "drop (nat k) ?L = te ! nat k # drop (nat (k + 1)) ?L"
      unfolding nth Sk .
    have lk: "lookup (drop (nat k) ?L) r c =
        (if row (te ! nat k) = r \<and> col (te ! nat k) = c then val (te ! nat k)
         else lookup (drop (nat (k + 1)) ?L) r c)"
      unfolding d by simp
    show ?thesis
    proof (cases "row (te ! nat k) = r \<and> col (te ! nat k) = c")
      case T2: True
      have "GetElem_loop te n' r c k = val (te ! nat k)"
        using True T2 by (subst GetElem_loop.simps) simp
      then show ?thesis using lk T2 by simp
    next
      case F2: False
      show ?thesis
      proof (cases "row (te ! nat k) > r \<or> (row (te ! nat k) = r \<and> col (te ! nat k) > c)")
        case T3: True
        have "sorted_wrt key_lt (drop (nat k) ?L)" using "1.prems"(1) by (rule sorted_wrt_drop)
        then have "sorted_wrt key_lt (te ! nat k # drop (nat (k + 1)) ?L)" unfolding d .
        then have *: "\<forall>t\<in>set (drop (nat (k + 1)) ?L). key_lt (te ! nat k) t" by simp
        have "\<forall>t\<in>set (drop (nat (k + 1)) ?L). \<not> at_key t r c"
        proof
          fix t assume "t \<in> set (drop (nat (k + 1)) ?L)"
          then have "key_lt (te ! nat k) t" using * by blast
          then show "\<not> at_key t r c" using T3 by (auto simp: key_lt_def at_key_def)
        qed
        then have "lookup (drop (nat (k + 1)) ?L) r c = 0" by (rule lookup_absent)
        moreover have "GetElem_loop te n' r c k = 0"
          using True F2 T3 by (subst GetElem_loop.simps) auto
        ultimately show ?thesis using lk F2 by simp
      next
        case F3: False
        have ih: "GetElem_loop te n' r c (k + 1) = lookup (drop (nat (k + 1)) ?L) r c"
          using "1.IH"[OF True F2 F3] "1.prems" by simp
        have "GetElem_loop te n' r c k = GetElem_loop te n' r c (k + 1)"
          using True F2 F3 by (subst GetElem_loop.simps) auto
        then show ?thesis using lk F2 ih by simp
      qed
    qed
  qed
qed

lemma GetElem_lookup:
  assumes "tsm_inv m"
  shows "GetElem m r c =
    (if r < 1 \<or> r > rows m \<or> c < 1 \<or> c > cols m then None else Some (lookup (live m) r c))"
proof -
  have "GetElem_loop (triElems m) (num m) r c 0 = lookup (drop (nat 0) (take (nat (num m)) (triElems m))) r c"
    using assms by (intro GetElem_loop_lookup) (auto simp: tsm_inv_def live_def)
  then show ?thesis by (simp add: GetElem_def live_def)
qed

text \<open>The live prefix after each of the three updates of SetElem.\<close>

lemma live_after_delete:
  assumes "0 \<le> pos" "pos < n'" "n' \<le> int (length te)"
  shows "take (nat (n' - 1)) (shift_down te (pos + 1) n')
         = take (nat pos) (take (nat n') te) @ drop (nat pos + 1) (take (nat n') te)"
proof (rule nth_equalityI)
  have "nat pos < nat n'" "nat n' \<le> length te" using assms by linarith+
  then show "length (take (nat (n' - 1)) (shift_down te (pos + 1) n'))
      = length (take (nat pos) (take (nat n') te) @ drop (nat pos + 1) (take (nat n') te))"
    using assms by (simp add: shift_down_length)
next
  fix i assume "i < length (take (nat (n' - 1)) (shift_down te (pos + 1) n'))"
  then have "i < nat (n' - 1)" by simp
  then have i: "int i < n' - 1" by linarith
  let ?L = "take (nat n') te"
  have lp: "length (take (nat pos) ?L) = nat pos" using assms by simp
  have "take (nat (n' - 1)) (shift_down te (pos + 1) n') ! i = shift_down te (pos + 1) n' ! nat (int i)"
    using \<open>i < nat (n' - 1)\<close> by simp
  also have "\<dots> = (if pos + 1 - 1 \<le> int i \<and> int i < n' - 1 then te ! nat (int i + 1) else te ! nat (int i))"
  proof (rule shift_down_nth)
    show "1 \<le> pos + 1" using assms by simp
    show "n' \<le> int (length te)" using assms by simp
    show "0 \<le> int i" by simp
    show "int i < int (length te)" using i assms by linarith
  qed
  also have "\<dots> = (take (nat pos) ?L @ drop (nat pos + 1) ?L) ! i"
  proof (cases "int i < pos")
    case True
    then have "i < nat pos" by linarith
    then have "(take (nat pos) ?L @ drop (nat pos + 1) ?L) ! i = take (nat pos) ?L ! i"
      using lp by (simp add: nth_append)
    also have "\<dots> = ?L ! i" using \<open>i < nat pos\<close> by (rule nth_take)
    also have "\<dots> = te ! i"
    proof (rule nth_take)
      show "i < nat n'" using i by linarith
    qed
    finally show ?thesis using True by simp
  next
    case False
    then have ge: "nat pos \<le> i" by linarith
    have "(take (nat pos) ?L @ drop (nat pos + 1) ?L) ! i = drop (nat pos + 1) ?L ! (i - nat pos)"
      using lp ge by (simp add: nth_append)
    also have "\<dots> = ?L ! (nat pos + 1 + (i - nat pos))"
    proof (rule nth_drop)
      show "nat pos + 1 \<le> length ?L" using assms by simp
    qed
    also have "nat pos + 1 + (i - nat pos) = i + 1" using ge by simp
    also have "?L ! (i + 1) = te ! (i + 1)"
    proof (rule nth_take)
      show "i + 1 < nat n'" using i by linarith
    qed
    also have "i + 1 = nat (int i + 1)" by simp
    finally show ?thesis using False i by simp
  qed
  finally show "take (nat (n' - 1)) (shift_down te (pos + 1) n') ! i
      = (take (nat pos) ?L @ drop (nat pos + 1) ?L) ! i" .
qed

lemma live_after_insert:
  assumes "-1 \<le> pos" "pos < n'" "n' < int (length te)"
  shows "take (nat (n' + 1)) ((shift_up te (n' - 1) pos)[nat (pos + 1) := x])
         = take (nat (pos + 1)) (take (nat n') te) @ x # drop (nat (pos + 1)) (take (nat n') te)"
proof (rule nth_equalityI)
  show "length (take (nat (n' + 1)) ((shift_up te (n' - 1) pos)[nat (pos + 1) := x]))
      = length (take (nat (pos + 1)) (take (nat n') te) @ x # drop (nat (pos + 1)) (take (nat n') te))"
    using assms by (simp add: shift_up_length)
next
  fix i assume "i < length (take (nat (n' + 1)) ((shift_up te (n' - 1) pos)[nat (pos + 1) := x]))"
  then have i: "int i < n' + 1" using assms by (simp add: shift_up_length)
  let ?R = "take (nat (pos + 1)) (take (nat n') te) @ x # drop (nat (pos + 1)) (take (nat n') te)"
  show "take (nat (n' + 1)) ((shift_up te (n' - 1) pos)[nat (pos + 1) := x]) ! i = ?R ! i"
  proof (cases "int i = pos + 1")
    case True
    then have "i = nat (pos + 1)" by simp
    then show ?thesis using assms i by (simp add: shift_up_length nth_append)
  next
    case False
    then have ne: "i \<noteq> nat (pos + 1)" using assms by auto
    have "take (nat (n' + 1)) ((shift_up te (n' - 1) pos)[nat (pos + 1) := x]) ! i
        = shift_up te (n' - 1) pos ! nat (int i)"
      using i ne by simp
    also have "\<dots> = (if pos + 1 < int i \<and> int i \<le> n' - 1 + 1 then te ! nat (int i - 1) else te ! nat (int i))"
      using assms i by (intro shift_up_nth) auto
    also have "\<dots> = ?R ! i"
    proof (cases "int i < pos + 1")
      case True
      then show ?thesis using assms i by (simp add: nth_append)
    next
      case F2: False
      then have gt: "pos + 1 < int i" using False by simp
      define d where "d = i - nat (pos + 1) - 1"
      have d: "i - nat (pos + 1) = Suc d" "i = nat (pos + 1) + Suc d"
        using gt assms(1) unfolding d_def by linarith+
      have idx: "nat (pos + 1) + d = nat (int i - 1)" using d(2) assms(1) by linarith
      have "?R ! i = drop (nat (pos + 1)) (take (nat n') te) ! d"
        using d assms gt by (simp add: nth_append)
      also have "\<dots> = te ! (nat (pos + 1) + d)" using d i assms by simp
      finally have "?R ! i = te ! nat (int i - 1)" using idx by simp
      moreover have "int i \<le> n' - 1 + 1" using i by simp
      ultimately show ?thesis using gt by presburger
    qed
    finally show ?thesis .
  qed
qed


lemma lookup_gap:
  assumes "\<forall>t\<in>set A. before_key t r c" "\<forall>t\<in>set B. after_key t r c"
  shows "lookup (A @ B) r c = 0"
proof (rule lookup_absent)
  show "\<forall>t\<in>set (A @ B). \<not> at_key t r c"
    using assms before_not_at after_not_at by auto
qed

lemma lookup_here:
  assumes "\<forall>t\<in>set A. before_key t r c" "at_key x r c"
  shows "lookup (A @ x # B) r c = val x"
proof -
  have "\<not> (\<exists>t\<in>set A. at_key t r c)" using assms(1) before_not_at by blast
  then show ?thesis using assms(2) by (auto simp: lookup_append at_key_def)
qed

lemma lookup_elsewhere:
  assumes "at_key x r c" "\<not> (r' = r \<and> c' = c)"
  shows "lookup (A @ x # B) r' c' = lookup (A @ B) r' c'"
  using assms by (auto simp: lookup_append at_key_def)

lemma sorted_around:
  assumes "sorted_wrt key_lt A" "sorted_wrt key_lt B"
    "\<forall>t\<in>set A. before_key t r c" "\<forall>t\<in>set B. after_key t r c" "at_key x r c"
  shows "sorted_wrt key_lt (A @ x # B)" and "sorted_wrt key_lt (A @ B)"
proof -
  have ab: "key_lt a b" if "a \<in> set A" "b \<in> set B" for a b
    using assms(3,4) that by (fastforce simp: key_lt_def before_key_def after_key_def)
  have ax: "key_lt a x" if "a \<in> set A" for a
    using assms(3,5) that by (auto simp: key_lt_def before_key_def at_key_def)
  have xb: "key_lt x b" if "b \<in> set B" for b
    using assms(4,5) that by (auto simp: key_lt_def after_key_def at_key_def)
  show "sorted_wrt key_lt (A @ x # B)"
    using assms(1,2) ab ax xb by (auto simp: sorted_wrt_append)
  show "sorted_wrt key_lt (A @ B)"
    using assms(1,2) ab by (auto simp: sorted_wrt_append)
qed

text \<open>What the scan of SetElem finds in a sorted table.\<close>

lemma scan_on_sorted:
  fixes te :: "Triple list" and n' r c :: int
  assumes srt: "sorted_wrt key_lt (take (nat n') te)" and n': "0 \<le> n'" "n' \<le> int (length te)"
  defines "p \<equiv> SetElem_scan te r c (n' - 1)"
  shows "-1 \<le> p" "p < n'"
    "\<forall>t\<in>set (drop (nat (p + 1)) (take (nat n') te)). after_key t r c"
    "0 \<le> p \<Longrightarrow> at_key (te ! nat p) r c \<Longrightarrow> \<forall>t\<in>set (take (nat p) (take (nat n') te)). before_key t r c"
    "\<not> (0 \<le> p \<and> at_key (te ! nat p) r c) \<Longrightarrow> \<forall>t\<in>set (take (nat (p + 1)) (take (nat n') te)). before_key t r c"
proof -
  let ?L = "take (nat n') te"
  have len: "length ?L = nat n'" using n' by simp
  have props: "-1 \<le> p \<and> p \<le> n' - 1
     \<and> (\<forall>j. p < j \<and> j \<le> n' - 1 \<longrightarrow> after_key (te ! nat j) r c)
     \<and> (0 \<le> p \<longrightarrow> \<not> after_key (te ! nat p) r c)"
    unfolding p_def using SetElem_scan_props[of "n' - 1" te r c] n' by simp
  show "-1 \<le> p" "p < n'" using props by auto
  have nthL: "?L ! i = te ! i" if "i < nat n'" for i using that by simp
  show "\<forall>t\<in>set (drop (nat (p + 1)) ?L). after_key t r c"
  proof
    fix t assume "t \<in> set (drop (nat (p + 1)) ?L)"
    then obtain i where i: "i < length (drop (nat (p + 1)) ?L)" "t = drop (nat (p + 1)) ?L ! i"
      by (auto simp: in_set_conv_nth)
    then have il: "nat (p + 1) + i < nat n'" using len by simp
    then have "t = te ! (nat (p + 1) + i)" using i nthL by simp
    moreover have "nat (p + 1) + i = nat (p + 1 + int i)" using props by linarith
    moreover have "after_key (te ! nat (p + 1 + int i)) r c"
    proof -
      have "p < p + 1 + int i \<and> p + 1 + int i \<le> n' - 1" using il props by linarith
      then show ?thesis using props by blast
    qed
    ultimately show "after_key t r c" by simp
  qed
  have below: "key_lt (?L ! i) (te ! nat p)" if "i < nat p" "0 \<le> p" for i
  proof -
    have "nat p < length ?L" using props that len by linarith
    then have "key_lt (?L ! i) (?L ! nat p)"
      using srt that(1) sorted_wrt_iff_nth_less[of key_lt ?L] by blast
    then show ?thesis using nthL[of "nat p"] \<open>nat p < length ?L\<close> len by simp
  qed
  show "\<forall>t\<in>set (take (nat p) ?L). before_key t r c"
    if p0: "0 \<le> p" and at: "at_key (te ! nat p) r c"
  proof
    fix t assume "t \<in> set (take (nat p) ?L)"
    then obtain i where i: "i < length (take (nat p) ?L)" "t = take (nat p) ?L ! i"
      by (auto simp: in_set_conv_nth)
    then have ip: "i < nat p" by simp
    then have "t = ?L ! i" using i(2) by (simp only: nth_take)
    then have "key_lt t (te ! nat p)" using below[OF ip p0] by (simp only:)
    then show "before_key t r c" using at by (auto simp: key_lt_def before_key_def at_key_def)
  qed
  show "\<forall>t\<in>set (take (nat (p + 1)) ?L). before_key t r c"
    if nf: "\<not> (0 \<le> p \<and> at_key (te ! nat p) r c)"
  proof
    fix t assume "t \<in> set (take (nat (p + 1)) ?L)"
    then obtain i where i: "i < length (take (nat (p + 1)) ?L)" "t = take (nat (p + 1)) ?L ! i"
      by (auto simp: in_set_conv_nth)
    then have ip: "i < nat (p + 1)" "i < nat n'" using len by simp_all
    then have p0: "0 \<le> p" by linarith
    then have bp: "before_key (te ! nat p) r c"
      using nf props key_trichotomy[of "te ! nat p" r c] by blast
    have t: "t = ?L ! i" using i(2) ip(1) by (simp only: nth_take)
    show "before_key t r c"
    proof (cases "i = nat p")
      case True
      then show ?thesis using t bp nthL ip by simp
    next
      case False
      then have "i < nat p" using ip p0 by linarith
      then have "key_lt t (te ! nat p)" using below[OF _ p0] t by (simp only:)
      then show ?thesis using bp by (auto simp: key_lt_def before_key_def)
    qed
  qed
qed


text \<open>
  The three updates of SetElem seen on the live prefix: around the position of
  \<open>(r, c)\<close> the table is \<open>A @ B\<close> or \<open>A @ x # B\<close>, and becomes \<open>A @ B\<close> (for
  \<open>v = 0\<close>) or \<open>A @ (r, c, v) # B\<close>.
\<close>

lemma post_from_live:
  assumes inv: "tsm_inv m"
    and rng: "1 \<le> r" "r \<le> rows m" "1 \<le> c" "c \<le> cols m"
    and same: "rows m' = rows m" "cols m' = cols m" "maxSize m' = maxSize m"
      "length (triElems m') = length (triElems m)" "0 \<le> num m'" "num m' \<le> maxSize m"
    and bef: "\<forall>t\<in>set A. before_key t r c" and aft: "\<forall>t\<in>set B. after_key t r c"
    and old: "live m = A @ B \<or> (\<exists>x. at_key x r c \<and> live m = A @ x # B)"
    and new: "(v = 0 \<and> live m' = A @ B) \<or> (v \<noteq> 0 \<and> live m' = A @ \<lparr> row = r, col = c, val = v \<rparr> # B)"
  shows "tsm_inv m'"
    and "GetElem m' r' c' = (if r' = r \<and> c' = c then Some v else GetElem m r' c')"
proof -
  let ?x = "\<lparr> row = r, col = c, val = v \<rparr>"
  have atx: "at_key ?x r c" by (simp add: at_key_def)
  have srt: "sorted_wrt key_lt (live m)" using inv by (simp add: tsm_inv_def)
  have sAB: "sorted_wrt key_lt A \<and> sorted_wrt key_lt B"
    using old srt by (auto simp: sorted_wrt_append)
  have sub: "set A \<union> set B \<subseteq> set (live m)" using old by auto
  have srt': "sorted_wrt key_lt (live m')"
    using new sorted_around[OF sAB[THEN conjunct1] sAB[THEN conjunct2] bef aft atx] by auto
  have elems: "\<forall>t\<in>set (live m). val t \<noteq> 0 \<and> 1 \<le> row t \<and> row t \<le> rows m \<and> 1 \<le> col t \<and> col t \<le> cols m"
    using inv by (simp add: tsm_inv_def)
  have elems': "\<forall>t\<in>set (live m'). val t \<noteq> 0 \<and> 1 \<le> row t \<and> row t \<le> rows m' \<and> 1 \<le> col t \<and> col t \<le> cols m'"
  proof
    fix t assume t: "t \<in> set (live m')"
    then consider "t \<in> set A \<union> set B" | "v \<noteq> 0" "t = ?x" using new by auto
    then show "val t \<noteq> 0 \<and> 1 \<le> row t \<and> row t \<le> rows m' \<and> 1 \<le> col t \<and> col t \<le> cols m'"
    proof cases
      case 1
      then show ?thesis using sub elems same by auto
    next
      case 2
      then show ?thesis using rng same by simp
    qed
  qed
  show inv': "tsm_inv m'"
    using srt' elems' same inv by (simp add: tsm_inv_def)
  have lk: "lookup (live m') r' c' = (if r' = r \<and> c' = c then v else lookup (live m) r' c')"
  proof (cases "r' = r \<and> c' = c")
    case True
    have "lookup (live m') r c = v"
      using new lookup_gap[OF bef aft] lookup_here[OF bef atx, of B] by auto
    then show ?thesis using True by simp
  next
    case False
    have a: "lookup (live m') r' c' = lookup (A @ B) r' c'"
      using new lookup_elsewhere[OF atx False, of A B] by auto
    have b: "lookup (live m) r' c' = lookup (A @ B) r' c'"
      using old lookup_elsewhere[OF _ False, of _ A B] by auto
    show ?thesis using a b False by auto
  qed
  show "GetElem m' r' c' = (if r' = r \<and> c' = c then Some v else GetElem m r' c')"
    using lk rng same by (auto simp: GetElem_lookup[OF inv] GetElem_lookup[OF inv'])
qed


lemma tsm_inv_new: "tsm_inv (TriSparseMatrix_new rs cs sz)"
  by (simp add: tsm_inv_def live_def TriSparseMatrix_new_def Let_def)

lemma live_split:
  assumes "k \<le> length L"
  shows "L = take k L @ drop k L" and "k < length L \<Longrightarrow> L = take k L @ L ! k # drop (k + 1) L"
  by (simp_all add: id_take_nth_drop)

text \<open>
  C5: on a matrix satisfying the class invariant, \<open>SetElem(r, c, v)\<close> returns
  \<open>false\<close> exactly when the index is out of the 1-based range or when \<open>v\<close> is
  non-zero, \<open>(r, c)\<close> is not stored and the table is full (\<open>num = maxSize\<close>), and
  then the matrix is unchanged; when it returns \<open>true\<close> the invariant holds again
  (triples strictly sorted by (row, col), no zero value), the dimensions are
  unchanged, and every entry reads as before except \<open>(r, c)\<close>, which reads \<open>v\<close>.
\<close>

theorem C5_SetElem_atomic_and_exact:
  assumes inv: "tsm_inv m" and res: "SetElem m r c v = (b, m')"
  shows "(\<not> b \<longrightarrow> m' = m)
    \<and> (\<not> b \<longleftrightarrow> (r < 1 \<or> r > rows m \<or> c < 1 \<or> c > cols m)
                \<or> (v \<noteq> 0 \<and> num m = maxSize m \<and> (\<forall>t\<in>set (live m). \<not> at_key t r c)))
    \<and> (b \<longrightarrow> tsm_inv m' \<and> rows m' = rows m \<and> cols m' = cols m \<and> maxSize m' = maxSize m
          \<and> (\<forall>r' c'. GetElem m' r' c' = (if r' = r \<and> c' = c then Some v else GetElem m r' c')))"
proof (cases "r < 1 \<or> r > rows m \<or> c < 1 \<or> c > cols m")
  case True
  then have "SetElem m r c v = (False, m)" by (auto simp: SetElem_def)
  then show ?thesis using res True by auto
next
  case False
  then have rng: "1 \<le> r" "r \<le> rows m" "1 \<le> c" "c \<le> cols m" by auto
  let ?te = "triElems m"
  let ?L = "live m"
  define p where "p = SetElem_scan ?te r c (num m - 1)"
  have n0: "0 \<le> num m" and nle: "num m \<le> maxSize m" and len: "length ?te = nat (maxSize m)"
    and srt: "sorted_wrt key_lt (take (nat (num m)) ?te)"
    using inv by (simp_all add: tsm_inv_def live_def)
  have nlen: "num m \<le> int (length ?te)" using nle len by simp
  note sc = scan_on_sorted[OF srt n0 nlen, of r c, folded p_def]
  have lenL: "length ?L = nat (num m)" using nlen by (simp add: live_def)
  have aft: "\<forall>t\<in>set (drop (nat (p + 1)) ?L). after_key t r c" using sc(3) by (simp add: live_def)
  show ?thesis
  proof (cases "0 \<le> p \<and> at_key (?te ! nat p) r c")
    case found: True
    then have p0: "0 \<le> p" and at: "at_key (?te ! nat p) r c" by simp_all
    have pl: "nat p < length ?L" using sc(2) p0 lenL by linarith
    have Lp: "?L ! nat p = ?te ! nat p" using pl by (simp add: live_def)
    have bef: "\<forall>t\<in>set (take (nat p) ?L). before_key t r c" using sc(4)[OF p0 at] by (simp add: live_def)
    have Sp: "nat (p + 1) = nat p + 1" using p0 by simp
    have aft': "\<forall>t\<in>set (drop (nat p + 1) ?L). after_key t r c" using aft Sp by simp
    have old: "?L = take (nat p) ?L @ drop (nat p + 1) ?L
        \<or> (\<exists>x. at_key x r c \<and> ?L = take (nat p) ?L @ x # drop (nat p + 1) ?L)"
      using live_split(2)[OF _ pl] pl at Lp by (metis less_imp_le_nat)
    have present: "\<exists>t\<in>set ?L. at_key t r c" using at Lp pl nth_mem by metis
    have cond: "p \<ge> 0 \<and> row (?te ! nat p) = r \<and> col (?te ! nat p) = c"
      using found by (simp add: at_key_def)
    show ?thesis
    proof (cases "v = 0")
      case True
      let ?m' = "m\<lparr> triElems := shift_down ?te (p + 1) (num m), num := num m - 1 \<rparr>"
      have eq: "SetElem m r c v = (True, ?m')"
        using False cond True unfolding SetElem_def Let_def p_def[symmetric] by auto
      have live': "live ?m' = take (nat p) ?L @ drop (nat p + 1) ?L"
        using live_after_delete[OF p0 sc(2) nlen] by (simp add: live_def)
      have new: "(v = 0 \<and> live ?m' = take (nat p) ?L @ drop (nat p + 1) ?L)
          \<or> (v \<noteq> 0 \<and> live ?m' = take (nat p) ?L @ \<lparr> row = r, col = c, val = v \<rparr> # drop (nat p + 1) ?L)"
        using True live' by simp
      have same: "rows ?m' = rows m" "cols ?m' = cols m" "maxSize ?m' = maxSize m"
        "length (triElems ?m') = length (triElems m)" "0 \<le> num ?m'" "num ?m' \<le> maxSize m"
        using sc(2) p0 nle by (simp_all add: shift_down_length)
      note post = post_from_live[OF inv rng same bef aft' old new]
      show ?thesis using eq res post present False by auto
    next
      case nz: False
      let ?m' = "m\<lparr> triElems := ?te[nat p := (?te ! nat p)\<lparr> val := v \<rparr>] \<rparr>"
      have eq: "SetElem m r c v = (True, ?m')"
        using False cond nz unfolding SetElem_def Let_def p_def[symmetric] by auto
      have x: "(?te ! nat p)\<lparr> val := v \<rparr> = \<lparr> row = r, col = c, val = v \<rparr>"
        using at by (simp add: at_key_def)
      have "live ?m' = ?L[nat p := \<lparr> row = r, col = c, val = v \<rparr>]"
        using x by (simp add: live_def take_update_swap)
      also have "\<dots> = take (nat p) ?L @ \<lparr> row = r, col = c, val = v \<rparr> # drop (nat p + 1) ?L"
        using pl by (simp add: upd_conv_take_nth_drop)
      finally have new: "(v = 0 \<and> live ?m' = take (nat p) ?L @ drop (nat p + 1) ?L)
          \<or> (v \<noteq> 0 \<and> live ?m' = take (nat p) ?L @ \<lparr> row = r, col = c, val = v \<rparr> # drop (nat p + 1) ?L)"
        using nz by simp
      have same: "rows ?m' = rows m" "cols ?m' = cols m" "maxSize ?m' = maxSize m"
        "length (triElems ?m') = length (triElems m)" "0 \<le> num ?m'" "num ?m' \<le> maxSize m"
        using n0 nle by simp_all
      note post = post_from_live[OF inv rng same bef aft' old new]
      show ?thesis using eq res post present False by auto
    qed
  next
    case nf: False
    have bef: "\<forall>t\<in>set (take (nat (p + 1)) ?L). before_key t r c" using sc(5)[OF nf] by (simp add: live_def)
    have absent: "\<forall>t\<in>set ?L. \<not> at_key t r c"
    proof
      fix t assume "t \<in> set ?L"
      then have "t \<in> set (take (nat (p + 1)) ?L) \<or> t \<in> set (drop (nat (p + 1)) ?L)"
        by (metis Un_iff append_take_drop_id set_append)
      then show "\<not> at_key t r c" using bef aft before_not_at after_not_at by blast
    qed
    have old: "?L = take (nat (p + 1)) ?L @ drop (nat (p + 1)) ?L
        \<or> (\<exists>x. at_key x r c \<and> ?L = take (nat (p + 1)) ?L @ x # drop (nat (p + 1)) ?L)"
      by simp
    have cond: "\<not> (p \<ge> 0 \<and> row (?te ! nat p) = r \<and> col (?te ! nat p) = c)"
      using nf by (simp add: at_key_def)
    show ?thesis
    proof (cases "v = 0")
      case True
      have eq: "SetElem m r c v = (True, m)"
        using False cond True unfolding SetElem_def Let_def p_def[symmetric] by auto
      have new: "(v = 0 \<and> live m = take (nat (p + 1)) ?L @ drop (nat (p + 1)) ?L)
          \<or> (v \<noteq> 0 \<and> live m = take (nat (p + 1)) ?L @ \<lparr> row = r, col = c, val = v \<rparr> # drop (nat (p + 1)) ?L)"
        using True by simp
      have same: "rows m = rows m" "cols m = cols m" "maxSize m = maxSize m"
        "length (triElems m) = length (triElems m)" "0 \<le> num m" "num m \<le> maxSize m"
        using n0 nle by simp_all
      note post = post_from_live[OF inv rng same bef aft old new]
      show ?thesis using eq res post True False by auto
    next
      case nz: False
      show ?thesis
      proof (cases "num m \<ge> maxSize m")
        case full: True
        have eq: "SetElem m r c v = (False, m)"
          using False cond nz full unfolding SetElem_def Let_def p_def[symmetric] by auto
        show ?thesis using eq res nz full nle absent False by auto
      next
        case room: False
        let ?m' = "m\<lparr> triElems := (shift_up ?te (num m - 1) p)[nat (p + 1) := \<lparr> row = r, col = c, val = v \<rparr>],
                      num := num m + 1 \<rparr>"
        have eq: "SetElem m r c v = (True, ?m')"
          using False cond nz room unfolding SetElem_def Let_def p_def[symmetric] by auto
        have lt: "num m < int (length ?te)" using room len by simp
        have live': "live ?m' = take (nat (p + 1)) ?L @ \<lparr> row = r, col = c, val = v \<rparr> # drop (nat (p + 1)) ?L"
          using live_after_insert[OF sc(1) sc(2) lt] by (simp add: live_def)
        have new: "(v = 0 \<and> live ?m' = take (nat (p + 1)) ?L @ drop (nat (p + 1)) ?L)
            \<or> (v \<noteq> 0 \<and> live ?m' = take (nat (p + 1)) ?L @ \<lparr> row = r, col = c, val = v \<rparr> # drop (nat (p + 1)) ?L)"
          using nz live' by simp
        have same: "rows ?m' = rows m" "cols ?m' = cols m" "maxSize ?m' = maxSize m"
          "length (triElems ?m') = length (triElems m)" "0 \<le> num ?m'" "num ?m' \<le> maxSize m"
          using n0 room by (simp_all add: shift_up_length)
        note post = post_from_live[OF inv rng same bef aft old new]
        show ?thesis using eq res post room False by auto
      qed
    qed
  qed
qed

text \<open>
  The theorem at the 5 x 6 matrix \<open>SM\<close> of the demonstration program, which holds six
  sorted triples, and at a full 2 x 2 matrix of capacity 2.  Setting \<open>(3, 2)\<close> of
  \<open>SM\<close> to 9 inserts a triple in the middle of the table; setting \<open>(3, 3)\<close> to 0
  deletes its triple; setting \<open>(6, 1)\<close> fails, the row being out of range, and
  setting \<open>(1, 2)\<close> of the full matrix to 4 fails for lack of room: both leave the
  matrix as it was.
\<close>

theorem C5_SetElem_atomic_and_exact_witness:
  "tsm_inv SM_demo \<and> tsm_inv SM_full
   \<and> SetElem SM_demo 6 1 9 = (False, SM_demo)
   \<and> SetElem SM_full 1 2 4 = (False, SM_full)
   \<and> fst (SetElem SM_demo 3 2 9) = True
   \<and> tsm_inv (snd (SetElem SM_demo 3 2 9))
   \<and> num (snd (SetElem SM_demo 3 2 9)) = 7
   \<and> GetElem (snd (SetElem SM_demo 3 2 9)) 3 2 = Some 9
   \<and> GetElem (snd (SetElem SM_demo 3 2 9)) 3 3 = GetElem SM_demo 3 3
   \<and> fst (SetElem SM_demo 3 3 0) = True
   \<and> tsm_inv (snd (SetElem SM_demo 3 3 0))
   \<and> num (snd (SetElem SM_demo 3 3 0)) = 5
   \<and> GetElem (snd (SetElem SM_demo 3 3 0)) 3 3 = Some 0
   \<and> GetElem (snd (SetElem SM_demo 3 3 0)) 5 3 = GetElem SM_demo 5 3"
proof -
  have i1: "tsm_inv SM_demo" by code_simp
  have i2: "tsm_inv SM_full" by code_simp
  have r1: "SetElem SM_demo 6 1 9 = (fst (SetElem SM_demo 6 1 9), snd (SetElem SM_demo 6 1 9))"
    by simp
  have r2: "SetElem SM_full 1 2 4 = (fst (SetElem SM_full 1 2 4), snd (SetElem SM_full 1 2 4))"
    by simp
  have r3: "SetElem SM_demo 3 2 9 = (fst (SetElem SM_demo 3 2 9), snd (SetElem SM_demo 3 2 9))"
    by simp
  have r4: "SetElem SM_demo 3 3 0 = (fst (SetElem SM_demo 3 3 0), snd (SetElem SM_demo 3 3 0))"
    by simp
  note t1 = C5_SetElem_atomic_and_exact[OF i1 r1]
  note t2 = C5_SetElem_atomic_and_exact[OF i2 r2]
  note t3 = C5_SetElem_atomic_and_exact[OF i1 r3]
  note t4 = C5_SetElem_atomic_and_exact[OF i1 r4]
  have c1: "(6::int) < 1 \<or> 6 > rows SM_demo \<or> (1::int) < 1 \<or> 1 > cols SM_demo"
    by (simp add: SM_demo_def)
  have c2: "(4::int) \<noteq> 0 \<and> num SM_full = maxSize SM_full
      \<and> (\<forall>t\<in>set (live SM_full). \<not> at_key t 1 2)"
    by code_simp
  have c3: "\<not> ((3::int) < 1 \<or> 3 > rows SM_demo \<or> (2::int) < 1 \<or> 2 > cols SM_demo
      \<or> ((9::int) \<noteq> 0 \<and> num SM_demo = maxSize SM_demo
          \<and> (\<forall>t\<in>set (live SM_demo). \<not> at_key t 3 2)))"
    by (simp add: SM_demo_def)
  have c4: "\<not> ((3::int) < 1 \<or> 3 > rows SM_demo \<or> (3::int) < 1 \<or> 3 > cols SM_demo
      \<or> ((0::int) \<noteq> 0 \<and> num SM_demo = maxSize SM_demo
          \<and> (\<forall>t\<in>set (live SM_demo). \<not> at_key t 3 3)))"
    by (simp add: SM_demo_def)
  from t1 c1 have f1: "\<not> fst (SetElem SM_demo 6 1 9)" by blast
  with t1 have "snd (SetElem SM_demo 6 1 9) = SM_demo" by blast
  with f1 have a1: "SetElem SM_demo 6 1 9 = (False, SM_demo)"
    by (metis (full_types) prod.collapse)
  from t2 c2 have f2: "\<not> fst (SetElem SM_full 1 2 4)" by blast
  with t2 have "snd (SetElem SM_full 1 2 4) = SM_full" by blast
  with f2 have a2: "SetElem SM_full 1 2 4 = (False, SM_full)"
    by (metis (full_types) prod.collapse)
  from t3 c3 have f3: "fst (SetElem SM_demo 3 2 9)" by blast
  with t3 have a3: "tsm_inv (snd (SetElem SM_demo 3 2 9))" by blast
  from t3 f3 have g3: "\<forall>r' c'. GetElem (snd (SetElem SM_demo 3 2 9)) r' c'
      = (if r' = 3 \<and> c' = 2 then Some 9 else GetElem SM_demo r' c')" by blast
  have b3: "GetElem (snd (SetElem SM_demo 3 2 9)) 3 2 = Some 9"
    "GetElem (snd (SetElem SM_demo 3 2 9)) 3 3 = GetElem SM_demo 3 3"
    using g3 by simp_all
  have n3: "num (snd (SetElem SM_demo 3 2 9)) = 7" by code_simp
  from t4 c4 have f4: "fst (SetElem SM_demo 3 3 0)" by blast
  with t4 have a4: "tsm_inv (snd (SetElem SM_demo 3 3 0))" by blast
  from t4 f4 have g4: "\<forall>r' c'. GetElem (snd (SetElem SM_demo 3 3 0)) r' c'
      = (if r' = 3 \<and> c' = 3 then Some 0 else GetElem SM_demo r' c')" by blast
  have b4: "GetElem (snd (SetElem SM_demo 3 3 0)) 3 3 = Some 0"
    "GetElem (snd (SetElem SM_demo 3 3 0)) 5 3 = GetElem SM_demo 5 3"
    using g4 by simp_all
  have n4: "num (snd (SetElem SM_demo 3 3 0)) = 5" by code_simp
  show ?thesis using i1 i2 a1 a2 f3 a3 n3 b3 f4 a4 n4 b4 by simp
qed

section \<open>The two transpositions agree\<close>


lemma put_transposed_eq: "put_transposed dst dp t = dst[nat dp := swap_rc t]"
proof -
  have *: "(x::Triple)\<lparr> row := a, col := b, val := c \<rparr> = \<lparr> row = a, col = b, val = c \<rparr>" for x a b c
    by (cases x) simp
  show ?thesis unfolding put_transposed_def swap_rc_def by (simp only: *)
qed

lemma drop_take_step:
  assumes "0 \<le> s" "s < cnt" "cnt \<le> int (length src)"
  shows "drop (nat s) (take (nat cnt) src) = src ! nat s # drop (nat (s + 1)) (take (nat cnt) src)"
proof -
  let ?L = "take (nat cnt) src"
  have kl: "nat s < length ?L" using assms by simp
  have "drop (nat s) ?L = ?L ! nat s # drop (Suc (nat s)) ?L"
    using kl by (rule Cons_nth_drop_Suc[symmetric])
  moreover have "?L ! nat s = src ! nat s" using kl by simp
  moreover have "Suc (nat s) = nat (s + 1)" using assms by simp
  ultimately show ?thesis by (simp only:)
qed

lemma SimpleTranspose_inner_result:
  assumes "0 \<le> s" "cnt \<le> int (length src)" "0 \<le> dp"
    "nat dp + length (cl_list (drop (nat s) (take (nat cnt) src)) cl) \<le> length dst"
  shows "SimpleTranspose_inner src cnt cl s dst dp =
    (take (nat dp) dst @ cl_list (drop (nat s) (take (nat cnt) src)) cl
       @ drop (nat dp + length (cl_list (drop (nat s) (take (nat cnt) src)) cl)) dst,
     dp + int (length (cl_list (drop (nat s) (take (nat cnt) src)) cl)))"
  using assms
proof (induction src cnt cl s dst dp rule: SimpleTranspose_inner.induct)
  case (1 src cnt cl s dst dp)
  let ?L = "take (nat cnt) src"
  show ?case
  proof (cases "s < cnt")
    case False
    then have "drop (nat s) ?L = []" using "1.prems" by simp
    then have "cl_list (drop (nat s) ?L) cl = []" by (simp add: cl_list_def)
    then show ?thesis using False by (subst SimpleTranspose_inner.simps) simp
  next
    case True
    note d = drop_take_step[OF "1.prems"(1) True "1.prems"(2)]
    let ?R = "cl_list (drop (nat (s + 1)) ?L) cl"
    show ?thesis
    proof (cases "col (src ! nat s) = cl")
      case hit: True
      let ?x = "swap_rc (src ! nat s)"
      have cl: "cl_list (drop (nat s) ?L) cl = ?x # ?R"
        unfolding d using hit by (simp add: cl_list_def)
      let ?dst1 = "put_transposed dst dp (src ! nat s)"
      have dst1: "?dst1 = dst[nat dp := ?x]" by (rule put_transposed_eq)
      have dpl: "nat dp < length dst" using "1.prems"(4) cl by simp
      have pre: "nat (dp + 1) + length ?R \<le> length ?dst1"
        using "1.prems"(3,4) cl dst1 by simp
      have "SimpleTranspose_inner src cnt cl s dst dp = SimpleTranspose_inner src cnt cl (s + 1) ?dst1 (dp + 1)"
        using True hit by (subst SimpleTranspose_inner.simps) simp
      also have "\<dots> = (take (nat (dp + 1)) ?dst1 @ ?R @ drop (nat (dp + 1) + length ?R) ?dst1,
          dp + 1 + int (length ?R))"
        using "1.IH"(1)[OF True hit _ "1.prems"(2) _ pre] "1.prems"(1,3) by simp
      also have "take (nat (dp + 1)) ?dst1 = take (nat dp) dst @ [?x]"
      proof -
        have "nat (dp + 1) = Suc (nat dp)" using "1.prems"(3) by simp
        then show ?thesis using dpl dst1 by (simp add: take_Suc_conv_app_nth)
      qed
      also have "drop (nat (dp + 1) + length ?R) ?dst1 = drop (nat dp + length (?x # ?R)) dst"
      proof -
        have "nat (dp + 1) + length ?R = nat dp + length (?x # ?R)" using "1.prems"(3) by simp
        moreover have "nat dp < nat dp + length (?x # ?R)" by simp
        ultimately show ?thesis using dst1 by (simp only: drop_update_cancel)
      qed
      finally show ?thesis unfolding cl by simp
    next
      case miss: False
      have cl: "cl_list (drop (nat s) ?L) cl = ?R"
        unfolding d using miss by (simp add: cl_list_def)
      have "SimpleTranspose_inner src cnt cl s dst dp = SimpleTranspose_inner src cnt cl (s + 1) dst dp"
        using True miss by (subst SimpleTranspose_inner.simps) simp
      also have "\<dots> = (take (nat dp) dst @ ?R @ drop (nat dp + length ?R) dst, dp + int (length ?R))"
        using "1.IH"(2)[OF True miss _ "1.prems"(2,3)] "1.prems"(1,4) cl by simp
      finally show ?thesis unfolding cl .
    qed
  qed
qed


lemma length_filter_disj:
  "(\<And>x. \<not> (P x \<and> Q x)) \<Longrightarrow>
   length (filter P xs) + length (filter Q xs) = length (filter (\<lambda>x. P x \<or> Q x) xs)"
  by (induction xs) auto

lemma length_cl_list: "length (cl_list L c) = length (filter (\<lambda>t. col t = c) L)"
  by (simp add: cl_list_def)

lemma length_transposed:
  "length (transposed L k) = length (filter (\<lambda>t. 1 \<le> col t \<and> col t \<le> int k) L)"
proof (induction k)
  case 0
  have "filter (\<lambda>t. 1 \<le> col t \<and> col t \<le> int 0) L = []" by (induction L) auto
  then show ?case by simp
next
  case (Suc k)
  have e: "filter (\<lambda>t. (1 \<le> col t \<and> col t \<le> int k) \<or> col t = int (Suc k)) L
      = filter (\<lambda>t. 1 \<le> col t \<and> col t \<le> int (Suc k)) L"
    by (rule filter_cong) auto
  have "length (transposed L (Suc k)) = length (transposed L k) + length (cl_list L (int (Suc k)))"
    by simp
  also have "\<dots> = length (filter (\<lambda>t. 1 \<le> col t \<and> col t \<le> int k) L)
      + length (filter (\<lambda>t. col t = int (Suc k)) L)"
    using Suc by (simp only: length_cl_list)
  also have "\<dots> = length (filter (\<lambda>t. (1 \<le> col t \<and> col t \<le> int k) \<or> col t = int (Suc k)) L)"
    by (rule length_filter_disj) auto
  finally show ?case unfolding e .
qed

lemma length_transposed_le: "length (transposed L k) \<le> length L"
  by (simp add: length_transposed)

lemma length_transposed_all:
  "\<forall>t\<in>set L. 1 \<le> col t \<and> col t \<le> int k \<Longrightarrow> length (transposed L k) = length L"
  by (simp add: length_transposed)

lemma transposed_mono: "j \<le> k \<Longrightarrow> length (transposed L j) \<le> length (transposed L k)"
  by (induction k) (auto simp: le_Suc_eq)

lemma SimpleTranspose_outer_result:
  assumes "1 \<le> cl" "cl \<le> ncols + 1" "ncols < 2147483647" "cnt \<le> int (length src)"
    "length (take (nat cnt) src) \<le> length Z"
    "dst = transposed (take (nat cnt) src) (nat (cl - 1))
           @ drop (length (transposed (take (nat cnt) src) (nat (cl - 1)))) Z"
    "dp = int (length (transposed (take (nat cnt) src) (nat (cl - 1))))"
  shows "SimpleTranspose_outer src cnt ncols cl dst dp =
    Some (transposed (take (nat cnt) src) (nat ncols)
      @ drop (length (transposed (take (nat cnt) src) (nat ncols))) Z)"
  using assms
proof (induction "nat (ncols + 1 - cl)" arbitrary: cl dst dp rule: less_induct)
  case less
  note pr = less.prems
  let ?L = "take (nat cnt) src"
  let ?T = "transposed ?L (nat (cl - 1))"
  show ?case
  proof (cases "cl \<le> ncols")
    case False
    then have "cl - 1 = ncols" using pr by simp
    then show ?thesis using False pr(6) by (subst SimpleTranspose_outer.simps) simp
  next
    case True
    let ?C = "cl_list ?L cl"
    have w: "wrap32 (cl + 1) = cl + 1" using pr(1,3) True by (intro wrap32_id) simp_all
    have Suc: "nat cl = Suc (nat (cl - 1))" using pr(1) by simp
    have T': "transposed ?L (nat cl) = ?T @ ?C"
      unfolding Suc using pr(1) by simp
    have a: "length (transposed ?L (nat cl)) \<le> length ?L" by (rule length_transposed_le)
    have b: "length (transposed ?L (nat cl)) = length ?T + length ?C"
      by (simp only: T' length_append)
    have lenT': "length ?T + length ?C \<le> length Z"
      using a b pr(5) by linarith
    have lenT: "length ?T \<le> length Z" using lenT' by simp
    have lend: "length dst = length Z" using pr(6) lenT by simp
    have dp: "nat dp = length ?T" "0 \<le> dp" using pr(7) by simp_all
    have inner: "SimpleTranspose_inner src cnt cl 0 dst dp =
        (take (nat dp) dst @ cl_list (drop (nat 0) ?L) cl
           @ drop (nat dp + length (cl_list (drop (nat 0) ?L) cl)) dst,
         dp + int (length (cl_list (drop (nat 0) ?L) cl)))"
      using pr(4) dp lenT' lend by (intro SimpleTranspose_inner_result) simp_all
    let ?dst1 = "take (nat dp) dst @ ?C @ drop (nat dp + length ?C) dst"
    let ?dp1 = "dp + int (length ?C)"
    have inner': "SimpleTranspose_inner src cnt cl 0 dst dp = (?dst1, ?dp1)"
      using inner by simp
    have tk: "take (nat dp) dst = ?T" using pr(6) dp by simp
    have dr: "drop (nat dp + length ?C) dst = drop (length ?T + length ?C) Z"
      using pr(6) dp by (simp add: add.commute)
    have dst1: "?dst1 = transposed ?L (nat (cl + 1 - 1))
           @ drop (length (transposed ?L (nat (cl + 1 - 1)))) Z"
      using tk dr T' by simp
    have dp1: "?dp1 = int (length (transposed ?L (nat (cl + 1 - 1))))"
      using T' pr(7) by simp
    have dec: "nat (ncols + 1 - (cl + 1)) < nat (ncols + 1 - cl)" using True by simp
    have pre: "1 \<le> cl + 1" "cl + 1 \<le> ncols + 1" using pr(1) True by simp_all
    have "SimpleTranspose_outer src cnt ncols cl dst dp
        = SimpleTranspose_outer src cnt ncols (cl + 1) ?dst1 ?dp1"
      using True inner' w by (subst SimpleTranspose_outer.simps) simp
    also have "\<dots> = Some (transposed ?L (nat ncols) @ drop (length (transposed ?L (nat ncols))) Z)"
      by (rule less.hyps[OF dec pre pr(3,4,5) dst1 dp1])
    finally show ?thesis .
  qed
qed

lemma len_live: "tsm_inv m \<Longrightarrow> length (live m) = nat (num m)"
  by (auto simp: tsm_inv_def live_def)

lemma SimpleTranspose_result:
  assumes "tsm_inv m" "num m \<noteq> 0" "cols m < 2147483647"
  shows "SimpleTranspose m = Some ((transpose_dest m)\<lparr> triElems :=
      transposed (live m) (nat (cols m))
        @ drop (length (transposed (live m) (nat (cols m)))) (replicate (nat (maxSize m)) Triple0) \<rparr>)"
proof -
  let ?Z = "replicate (nat (maxSize m)) Triple0"
  have n: "0 \<le> num m" "num m \<le> maxSize m" "length (triElems m) = nat (maxSize m)"
    using assms(1) by (simp_all add: tsm_inv_def)
  have ne: "live m \<noteq> []" using len_live[OF assms(1)] assms(2) n by auto
  then obtain t where "t \<in> set (live m)" by (cases "live m") auto
  then have c1: "1 \<le> cols m" using assms(1) by (fastforce simp: tsm_inv_def)
  have "SimpleTranspose_outer (triElems m) (num m) (cols m) 1 ?Z 0 =
      Some (transposed (take (nat (num m)) (triElems m)) (nat (cols m))
        @ drop (length (transposed (take (nat (num m)) (triElems m)) (nat (cols m)))) ?Z)"
    using n c1 assms(3) by (intro SimpleTranspose_outer_result) simp_all
  then show ?thesis using assms(2)
    by (simp add: SimpleTranspose_def transpose_dest_def Let_def live_def)
qed


lemma startn_step: "1 \<le> c \<Longrightarrow> startn L c + cntc L c = startn L (c + 1)"
proof -
  assume "1 \<le> c"
  then have "nat (c + 1 - 1) = Suc (nat (c - 1))" "int (Suc (nat (c - 1))) = c" by simp_all
  then show ?thesis by (simp add: startn_def cntc_def length_cl_list)
qed

lemma startn_mono: "c \<le> c' \<Longrightarrow> startn L c \<le> startn L c'"
  unfolding startn_def by (rule transposed_mono) simp

lemma startn_end: "1 \<le> c \<Longrightarrow> c \<le> ncols \<Longrightarrow> startn L c + cntc L c \<le> length (transposed L (nat ncols))"
proof -
  assume a: "1 \<le> c" "c \<le> ncols"
  have "startn L c + cntc L c = startn L (c + 1)" using a by (simp add: startn_step)
  also have "\<dots> \<le> startn L (ncols + 1)" using a by (intro startn_mono) simp
  also have "\<dots> = length (transposed L (nat ncols))" by (simp add: startn_def)
  finally show ?thesis .
qed

lemma cntc_take_le: "cntc (take k L) c \<le> cntc L c"
proof -
  have "L = take k L @ drop k L" by simp
  then have "cntc L c = cntc (take k L) c + cntc (drop k L) c"
    unfolding cntc_def by (metis filter_append length_append)
  then show ?thesis by simp
qed

lemma take_Suc_snoc: "k < length L \<Longrightarrow> take (Suc k) L = take k L @ [L ! k]"
  by (rule take_Suc_conv_app_nth)

lemma cntc_take_Suc:
  "k < length L \<Longrightarrow> cntc (take (Suc k) L) c = cntc (take k L) c + (if col (L ! k) = c then 1 else 0)"
  by (simp add: cntc_def take_Suc_snoc)

lemma filter_nth_at_take:
  assumes "k < length L" "P (L ! k)"
  shows "filter P L ! length (filter P (take k L)) = L ! k"
proof -
  have "L = take k L @ L ! k # drop (Suc k) L" using assms(1) by (simp add: id_take_nth_drop)
  then have "filter P L = filter P (take k L) @ L ! k # filter P (drop (Suc k) L)"
    using assms(2) by (metis filter.simps(2) filter_append)
  then show ?thesis by (simp add: nth_append)
qed

lemma FastTranspose_count_result:
  assumes "0 \<le> s" "cnt \<le> int (length src)"
    "\<forall>t\<in>set (drop (nat s) (take (nat cnt) src)). 0 \<le> col t \<and> nat (col t) < length cNum"
  shows "length (FastTranspose_count src cnt s cNum) = length cNum
    \<and> (\<forall>c. 0 \<le> c \<and> nat c < length cNum \<longrightarrow>
          FastTranspose_count src cnt s cNum ! nat c
            = cNum ! nat c + int (cntc (drop (nat s) (take (nat cnt) src)) c))"
  using assms
proof (induction src cnt s cNum rule: FastTranspose_count.induct)
  case (1 src cnt s cNum)
  let ?L = "take (nat cnt) src"
  show ?case
  proof (cases "s < cnt")
    case False
    then have "drop (nat s) ?L = []" using "1.prems" by simp
    then have z: "cntc (drop (nat s) ?L) c = 0" for c by (simp add: cntc_def)
    have "FastTranspose_count src cnt s cNum = cNum"
      using False by (subst FastTranspose_count.simps) simp
    then show ?thesis using z by simp
  next
    case True
    note d = drop_take_step[OF "1.prems"(1) True "1.prems"(2)]
    let ?c0 = "col (src ! nat s)"
    let ?cNum1 = "cNum[nat ?c0 := cNum ! nat ?c0 + 1]"
    have c0: "0 \<le> ?c0 \<and> nat ?c0 < length cNum" using "1.prems"(3) d by simp
    have rest: "\<forall>t\<in>set (drop (nat (s + 1)) ?L). 0 \<le> col t \<and> nat (col t) < length ?cNum1"
      using "1.prems"(3) d by simp
    have ih: "length (FastTranspose_count src cnt (s + 1) ?cNum1) = length ?cNum1
      \<and> (\<forall>c. 0 \<le> c \<and> nat c < length ?cNum1 \<longrightarrow>
          FastTranspose_count src cnt (s + 1) ?cNum1 ! nat c
            = ?cNum1 ! nat c + int (cntc (drop (nat (s + 1)) ?L) c))"
      using "1.IH"[OF True _ "1.prems"(2) rest] "1.prems"(1) by simp
    have eq: "FastTranspose_count src cnt s cNum = FastTranspose_count src cnt (s + 1) ?cNum1"
      using True by (subst FastTranspose_count.simps) simp
    have "FastTranspose_count src cnt (s + 1) ?cNum1 ! nat c
        = cNum ! nat c + int (cntc (drop (nat s) ?L) c)"
      if c: "0 \<le> c \<and> nat c < length cNum" for c
    proof -
      have "FastTranspose_count src cnt (s + 1) ?cNum1 ! nat c
          = ?cNum1 ! nat c + int (cntc (drop (nat (s + 1)) ?L) c)"
        using ih c by simp
      moreover have "cntc (drop (nat s) ?L) c = (if ?c0 = c then 1 else 0) + cntc (drop (nat (s + 1)) ?L) c"
        unfolding d cntc_def by simp
      moreover have "?cNum1 ! nat c = cNum ! nat c + (if ?c0 = c then 1 else 0)"
      proof (cases "?c0 = c")
        case True
        then show ?thesis using c by simp
      next
        case False
        then have "nat ?c0 \<noteq> nat c" using c c0 by auto
        then show ?thesis using False by simp
      qed
      ultimately show ?thesis by simp
    qed
    then show ?thesis using ih eq by simp
  qed
qed

lemma FastTranspose_pos_result:
  assumes "2 \<le> cl" "cl \<le> ncols + 1" "ncols < 2147483647" "length cPos = nat (ncols + 1)"
    "\<forall>c. 1 \<le> c \<and> c \<le> ncols \<longrightarrow> cNum ! nat c = int (cntc L c)"
    "\<forall>c. 1 \<le> c \<and> c < cl \<longrightarrow> cPos ! nat c = int (startn L c)"
  shows "\<exists>R. FastTranspose_pos ncols cl cNum cPos = Some R \<and> length R = nat (ncols + 1)
    \<and> (\<forall>c. 1 \<le> c \<and> c \<le> ncols \<longrightarrow> R ! nat c = int (startn L c))"
  using assms
proof (induction "nat (ncols + 1 - cl)" arbitrary: cl cPos rule: less_induct)
  case less
  note pr = less.prems
  show ?case
  proof (cases "cl \<le> ncols")
    case False
    then have cl: "cl = ncols + 1" using pr by simp
    have "FastTranspose_pos ncols cl cNum cPos = Some cPos"
      using False by (subst FastTranspose_pos.simps) simp
    then show ?thesis using cl pr by simp
  next
    case True
    let ?cPosI = "cPos[nat cl := cPos ! nat (cl - 1) + cNum ! nat (cl - 1)]"
    have w: "wrap32 (cl + 1) = cl + 1" using pr(1,3) True by (intro wrap32_id) simp_all
    have v: "cPos ! nat (cl - 1) + cNum ! nat (cl - 1) = int (startn L cl)"
    proof -
      have "cPos ! nat (cl - 1) = int (startn L (cl - 1))" using pr(1,6) by simp
      moreover have "cNum ! nat (cl - 1) = int (cntc L (cl - 1))" using pr(1,5) True by simp
      moreover have "startn L (cl - 1) + cntc L (cl - 1) = startn L (cl - 1 + 1)"
        using pr(1) by (intro startn_step) simp
      ultimately show ?thesis by simp
    qed
    have inv: "\<forall>c. 1 \<le> c \<and> c < cl + 1 \<longrightarrow> ?cPosI ! nat c = int (startn L c)"
    proof (intro allI impI)
      fix c assume c: "1 \<le> c \<and> c < cl + 1"
      show "?cPosI ! nat c = int (startn L c)"
      proof (cases "c = cl")
        case True
        have "nat cl < length cPos" using pr(1,4) \<open>cl \<le> ncols\<close> by linarith
        then show ?thesis using v True by simp
      next
        case False
        then have "nat c \<noteq> nat cl" using c pr(1) by auto
        then show ?thesis using pr(6) c False by simp
      qed
    qed
    have eq: "FastTranspose_pos ncols cl cNum cPos = FastTranspose_pos ncols (cl + 1) cNum ?cPosI"
      using True w by (subst FastTranspose_pos.simps) simp
    have dec: "nat (ncols + 1 - (cl + 1)) < nat (ncols + 1 - cl)" using True by simp
    have pre: "2 \<le> cl + 1" "cl + 1 \<le> ncols + 1" "length ?cPosI = nat (ncols + 1)"
      using pr(1,4) True by simp_all
    show ?thesis unfolding eq by (rule less.hyps[OF dec pre(1,2) pr(3) pre(3) pr(5) inv])
  qed
qed


lemma FastTranspose_move_result:
  assumes "0 \<le> s" "s \<le> cnt" "cnt \<le> int (length src)" "L = take (nat cnt) src"
    "\<forall>t\<in>set L. 1 \<le> col t \<and> col t \<le> ncols"
    "length cPos = nat (ncols + 1)" "length dst = length Z" "length L \<le> length Z"
    "\<forall>c. 1 \<le> c \<and> c \<le> ncols \<longrightarrow> cPos ! nat c = int (startn L c + cntc (take (nat s) L) c)"
    "\<forall>c j. 1 \<le> c \<and> c \<le> ncols \<and> j < cntc (take (nat s) L) c \<longrightarrow> dst ! (startn L c + j) = cl_list L c ! j"
    "\<forall>i. length L \<le> i \<and> i < length Z \<longrightarrow> dst ! i = Z ! i"
  shows "length (FastTranspose_move src cnt s cPos dst) = length Z
    \<and> (\<forall>c j. 1 \<le> c \<and> c \<le> ncols \<and> j < cntc L c \<longrightarrow>
          FastTranspose_move src cnt s cPos dst ! (startn L c + j) = cl_list L c ! j)
    \<and> (\<forall>i. length L \<le> i \<and> i < length Z \<longrightarrow> FastTranspose_move src cnt s cPos dst ! i = Z ! i)"
  using assms
proof (induction src cnt s cPos dst rule: FastTranspose_move.induct)
  case (1 src cnt s cPos dst)
  note I1 = "1.prems"(9) and I2 = "1.prems"(10) and I3 = "1.prems"(11)
  have lenL: "length L = nat cnt" using "1.prems"(3,4) by simp
  show ?case
  proof (cases "s < cnt")
    case False
    then have "s = cnt" using "1.prems"(2) by simp
    then have tk: "take (nat s) L = L" using lenL by simp
    have eq: "FastTranspose_move src cnt s cPos dst = dst"
      using False by (subst FastTranspose_move.simps) simp
    show ?thesis unfolding eq using "1.prems"(7) I2 I3 tk by simp
  next
    case True
    define k where "k = nat s"
    have k: "k < length L" "nat (s + 1) = Suc k" "nat s = k"
      using True "1.prems"(1) lenL by (simp_all add: k_def)
    let ?t = "src ! nat s"
    have t: "?t = L ! k" using k "1.prems"(4) by simp
    then have tin: "?t \<in> set L" using k(1) by simp
    define c0 where "c0 = col ?t"
    have c0: "1 \<le> c0" "c0 \<le> ncols" using tin "1.prems"(5) by (simp_all add: c0_def)
    define q where "q = startn L c0 + cntc (take k L) c0"
    have dp: "cPos ! nat c0 = int q" using I1 c0 k(3) by (simp add: q_def)
    have cS: "cntc (take (Suc k) L) c = cntc (take k L) c + (if c0 = c then 1 else 0)" for c
      using cntc_take_Suc[OF k(1)] t by (simp add: c0_def)
    have "cntc (take (Suc k) L) c0 \<le> cntc L c0" by (rule cntc_take_le)
    then have q1: "q < startn L c0 + cntc L c0" using cS[of c0] by (simp add: q_def)
    have "startn L c0 + cntc L c0 \<le> length (transposed L (nat ncols))"
      using c0 by (rule startn_end)
    also have "\<dots> \<le> length L" by (rule length_transposed_le)
    finally have q2: "q < length L" using q1 by simp
    let ?dst1 = "put_transposed dst (cPos ! nat c0) ?t"
    let ?cPosI = "cPos[nat c0 := cPos ! nat c0 + 1]"
    have dst1: "?dst1 = dst[q := swap_rc ?t]" using dp by (simp add: put_transposed_eq)
    have eq: "FastTranspose_move src cnt s cPos dst = FastTranspose_move src cnt (s + 1) ?cPosI ?dst1"
      using True by (subst FastTranspose_move.simps) (simp add: Let_def c0_def)
    have J1: "\<forall>c. 1 \<le> c \<and> c \<le> ncols \<longrightarrow>
        ?cPosI ! nat c = int (startn L c + cntc (take (nat (s + 1)) L) c)"
    proof (intro allI impI)
      fix c assume c: "1 \<le> c \<and> c \<le> ncols"
      show "?cPosI ! nat c = int (startn L c + cntc (take (nat (s + 1)) L) c)"
      proof (cases "c = c0")
        case True
        have "nat c0 < length cPos" using c0 "1.prems"(6) by linarith
        then show ?thesis using True dp cS[of c0] k(2) by (simp add: q_def)
      next
        case False
        then have "nat c \<noteq> nat c0" using c c0 by auto
        then have "?cPosI ! nat c = cPos ! nat c" by simp
        then show ?thesis using I1 c False cS[of c] k by simp
      qed
    qed
    have J2: "\<forall>c j. 1 \<le> c \<and> c \<le> ncols \<and> j < cntc (take (nat (s + 1)) L) c \<longrightarrow>
        ?dst1 ! (startn L c + j) = cl_list L c ! j"
    proof (intro allI impI)
      fix c j assume cj: "1 \<le> c \<and> c \<le> ncols \<and> j < cntc (take (nat (s + 1)) L) c"
      then have j: "j < cntc (take k L) c + (if c0 = c then 1 else 0)" using cS[of c] k(2) by simp
      show "?dst1 ! (startn L c + j) = cl_list L c ! j"
      proof (cases "c = c0 \<and> j = cntc (take k L) c0")
        case True
        then have pos: "startn L c + j = q" by (simp add: q_def)
        have "q < length dst" using q2 "1.prems"(7,8) by simp
        then have "?dst1 ! (startn L c + j) = swap_rc ?t" using pos dst1 by simp
        moreover have "cl_list L c ! j = swap_rc ?t"
        proof -
          have "j < length (filter (\<lambda>t. col t = c0) L)"
            using True q1 by (simp add: q_def cntc_def)
          then have "cl_list L c0 ! j = swap_rc (filter (\<lambda>t. col t = c0) L ! j)"
            by (simp add: cl_list_def)
          moreover have "filter (\<lambda>t. col t = c0) L ! length (filter (\<lambda>t. col t = c0) (take k L)) = L ! k"
            using k(1) t by (intro filter_nth_at_take) (simp_all add: c0_def)
          ultimately show ?thesis using True t by (simp add: cntc_def)
        qed
        ultimately show ?thesis by simp
      next
        case False
        then have j': "j < cntc (take k L) c" using j by (cases "c0 = c") auto
        have jL: "j < cntc L c" using j' cntc_take_le[of k L c] by simp
        have ne: "startn L c + j \<noteq> q"
        proof (cases "c = c0")
          case True
          then show ?thesis using j' by (simp add: q_def)
        next
          case F2: False
          show ?thesis
          proof (cases "c < c0")
            case True
            have "startn L c + j < startn L c + cntc L c" using jL by simp
            also have "\<dots> = startn L (c + 1)" using cj by (simp add: startn_step)
            also have "\<dots> \<le> startn L c0" using True by (intro startn_mono) simp
            finally show ?thesis by (simp add: q_def)
          next
            case False
            then have gt: "c0 < c" using F2 by simp
            have "q < startn L c0 + cntc L c0" by (rule q1)
            also have "\<dots> = startn L (c0 + 1)" using c0 by (simp add: startn_step)
            also have "\<dots> \<le> startn L c" using gt by (intro startn_mono) simp
            finally show ?thesis by simp
          qed
        qed
        have "?dst1 ! (startn L c + j) = dst ! (startn L c + j)" using ne dst1 by simp
        then show ?thesis using I2 cj j' k(3) by simp
      qed
    qed
    have J3: "\<forall>i. length L \<le> i \<and> i < length Z \<longrightarrow> ?dst1 ! i = Z ! i"
    proof (intro allI impI)
      fix i assume i: "length L \<le> i \<and> i < length Z"
      then have "i \<noteq> q" using q2 by simp
      then show "?dst1 ! i = Z ! i" using I3 i dst1 by simp
    qed
    have len1: "length ?cPosI = nat (ncols + 1)" "length ?dst1 = length Z"
      using "1.prems"(6,7) dst1 by simp_all
    have s1: "0 \<le> s + 1" "s + 1 \<le> cnt" using True "1.prems"(1) by simp_all
    note ih = "1.IH"[OF True refl refl s1 "1.prems"(3,4,5), folded c0_def, OF len1 "1.prems"(8) J1 J2 J3]
    show ?thesis unfolding eq using ih .
  qed
qed


lemma transposed_nth_decompose:
  "i < length (transposed L k) \<Longrightarrow>
   \<exists>c j. 1 \<le> c \<and> c \<le> int k \<and> j < cntc L c \<and> i = startn L c + j
         \<and> transposed L k ! i = cl_list L c ! j"
proof (induction k)
  case 0
  then show ?case by simp
next
  case (Suc k)
  show ?case
  proof (cases "i < length (transposed L k)")
    case True
    from Suc.IH[OF True] obtain c j where
      "1 \<le> c \<and> c \<le> int k \<and> j < cntc L c \<and> i = startn L c + j \<and> transposed L k ! i = cl_list L c ! j"
      by blast
    moreover have "transposed L (Suc k) ! i = transposed L k ! i" using True by (simp add: nth_append)
    moreover have "int k \<le> int (Suc k)" by simp
    ultimately have "1 \<le> c \<and> c \<le> int (Suc k) \<and> j < cntc L c \<and> i = startn L c + j
        \<and> transposed L (Suc k) ! i = cl_list L c ! j" by (metis order_trans)
    then show ?thesis by blast
  next
    case False
    define j where "j = i - length (transposed L k)"
    have i: "i = length (transposed L k) + j" using False by (simp add: j_def)
    have j: "j < length (cl_list L (int (Suc k)))" using Suc.prems i by simp
    have st: "startn L (int (Suc k)) = length (transposed L k)" by (simp add: startn_def)
    have "transposed L (Suc k) ! i = cl_list L (int (Suc k)) ! j" using i by (simp add: nth_append)
    then have "1 \<le> int (Suc k) \<and> int (Suc k) \<le> int (Suc k) \<and> j < cntc L (int (Suc k))
        \<and> i = startn L (int (Suc k)) + j \<and> transposed L (Suc k) ! i = cl_list L (int (Suc k)) ! j"
      using j i st by (simp add: cntc_def length_cl_list)
    then show ?thesis by blast
  qed
qed

lemma FastTranspose_result:
  assumes "tsm_inv m" "num m \<noteq> 0" "cols m < 2147483647"
  shows "FastTranspose m = Some (Inr ((transpose_dest m)\<lparr> triElems :=
      transposed (live m) (nat (cols m))
        @ drop (length (transposed (live m) (nat (cols m)))) (replicate (nat (maxSize m)) Triple0) \<rparr>))"
proof -
  let ?Z = "replicate (nat (maxSize m)) Triple0"
  let ?src = "triElems m"
  let ?L = "live m"
  let ?T = "transposed ?L (nat (cols m))"
  have n: "0 \<le> num m" "num m \<le> maxSize m" "length ?src = nat (maxSize m)"
    using assms(1) by (simp_all add: tsm_inv_def)
  have L: "?L = take (nat (num m)) ?src" by (simp add: live_def)
  have lenL: "length ?L = nat (num m)" by (rule len_live[OF assms(1)])
  have rng: "\<forall>t\<in>set ?L. 1 \<le> col t \<and> col t \<le> cols m" using assms(1) by (simp add: tsm_inv_def)
  have ne: "?L \<noteq> []" using lenL assms(2) n by auto
  then obtain t where "t \<in> set ?L" by (cases ?L) auto
  then have c1: "1 \<le> cols m" using rng by fastforce
  have sz: "wrap32 (cols m + 1) = cols m + 1" using c1 assms(3) by (intro wrap32_id) simp_all
  have lenT: "length ?T = length ?L" using rng c1 by (intro length_transposed_all) simp
  let ?cNumI = "replicate (nat (cols m + 1)) (0::int)"
  let ?cNum = "FastTranspose_count ?src (num m) 0 ?cNumI"
  let ?cPosI = "?cNumI[1 := 0]"
  have cn: "length ?cNum = length ?cNumI
    \<and> (\<forall>c. 0 \<le> c \<and> nat c < length ?cNumI \<longrightarrow>
          ?cNum ! nat c = ?cNumI ! nat c + int (cntc (drop (nat 0) (take (nat (num m)) ?src)) c))"
  proof (rule FastTranspose_count_result)
    show "(0::int) \<le> 0" by simp
    show "num m \<le> int (length ?src)" using n by simp
    show "\<forall>t\<in>set (drop (nat 0) (take (nat (num m)) ?src)). 0 \<le> col t \<and> nat (col t) < length ?cNumI"
      using rng L by auto
  qed
  have cNum: "\<forall>c. 1 \<le> c \<and> c \<le> cols m \<longrightarrow> ?cNum ! nat c = int (cntc ?L c)"
  proof (intro allI impI)
    fix c assume c: "1 \<le> c \<and> c \<le> cols m"
    then have "0 \<le> c \<and> nat c < length ?cNumI" by simp
    then have "?cNum ! nat c = ?cNumI ! nat c + int (cntc (drop (nat 0) (take (nat (num m)) ?src)) c)"
      using cn by blast
    moreover have "?cNumI ! nat c = 0" using c by simp
    ultimately show "?cNum ! nat c = int (cntc ?L c)" using L by simp
  qed
  have "\<exists>R. FastTranspose_pos (cols m) 2 ?cNum ?cPosI = Some R \<and> length R = nat (cols m + 1)
    \<and> (\<forall>c. 1 \<le> c \<and> c \<le> cols m \<longrightarrow> R ! nat c = int (startn ?L c))"
  proof (rule FastTranspose_pos_result[OF _ _ assms(3) _ cNum])
    show "(2::int) \<le> 2" by simp
    show "2 \<le> cols m + 1" using c1 by simp
    show "length ?cPosI = nat (cols m + 1)" by simp
    show "\<forall>c. 1 \<le> c \<and> c < 2 \<longrightarrow> ?cPosI ! nat c = int (startn ?L c)"
    proof (intro allI impI)
      fix c :: int assume "1 \<le> c \<and> c < 2"
      then have "c = 1" by simp
      then show "?cPosI ! nat c = int (startn ?L c)" using c1 by (simp add: startn_def)
    qed
  qed
  then obtain cPos where cp: "FastTranspose_pos (cols m) 2 ?cNum ?cPosI = Some cPos"
    "length cPos = nat (cols m + 1)"
    "\<forall>c. 1 \<le> c \<and> c \<le> cols m \<longrightarrow> cPos ! nat c = int (startn ?L c)"
    by blast
  let ?R = "FastTranspose_move ?src (num m) 0 cPos ?Z"
  have mv: "length ?R = length ?Z
    \<and> (\<forall>c j. 1 \<le> c \<and> c \<le> cols m \<and> j < cntc ?L c \<longrightarrow> ?R ! (startn ?L c + j) = cl_list ?L c ! j)
    \<and> (\<forall>i. length ?L \<le> i \<and> i < length ?Z \<longrightarrow> ?R ! i = ?Z ! i)"
  proof (rule FastTranspose_move_result[OF _ _ _ L rng])
    show "(0::int) \<le> 0" by simp
    show "0 \<le> num m" by (rule n(1))
    show "num m \<le> int (length ?src)" using n by simp
    show "length cPos = nat (cols m + 1)" by (rule cp(2))
    show "length ?Z = length ?Z" by simp
    show "length ?L \<le> length ?Z" using lenL n by simp
    show "\<forall>c. 1 \<le> c \<and> c \<le> cols m \<longrightarrow> cPos ! nat c = int (startn ?L c + cntc (take (nat 0) ?L) c)"
      using cp(3) by (simp add: cntc_def)
    show "\<forall>c j. 1 \<le> c \<and> c \<le> cols m \<and> j < cntc (take (nat 0) ?L) c \<longrightarrow> ?Z ! (startn ?L c + j) = cl_list ?L c ! j"
      by (simp add: cntc_def)
    show "\<forall>i. length ?L \<le> i \<and> i < length ?Z \<longrightarrow> ?Z ! i = ?Z ! i" by simp
  qed
  have R: "?R = ?T @ drop (length ?T) ?Z"
  proof (rule nth_equalityI)
    show "length ?R = length (?T @ drop (length ?T) ?Z)"
      using mv lenT lenL n by simp
  next
    fix i assume "i < length ?R"
    then have iZ: "i < length ?Z" using mv by simp
    show "?R ! i = (?T @ drop (length ?T) ?Z) ! i"
    proof (cases "i < length ?T")
      case True
      from transposed_nth_decompose[OF True] obtain c j where
        cj: "1 \<le> c \<and> c \<le> int (nat (cols m)) \<and> j < cntc ?L c \<and> i = startn ?L c + j
            \<and> ?T ! i = cl_list ?L c ! j" by blast
      then have "1 \<le> c \<and> c \<le> cols m \<and> j < cntc ?L c" using c1 by simp
      then have "?R ! (startn ?L c + j) = cl_list ?L c ! j" using mv by blast
      then have "?R ! i = ?T ! i" using cj by metis
      moreover have "(?T @ drop (length ?T) ?Z) ! i = ?T ! i" using True by (simp add: nth_append)
      ultimately show ?thesis by simp
    next
      case False
      then have "length ?L \<le> i \<and> i < length ?Z" using lenT iZ by simp
      then have "?R ! i = ?Z ! i" using mv by blast
      moreover have "(?T @ drop (length ?T) ?Z) ! i = ?Z ! i"
        using False iZ by (simp add: nth_append)
      ultimately show ?thesis by simp
    qed
  qed
  have nneg: "\<not> cols m + 1 < 0" using c1 by simp
  show ?thesis using assms(2) R cp(1) sz nneg
    by (simp add: FastTranspose_def transpose_dest_def Let_def)
qed

lemma SM_demo_is_demo:
  "SM_demo = snd (SetElem (snd (SetElem (snd (SetElem (snd (SetElem (snd (SetElem (snd (SetElem
      (TriSparseMatrix_new 5 6 16) 1 3 2)) 2 6 8)) 3 1 1)) 3 3 3)) 5 1 4)) 5 3 6)"
  by code_simp

lemma SM_wide_is_built:
  "SetElem (TriSparseMatrix_new 1 2147483647 4) 1 1 5 = (True, SM_wide)"
  by code_simp

lemma SM_demo_inv: "tsm_inv SM_demo"
  by code_simp

text \<open>
  With \<open>INT_MAX\<close> columns the column loop of \<open>SimpleTranspose\<close> does not return: the
  counter stays an \<open>int\<close>, so the test \<open>col <= source.cols\<close> holds at every round.
\<close>

lemma wrap32_range: "- 2147483648 \<le> wrap32 x \<and> wrap32 x \<le> 2147483647"
  by (simp add: wrap32_def)

lemma SimpleTranspose_outer_INT_MAX_no_return:
  assumes "SimpleTranspose_outer src cnt ncols cl dst dp = Some y"
  shows "\<not> (ncols = 2147483647 \<and> - 2147483648 \<le> cl \<and> cl \<le> 2147483647)"
proof (rule SimpleTranspose_outer.raw_induct[where P = "\<lambda>src cnt ncols cl dst dp y.
          \<not> (ncols = 2147483647 \<and> - 2147483648 \<le> cl \<and> cl \<le> 2147483647)", OF _ assms])
  fix f :: "Triple list \<Rightarrow> int \<Rightarrow> int \<Rightarrow> int \<Rightarrow> Triple list \<Rightarrow> int \<Rightarrow> Triple list option"
  fix src cnt ncols cl dst dp y
  assume IH: "\<And>src cnt ncols cl dst dp y. f src cnt ncols cl dst dp = Some y \<Longrightarrow>
      \<not> (ncols = 2147483647 \<and> - 2147483648 \<le> cl \<and> cl \<le> 2147483647)"
    and eq: "(if cl \<le> ncols
      then case SimpleTranspose_inner src cnt cl 0 dst dp of
           (dst1, destPos1) \<Rightarrow> f src cnt ncols (wrap32 (cl + 1)) dst1 destPos1
      else Some dst) = Some y"
  show "\<not> (ncols = 2147483647 \<and> - 2147483648 \<le> cl \<and> cl \<le> 2147483647)"
  proof
    assume a: "ncols = 2147483647 \<and> - 2147483648 \<le> cl \<and> cl \<le> 2147483647"
    obtain d1 p1 where i: "SimpleTranspose_inner src cnt cl 0 dst dp = (d1, p1)"
      by (cases "SimpleTranspose_inner src cnt cl 0 dst dp") auto
    have "f src cnt ncols (wrap32 (cl + 1)) d1 p1 = Some y" using eq a i by simp
    then have "\<not> (ncols = 2147483647 \<and> - 2147483648 \<le> wrap32 (cl + 1)
        \<and> wrap32 (cl + 1) \<le> 2147483647)"
      by (rule IH)
    then show False using a wrap32_range[of "cl + 1"] by simp
  qed
qed

lemma SimpleTranspose_SM_wide_no_return: "SimpleTranspose SM_wide = None"
proof -
  have "SimpleTranspose_outer (triElems SM_wide) (num SM_wide) 2147483647 1
      (replicate 4 Triple0) 0 = None"
    using SimpleTranspose_outer_INT_MAX_no_return[of "triElems SM_wide" "num SM_wide"
        2147483647 1 "replicate 4 Triple0" 0]
    by (cases "SimpleTranspose_outer (triElems SM_wide) (num SM_wide) 2147483647 1
        (replicate 4 Triple0) 0") auto
  then show ?thesis
    by (simp add: SimpleTranspose_def SM_wide_def transpose_dest_def Let_def)
qed

text \<open>
  C9, as the code has it.  The claim as stated fails for a matrix with \<open>INT_MAX\<close>
  columns, which the constructor and \<open>SetElem\<close> build and whose table is sorted:
  \<open>FastTranspose\<close> throws \<open>std::length_error\<close> when it creates its vectors of
  \<open>source.cols+1\<close> counters, and produces no destination.
\<close>

theorem C9_FastTranspose_INT_MAX_columns_counterexample:
  "SetElem (TriSparseMatrix_new 1 2147483647 4) 1 1 5 = (True, SM_wide)
   \<and> tsm_inv SM_wide
   \<and> FastTranspose SM_wide = Some (Inl length_error)"
  by code_simp

text \<open>
  Claim C9 (amended).  For every matrix that satisfies the class invariant \<open>tsm_inv\<close>
  (the triples in use are strictly sorted by row and column, the state that
  \<open>SetElem\<close> maintains) and that is empty or has fewer than \<open>INT_MAX\<close> columns,
  \<open>SimpleTranspose\<close> and \<open>FastTranspose\<close> both return, without an exception, and
  give the same destination \<open>d\<close>: the same \<open>rows\<close>, \<open>cols\<close>, \<open>num\<close>, capacity and
  array of triples.  The triples in use of \<open>d\<close> are those of the source, rows and
  columns exchanged, column by column.
\<close>

theorem C9_SimpleTranspose_eq_FastTranspose:
  assumes "tsm_inv m" "num m = 0 \<or> cols m < 2147483647"
  shows "\<exists>d. SimpleTranspose m = Some d \<and> FastTranspose m = Some (Inr d)
      \<and> rows d = cols m \<and> cols d = rows m \<and> num d = num m \<and> maxSize d = maxSize m
      \<and> live d = transposed (live m) (nat (cols m))"
proof (cases "num m = 0")
  case True
  have e: "transposed [] k = []" for k by (induction k) (simp_all add: cl_list_def)
  have "live m = []" using True by (simp add: live_def)
  then have "live (transpose_dest m) = transposed (live m) (nat (cols m))"
    using True e by (simp add: live_def transpose_dest_def)
  moreover have "SimpleTranspose m = Some (transpose_dest m)"
    "FastTranspose m = Some (Inr (transpose_dest m))"
    using True by (simp_all add: SimpleTranspose_def FastTranspose_def transpose_dest_def Let_def)
  ultimately show ?thesis by (simp add: transpose_dest_def)
next
  case False
  then have c: "cols m < 2147483647" using assms(2) by simp
  let ?T = "transposed (live m) (nat (cols m))"
  let ?d = "(transpose_dest m)\<lparr> triElems :=
      ?T @ drop (length ?T) (replicate (nat (maxSize m)) Triple0) \<rparr>"
  have rng: "\<forall>t\<in>set (live m). 1 \<le> col t \<and> col t \<le> cols m"
    using assms(1) by (simp add: tsm_inv_def)
  have "\<forall>t\<in>set (live m). 1 \<le> col t \<and> col t \<le> int (nat (cols m))"
    using rng by fastforce
  then have "length ?T = length (live m)" by (rule length_transposed_all)
  then have lenT: "length ?T = nat (num m)" using len_live[OF assms(1)] by simp
  have lv: "live ?d = ?T" using lenT by (simp add: live_def transpose_dest_def)
  have "SimpleTranspose m = Some ?d" by (rule SimpleTranspose_result[OF assms(1) False c])
  moreover have "FastTranspose m = Some (Inr ?d)" by (rule FastTranspose_result[OF assms(1) False c])
  ultimately show ?thesis using lv by (simp add: transpose_dest_def)
qed

text \<open>
  The theorem at the matrix of the demonstration program: both functions give the
  6 x 5 matrix whose six triples are listed column by column; and at the empty
  matrix of one row and \<open>INT_MAX\<close> columns, where both return the empty
  destination.
\<close>

theorem C9_SimpleTranspose_eq_FastTranspose_witness:
  "tsm_inv SM_demo \<and> cols SM_demo < 2147483647
   \<and> (\<exists>d. SimpleTranspose SM_demo = Some d \<and> FastTranspose SM_demo = Some (Inr d)
        \<and> rows d = 6 \<and> cols d = 5 \<and> num d = 6
        \<and> live d =
           [\<lparr> row = 1, col = 3, val = 1 \<rparr>, \<lparr> row = 1, col = 5, val = 4 \<rparr>,
            \<lparr> row = 3, col = 1, val = 2 \<rparr>, \<lparr> row = 3, col = 3, val = 3 \<rparr>,
            \<lparr> row = 3, col = 5, val = 6 \<rparr>, \<lparr> row = 6, col = 2, val = 8 \<rparr>])
   \<and> tsm_inv (TriSparseMatrix_new 1 2147483647 4)
   \<and> num (TriSparseMatrix_new 1 2147483647 4) = 0
   \<and> (\<exists>d. SimpleTranspose (TriSparseMatrix_new 1 2147483647 4) = Some d
        \<and> FastTranspose (TriSparseMatrix_new 1 2147483647 4) = Some (Inr d)
        \<and> rows d = 2147483647 \<and> cols d = 1 \<and> num d = 0 \<and> live d = [])"
proof -
  let ?e = "TriSparseMatrix_new 1 2147483647 4"
  have he: "tsm_inv ?e" by (rule tsm_inv_new)
  have fe: "num ?e = 0" "cols ?e = 2147483647" "rows ?e = 1"
    by (simp_all add: TriSparseMatrix_new_def)
  then have he2: "num ?e = 0 \<or> cols ?e < 2147483647" by simp
  from C9_SimpleTranspose_eq_FastTranspose[OF he he2] obtain d2 where
    d2: "SimpleTranspose ?e = Some d2" "FastTranspose ?e = Some (Inr d2)"
      "rows d2 = cols ?e" "cols d2 = rows ?e" "num d2 = num ?e"
    by blast
  have le: "live d2 = []" using d2(5) fe(1) by (simp add: live_def)
  have e: "\<exists>d. SimpleTranspose ?e = Some d \<and> FastTranspose ?e = Some (Inr d)
        \<and> rows d = 2147483647 \<and> cols d = 1 \<and> num d = 0 \<and> live d = []"
    using d2 fe le by auto
  have h: "tsm_inv SM_demo" by (rule SM_demo_inv)
  have c: "cols SM_demo < 2147483647" by (simp add: SM_demo_def)
  then have h2: "num SM_demo = 0 \<or> cols SM_demo < 2147483647" by simp
  from C9_SimpleTranspose_eq_FastTranspose[OF h h2] obtain d where
    d: "SimpleTranspose SM_demo = Some d" "FastTranspose SM_demo = Some (Inr d)"
      "rows d = cols SM_demo" "cols d = rows SM_demo" "num d = num SM_demo"
      "live d = transposed (live SM_demo) (nat (cols SM_demo))"
    by blast
  have f: "cols SM_demo = 6" "rows SM_demo = 5" "num SM_demo = 6" by (simp_all add: SM_demo_def)
  have l: "transposed (live SM_demo) (nat (cols SM_demo)) =
       [\<lparr> row = 1, col = 3, val = 1 \<rparr>, \<lparr> row = 1, col = 5, val = 4 \<rparr>,
        \<lparr> row = 3, col = 1, val = 2 \<rparr>, \<lparr> row = 3, col = 3, val = 3 \<rparr>,
        \<lparr> row = 3, col = 5, val = 6 \<rparr>, \<lparr> row = 6, col = 2, val = 8 \<rparr>]"
    by code_simp
  have "\<exists>d. SimpleTranspose SM_demo = Some d \<and> FastTranspose SM_demo = Some (Inr d)
        \<and> rows d = 6 \<and> cols d = 5 \<and> num d = 6
        \<and> live d =
           [\<lparr> row = 1, col = 3, val = 1 \<rparr>, \<lparr> row = 1, col = 5, val = 4 \<rparr>,
            \<lparr> row = 3, col = 1, val = 2 \<rparr>, \<lparr> row = 3, col = 3, val = 3 \<rparr>,
            \<lparr> row = 3, col = 5, val = 6 \<rparr>, \<lparr> row = 6, col = 2, val = 8 \<rparr>]"
    using d f l by auto
  then show ?thesis using h c he fe(1) e by blast
qed

section \<open>AVL insertion keeps a balanced search tree\<close>


lemma subtree_height_nonneg: "0 \<le> subtree_height t"
  by (induction t) auto

lemma subtree_height_pos: "t \<noteq> Null \<Longrightarrow> 1 \<le> subtree_height t"
  using subtree_height_nonneg by (cases t) (auto simp: max_def)

lemma height_subtree_height: "heights_ok t \<Longrightarrow> height t = subtree_height t"
  by (cases t) auto


lemma rebalance_left:
  assumes l: "is_avl l'" and r: "is_avl r"
    and lo: "\<forall>x\<in>AVL_keys l'. x < nk" and hi: "\<forall>x\<in>AVL_keys r. nk < x"
    and k: "k \<in> AVL_keys l'"
    and d: "subtree_height r - 1 \<le> subtree_height l'" "subtree_height l' \<le> subtree_height r + 2"
    and g: "subtree_height l' = subtree_height r + 2 \<longrightarrow> grown l' k"
  shows "\<exists>t'. AVLInsert_rebalance (AVLNode nk h0 l' r) k = Some t' \<and> is_avl t'
      \<and> AVL_keys t' = insert nk (AVL_keys l' \<union> AVL_keys r)
      \<and> (subtree_height l' \<le> subtree_height r + 1 \<longrightarrow>
            t' = AVLNode nk (1 + max (subtree_height l') (subtree_height r)) l' r)
      \<and> (subtree_height l' = subtree_height r + 2 \<longrightarrow> subtree_height t' = subtree_height l')"
proof -
  have hl: "height l' = subtree_height l'" using l by (simp add: is_avl_def height_subtree_height)
  have hr: "height r = subtree_height r" using r by (simp add: is_avl_def height_subtree_height)
  show ?thesis
  proof (cases "subtree_height l' \<le> subtree_height r + 1")
    case True
    let ?t = "AVLNode nk (1 + max (subtree_height l') (subtree_height r)) l' r"
    have "AVLInsert_rebalance (AVLNode nk h0 l' r) k = Some ?t"
      using True d hl hr by (simp add: Let_def)
    moreover have "is_avl ?t" using l r lo hi True d by (auto simp: is_avl_def)
    ultimately show ?thesis using True by simp
  next
    case False
    then have two: "subtree_height l' = subtree_height r + 2" using d by simp
    then have gr: "grown l' k" using g by simp
    obtain lk lh ll lr where l': "l' = AVLNode lk lh ll lr" using gr by (cases l') auto
    have rn: "0 \<le> subtree_height r" by (rule subtree_height_nonneg)
    have notleaf: "\<not> (ll = Null \<and> lr = Null)" using two rn l' by auto
    have avl_ll: "is_avl ll" and avl_lr: "is_avl lr" using l l' by (auto simp: is_avl_def)
    have hll: "height ll = subtree_height ll" and hlr: "height lr = subtree_height lr"
      using avl_ll avl_lr by (simp_all add: is_avl_def height_subtree_height)
    have lh: "lh = 1 + max (subtree_height ll) (subtree_height lr)" using l l' by (simp add: is_avl_def)
    have bl: "is_bst ll" "is_bst lr" "\<forall>x\<in>AVL_keys ll. x < lk" "\<forall>x\<in>AVL_keys lr. lk < x"
      using l l' by (auto simp: is_avl_def)
    have lo': "lk < nk" "\<forall>x\<in>AVL_keys ll. x < nk" "\<forall>x\<in>AVL_keys lr. x < nk"
      using lo l' by auto
    have br: "is_bst r" "heights_ok r" "height_balanced r" using r by (auto simp: is_avl_def)
    have bll: "heights_ok ll" "height_balanced ll" "heights_ok lr" "height_balanced lr"
      using avl_ll avl_lr by (auto simp: is_avl_def)
    from gr l' notleaf consider
        (LL) "k < lk" "subtree_height ll = subtree_height lr + 1"
      | (LR) "lk < k" "subtree_height lr = subtree_height ll + 1"
      by auto
    then show ?thesis
    proof cases
      case LL
      have hs: "subtree_height lr = subtree_height r" "subtree_height ll = subtree_height r + 1"
        using two l' LL by auto
      let ?t = "AVLNode lk (1 + max (subtree_height ll) (1 + max (subtree_height lr) (subtree_height r)))
                  ll (AVLNode nk (1 + max (subtree_height lr) (subtree_height r)) lr r)"
      have "AVLInsert_rebalance (AVLNode nk h0 l' r) k = Some ?t"
        using two LL(1) hl hr hll hlr l' by (simp add: Let_def)
      moreover have "is_avl ?t"
        using bl lo' br bll hi hs by (auto simp: is_avl_def)
      moreover have "AVL_keys ?t = insert nk (AVL_keys l' \<union> AVL_keys r)" using l' by auto
      moreover have "subtree_height ?t = subtree_height l'" using hs l' by simp
      ultimately show ?thesis using two by simp
    next
      case LR
      have hs: "subtree_height ll = subtree_height r" "subtree_height lr = subtree_height r + 1"
        using two l' LR by auto
      obtain mk mh ml mr where lr: "lr = AVLNode mk mh ml mr"
        using hs rn by (cases lr) auto
      have m: "is_bst ml" "is_bst mr" "\<forall>x\<in>AVL_keys ml. x < mk" "\<forall>x\<in>AVL_keys mr. mk < x"
        "heights_ok ml" "heights_ok mr" "height_balanced ml" "height_balanced mr"
        "mh = 1 + max (subtree_height ml) (subtree_height mr)"
        "subtree_height ml - subtree_height mr \<in> {-1, 0, 1}"
        using bl bll lr by auto
      have hm: "height ml = subtree_height ml" "height mr = subtree_height mr"
        using m by (simp_all add: height_subtree_height)
      have mo: "lk < mk" "mk < nk" "\<forall>x\<in>AVL_keys ml. lk < x" "\<forall>x\<in>AVL_keys mr. x < nk"
        using bl lo' lr by auto
      have hm2: "max (subtree_height ml) (subtree_height mr) = subtree_height r"
        using hs lr by simp
      let ?a = "AVLNode lk (1 + max (subtree_height ll) (subtree_height ml)) ll ml"
      let ?b = "AVLNode nk (1 + max (subtree_height mr) (subtree_height r)) mr r"
      let ?t = "AVLNode mk (1 + max (subtree_height ?a) (subtree_height ?b)) ?a ?b"
      have rl: "rotateLeft l' = Some (AVLNode mk (1 + max (1 + max (subtree_height ll) (subtree_height ml)) (subtree_height mr)) ?a mr)"
        using l' lr hll hm by simp
      have "AVLInsert_rebalance (AVLNode nk h0 l' r) k = Some ?t"
      proof -
        have "AVLInsert_rebalance (AVLNode nk h0 l' r) k
            = rotateRight (AVLNode nk (1 + max (height l') (height r))
                 (AVLNode mk (1 + max (1 + max (subtree_height ll) (subtree_height ml)) (subtree_height mr)) ?a mr) r)"
          using two LR(1) hl hr rl l' by (simp add: Let_def)
        also have "\<dots> = Some ?t" using hm hr by simp
        finally show ?thesis .
      qed
      moreover have "is_bst ?t"
        using m mo bl lo' br hi by auto
      moreover have "heights_ok ?t" using m bll br by simp
      moreover have "height_balanced ?t"
        using m bll br hs hm2 by (auto simp: max_def split: if_splits)
      moreover have "AVL_keys ?t = insert nk (AVL_keys l' \<union> AVL_keys r)" using l' lr by auto
      moreover have "subtree_height ?t = subtree_height l'"
        using hs hm2 l' lr m by (auto simp: max_def split: if_splits)
      ultimately show ?thesis using two by (simp add: is_avl_def)
    qed
  qed
qed


lemma rebalance_right:
  assumes l: "is_avl l" and r: "is_avl r'"
    and lo: "\<forall>x\<in>AVL_keys l. x < nk" and hi: "\<forall>x\<in>AVL_keys r'. nk < x"
    and k: "k \<in> AVL_keys r'"
    and d: "subtree_height l - 1 \<le> subtree_height r'" "subtree_height r' \<le> subtree_height l + 2"
    and g: "subtree_height r' = subtree_height l + 2 \<longrightarrow> grown r' k"
  shows "\<exists>t'. AVLInsert_rebalance (AVLNode nk h0 l r') k = Some t' \<and> is_avl t'
      \<and> AVL_keys t' = insert nk (AVL_keys l \<union> AVL_keys r')
      \<and> (subtree_height r' \<le> subtree_height l + 1 \<longrightarrow>
            t' = AVLNode nk (1 + max (subtree_height l) (subtree_height r')) l r')
      \<and> (subtree_height r' = subtree_height l + 2 \<longrightarrow> subtree_height t' = subtree_height r')"
proof -
  have hl: "height l = subtree_height l" using l by (simp add: is_avl_def height_subtree_height)
  have hr: "height r' = subtree_height r'" using r by (simp add: is_avl_def height_subtree_height)
  show ?thesis
  proof (cases "subtree_height r' \<le> subtree_height l + 1")
    case True
    let ?t = "AVLNode nk (1 + max (subtree_height l) (subtree_height r')) l r'"
    have "AVLInsert_rebalance (AVLNode nk h0 l r') k = Some ?t"
      using True d hl hr by (simp add: Let_def)
    moreover have "is_avl ?t" using l r lo hi True d by (auto simp: is_avl_def)
    ultimately show ?thesis using True by simp
  next
    case False
    then have two: "subtree_height r' = subtree_height l + 2" using d by simp
    then have gr: "grown r' k" using g by simp
    obtain rk rh rl rr where r': "r' = AVLNode rk rh rl rr" using gr by (cases r') auto
    have ln: "0 \<le> subtree_height l" by (rule subtree_height_nonneg)
    have notleaf: "\<not> (rl = Null \<and> rr = Null)" using two ln r' by auto
    have avl_rl: "is_avl rl" and avl_rr: "is_avl rr" using r r' by (auto simp: is_avl_def)
    have hrl: "height rl = subtree_height rl" and hrr: "height rr = subtree_height rr"
      using avl_rl avl_rr by (simp_all add: is_avl_def height_subtree_height)
    have br: "is_bst rl" "is_bst rr" "\<forall>x\<in>AVL_keys rl. x < rk" "\<forall>x\<in>AVL_keys rr. rk < x"
      using r r' by (auto simp: is_avl_def)
    have hi': "nk < rk" "\<forall>x\<in>AVL_keys rl. nk < x" "\<forall>x\<in>AVL_keys rr. nk < x"
      using hi r' by auto
    have bl: "is_bst l" "heights_ok l" "height_balanced l" using l by (auto simp: is_avl_def)
    have brr: "heights_ok rl" "height_balanced rl" "heights_ok rr" "height_balanced rr"
      using avl_rl avl_rr by (auto simp: is_avl_def)
    from gr r' notleaf consider
        (RR) "rk < k" "subtree_height rr = subtree_height rl + 1"
      | (RL) "k < rk" "subtree_height rl = subtree_height rr + 1"
      by auto
    then show ?thesis
    proof cases
      case RR
      have hs: "subtree_height rl = subtree_height l" "subtree_height rr = subtree_height l + 1"
        using two r' RR by auto
      let ?t = "AVLNode rk (1 + max (1 + max (subtree_height l) (subtree_height rl)) (subtree_height rr))
                  (AVLNode nk (1 + max (subtree_height l) (subtree_height rl)) l rl) rr"
      have "AVLInsert_rebalance (AVLNode nk h0 l r') k = Some ?t"
        using two RR(1) hl hr hrl hrr r' by (simp add: Let_def)
      moreover have "is_avl ?t"
        using br hi' bl brr lo hs by (auto simp: is_avl_def)
      moreover have "AVL_keys ?t = insert nk (AVL_keys l \<union> AVL_keys r')" using r' by auto
      moreover have "subtree_height ?t = subtree_height r'" using hs r' by simp
      ultimately show ?thesis using two by simp
    next
      case RL
      have hs: "subtree_height rr = subtree_height l" "subtree_height rl = subtree_height l + 1"
        using two r' RL by auto
      obtain mk mh ml mr where rl: "rl = AVLNode mk mh ml mr"
        using hs ln by (cases rl) auto
      have m: "is_bst ml" "is_bst mr" "\<forall>x\<in>AVL_keys ml. x < mk" "\<forall>x\<in>AVL_keys mr. mk < x"
        "heights_ok ml" "heights_ok mr" "height_balanced ml" "height_balanced mr"
        "mh = 1 + max (subtree_height ml) (subtree_height mr)"
        "subtree_height ml - subtree_height mr \<in> {-1, 0, 1}"
        using br brr rl by auto
      have hm: "height ml = subtree_height ml" "height mr = subtree_height mr"
        using m by (simp_all add: height_subtree_height)
      have mo: "mk < rk" "nk < mk" "\<forall>x\<in>AVL_keys mr. x < rk" "\<forall>x\<in>AVL_keys ml. nk < x"
        using br hi' rl by auto
      have hm2: "max (subtree_height ml) (subtree_height mr) = subtree_height l"
        using hs rl by simp
      let ?a = "AVLNode nk (1 + max (subtree_height l) (subtree_height ml)) l ml"
      let ?b = "AVLNode rk (1 + max (subtree_height mr) (subtree_height rr)) mr rr"
      let ?t = "AVLNode mk (1 + max (subtree_height ?a) (subtree_height ?b)) ?a ?b"
      have rot: "rotateRight r' = Some (AVLNode mk (1 + max (subtree_height ml) (1 + max (subtree_height mr) (subtree_height rr))) ml ?b)"
        using r' rl hrr hm by simp
      have "AVLInsert_rebalance (AVLNode nk h0 l r') k = Some ?t"
      proof -
        have "AVLInsert_rebalance (AVLNode nk h0 l r') k
            = rotateLeft (AVLNode nk (1 + max (height l) (height r')) l
                 (AVLNode mk (1 + max (subtree_height ml) (1 + max (subtree_height mr) (subtree_height rr))) ml ?b))"
          using two RL(1) hl hr rot r' by (simp add: Let_def)
        also have "\<dots> = Some ?t" using hm hl by simp
        finally show ?thesis .
      qed
      moreover have "is_bst ?t"
        using m mo br hi' bl lo by auto
      moreover have "heights_ok ?t" using m brr bl by simp
      moreover have "height_balanced ?t"
        using m brr bl hs hm2 by (auto simp: max_def split: if_splits)
      moreover have "AVL_keys ?t = insert nk (AVL_keys l \<union> AVL_keys r')" using r' rl by auto
      moreover have "subtree_height ?t = subtree_height r'"
        using hs hm2 r' rl m by (auto simp: max_def split: if_splits)
      ultimately show ?thesis using two by (simp add: is_avl_def)
    qed
  qed
qed

lemma AVLInsert_props:
  assumes "is_avl t"
  shows "\<exists>t'. AVLInsert t k = Some t' \<and> is_avl t'
      \<and> AVL_keys t' = insert k (AVL_keys t)
      \<and> (k \<in> AVL_keys t \<longrightarrow> t' = t)
      \<and> (subtree_height t' = subtree_height t \<or> subtree_height t' = subtree_height t + 1)
      \<and> (subtree_height t' = subtree_height t + 1 \<longrightarrow> grown t' k)"
  using assms
proof (induction t)
  case Null
  then show ?case by (simp add: is_avl_def)
next
  case (AVLNode nk h l r)
  have al: "is_avl l" and ar: "is_avl r" using AVLNode.prems by (auto simp: is_avl_def)
  have lo: "\<forall>x\<in>AVL_keys l. x < nk" and hi: "\<forall>x\<in>AVL_keys r. nk < x"
    using AVLNode.prems by (auto simp: is_avl_def)
  have h: "h = 1 + max (subtree_height l) (subtree_height r)"
    using AVLNode.prems by (simp add: is_avl_def)
  have bal: "subtree_height l - subtree_height r \<in> {-1, 0, 1}"
    using AVLNode.prems by (simp add: is_avl_def)
  consider (lt) "k < nk" | (gt) "nk < k" | (eq) "k = nk" by linarith
  then show ?case
  proof cases
    case eq
    then show ?thesis using AVLNode.prems by auto
  next
    case lt
    from AVLNode.IH(1)[OF al] obtain l' where
      l': "AVLInsert l k = Some l'" "is_avl l'" "AVL_keys l' = insert k (AVL_keys l)"
        "k \<in> AVL_keys l \<longrightarrow> l' = l"
        "subtree_height l' = subtree_height l \<or> subtree_height l' = subtree_height l + 1"
        "subtree_height l' = subtree_height l + 1 \<longrightarrow> grown l' k"
      by blast
    have lo': "\<forall>x\<in>AVL_keys l'. x < nk" using lo lt l'(3) by simp
    have kin: "k \<in> AVL_keys l'" using l'(3) by simp
    have d: "subtree_height r - 1 \<le> subtree_height l'" "subtree_height l' \<le> subtree_height r + 2"
      using bal l'(5) by auto
    have g: "subtree_height l' = subtree_height r + 2 \<longrightarrow> grown l' k"
      using bal l'(5,6) by auto
    from rebalance_left[OF l'(2) ar lo' hi kin d g, of h] obtain t' where
      t': "AVLInsert_rebalance (AVLNode nk h l' r) k = Some t'" "is_avl t'"
        "AVL_keys t' = insert nk (AVL_keys l' \<union> AVL_keys r)"
        "subtree_height l' \<le> subtree_height r + 1 \<longrightarrow>
            t' = AVLNode nk (1 + max (subtree_height l') (subtree_height r)) l' r"
        "subtree_height l' = subtree_height r + 2 \<longrightarrow> subtree_height t' = subtree_height l'"
      by blast
    have res: "AVLInsert (AVLNode nk h l r) k = Some t'" using lt l'(1) t'(1) by simp
    have ks: "AVL_keys t' = insert k (AVL_keys (AVLNode nk h l r))" using t'(3) l'(3) by auto
    have same: "k \<in> AVL_keys (AVLNode nk h l r) \<longrightarrow> t' = AVLNode nk h l r"
    proof
      assume "k \<in> AVL_keys (AVLNode nk h l r)"
      then have "k \<in> AVL_keys l" using lt hi by auto
      then have "l' = l" using l'(4) by simp
      then show "t' = AVLNode nk h l r" using t'(4) bal h by auto
    qed
    have hts: "(subtree_height t' = subtree_height (AVLNode nk h l r)
          \<or> subtree_height t' = subtree_height (AVLNode nk h l r) + 1)
        \<and> (subtree_height t' = subtree_height (AVLNode nk h l r) + 1 \<longrightarrow> grown t' k)"
    proof (cases "subtree_height l' \<le> subtree_height r + 1")
      case True
      then have "t' = AVLNode nk (1 + max (subtree_height l') (subtree_height r)) l' r"
        using t'(4) by simp
      then show ?thesis using l'(5) lt True bal by (auto simp: max_def split: if_splits)
    next
      case False
      then have "subtree_height l' = subtree_height r + 2" using d by simp
      then show ?thesis using t'(5) l'(5) bal by (auto simp: max_def split: if_splits)
    qed
    show ?thesis using res t'(2) ks same hts by blast
  next
    case gt
    from AVLNode.IH(2)[OF ar] obtain r' where
      r': "AVLInsert r k = Some r'" "is_avl r'" "AVL_keys r' = insert k (AVL_keys r)"
        "k \<in> AVL_keys r \<longrightarrow> r' = r"
        "subtree_height r' = subtree_height r \<or> subtree_height r' = subtree_height r + 1"
        "subtree_height r' = subtree_height r + 1 \<longrightarrow> grown r' k"
      by blast
    have hi': "\<forall>x\<in>AVL_keys r'. nk < x" using hi gt r'(3) by simp
    have kin: "k \<in> AVL_keys r'" using r'(3) by simp
    have d: "subtree_height l - 1 \<le> subtree_height r'" "subtree_height r' \<le> subtree_height l + 2"
      using bal r'(5) by auto
    have g: "subtree_height r' = subtree_height l + 2 \<longrightarrow> grown r' k"
      using bal r'(5,6) by auto
    from rebalance_right[OF al r'(2) lo hi' kin d g, of h] obtain t' where
      t': "AVLInsert_rebalance (AVLNode nk h l r') k = Some t'" "is_avl t'"
        "AVL_keys t' = insert nk (AVL_keys l \<union> AVL_keys r')"
        "subtree_height r' \<le> subtree_height l + 1 \<longrightarrow>
            t' = AVLNode nk (1 + max (subtree_height l) (subtree_height r')) l r'"
        "subtree_height r' = subtree_height l + 2 \<longrightarrow> subtree_height t' = subtree_height r'"
      by blast
    have res: "AVLInsert (AVLNode nk h l r) k = Some t'" using gt r'(1) t'(1) by simp
    have ks: "AVL_keys t' = insert k (AVL_keys (AVLNode nk h l r))" using t'(3) r'(3) by auto
    have same: "k \<in> AVL_keys (AVLNode nk h l r) \<longrightarrow> t' = AVLNode nk h l r"
    proof
      assume "k \<in> AVL_keys (AVLNode nk h l r)"
      then have "k \<in> AVL_keys r" using gt lo by auto
      then have "r' = r" using r'(4) by simp
      then show "t' = AVLNode nk h l r" using t'(4) bal h by auto
    qed
    have hts: "(subtree_height t' = subtree_height (AVLNode nk h l r)
          \<or> subtree_height t' = subtree_height (AVLNode nk h l r) + 1)
        \<and> (subtree_height t' = subtree_height (AVLNode nk h l r) + 1 \<longrightarrow> grown t' k)"
    proof (cases "subtree_height r' \<le> subtree_height l + 1")
      case True
      then have "t' = AVLNode nk (1 + max (subtree_height l) (subtree_height r')) l r'"
        using t'(4) by simp
      then show ?thesis using r'(5) gt True bal by (auto simp: max_def split: if_splits)
    next
      case False
      then have "subtree_height r' = subtree_height l + 2" using d by simp
      then show ?thesis using t'(5) r'(5) bal by (auto simp: max_def split: if_splits)
    qed
    show ?thesis using res t'(2) ks same hts by blast
  qed
qed

lemma AVLInsert_all_props:
  assumes "is_avl t"
  shows "\<exists>t'. AVLInsert_all t ks = Some t' \<and> is_avl t' \<and> AVL_keys t' = AVL_keys t \<union> set ks"
  using assms
proof (induction ks arbitrary: t)
  case Nil
  then show ?case by simp
next
  case (Cons k ks)
  from AVLInsert_props[OF Cons.prems, of k] obtain t1 where
    t1: "AVLInsert t k = Some t1" "is_avl t1" "AVL_keys t1 = insert k (AVL_keys t)" by blast
  from Cons.IH[OF t1(2)] obtain t' where
    "AVLInsert_all t1 ks = Some t'" "is_avl t'" "AVL_keys t' = AVL_keys t1 \<union> set ks" by blast
  then show ?case using t1 by auto
qed

text \<open>
  Claim C4.  Inserting any finite sequence \<open>ks\<close> of keys with \<open>AVLInsert\<close>, starting
  from the empty tree, never dereferences a null pointer and returns a tree \<open>t\<close> that
  is a binary search tree (every key of a left subtree is less than the node's key,
  every key of a right subtree greater) and height-balanced (every node's balance
  factor is -1, 0 or 1), whose \<open>height\<close> fields hold the heights of the subtrees and
  whose keys are those of \<open>ks\<close>; inserting a key that is already present returns the
  tree unchanged.
\<close>

theorem C4_AVLInsert_keeps_balanced_search_tree:
  "\<exists>t. AVLInsert_all Null ks = Some t
     \<and> is_bst t \<and> height_balanced t \<and> heights_ok t
     \<and> AVL_keys t = set ks
     \<and> (\<forall>k\<in>set ks. AVLInsert t k = Some t)"
proof -
  have "is_avl Null" by (simp add: is_avl_def)
  from AVLInsert_all_props[OF this, of ks] obtain t where
    t: "AVLInsert_all Null ks = Some t" "is_avl t" "AVL_keys t = set ks" by auto
  have "\<forall>k\<in>set ks. AVLInsert t k = Some t"
  proof
    fix k assume "k \<in> set ks"
    then have "k \<in> AVL_keys t" using t(3) by simp
    then show "AVLInsert t k = Some t" using AVLInsert_props[OF t(2), of k] by auto
  qed
  then show ?thesis using t by (auto simp: is_avl_def)
qed

text \<open>
  The theorem at the keys of the demonstration program, 5, 4, 2, 8, 6, 9: the
  resulting tree has root 6, and inserting 8 again returns it unchanged.
\<close>

theorem C4_AVLInsert_keeps_balanced_search_tree_witness:
  "AVLInsert_all Null [5, 4, 2, 8, 6, 9] =
     Some (AVLNode 6 3 (AVLNode 4 2 (AVLNode 2 1 Null Null) (AVLNode 5 1 Null Null))
                       (AVLNode 8 2 Null (AVLNode 9 1 Null Null)))
   \<and> is_bst (AVLNode 6 3 (AVLNode 4 2 (AVLNode 2 1 Null Null) (AVLNode 5 1 Null Null))
                       (AVLNode 8 2 Null (AVLNode 9 1 Null Null)))
   \<and> height_balanced (AVLNode 6 3 (AVLNode 4 2 (AVLNode 2 1 Null Null) (AVLNode 5 1 Null Null))
                       (AVLNode 8 2 Null (AVLNode 9 1 Null Null)))
   \<and> AVLInsert (AVLNode 6 3 (AVLNode 4 2 (AVLNode 2 1 Null Null) (AVLNode 5 1 Null Null))
                       (AVLNode 8 2 Null (AVLNode 9 1 Null Null))) 8 =
     Some (AVLNode 6 3 (AVLNode 4 2 (AVLNode 2 1 Null Null) (AVLNode 5 1 Null Null))
                       (AVLNode 8 2 Null (AVLNode 9 1 Null Null)))"
proof -
  let ?T = "AVLNode 6 3 (AVLNode 4 2 (AVLNode 2 1 Null Null) (AVLNode 5 1 Null Null))
                       (AVLNode 8 2 Null (AVLNode 9 1 Null Null))"
  have e: "AVLInsert_all Null [5, 4, 2, 8, 6, 9] = Some ?T" by code_simp
  from C4_AVLInsert_keeps_balanced_search_tree[of "[5, 4, 2, 8, 6, 9]"] obtain t where
    t: "AVLInsert_all Null [5, 4, 2, 8, 6, 9] = Some t" "is_bst t" "height_balanced t"
      "\<forall>k\<in>set [5, 4, 2, 8, 6, 9]. AVLInsert t k = Some t" by blast
  have tt: "t = ?T" using e t(1) by simp
  have "AVLInsert t 8 = Some t" using t(4) by simp
  then show ?thesis using e t(2,3) tt by simp
qed

section \<open>The sorting functions return a sorted permutation\<close>

lemma BubbleSort_inner_result:
  assumes "n = int (length elem)" "1 \<le> i" "0 \<le> j" "j \<le> n - i"
    "\<forall>p q. p < q \<and> q < length elem \<and> n - i + 1 \<le> int q \<longrightarrow> elem ! p \<le> elem ! q"
    "\<forall>p. p < nat j \<longrightarrow> elem ! p \<le> elem ! nat j"
  shows "mset (BubbleSort_inner elem n i j) = mset elem
    \<and> length (BubbleSort_inner elem n i j) = length elem
    \<and> (\<forall>p q. p < q \<and> q < length elem \<and> n - i \<le> int q \<longrightarrow>
          BubbleSort_inner elem n i j ! p \<le> BubbleSort_inner elem n i j ! q)"
  using assms
proof (induction elem n i j rule: BubbleSort_inner.induct)
  case (1 elem n i j)
  show ?case
  proof (cases "j < n - i")
    case False
    then have jn: "j = n - i" using "1.prems" by simp
    have eq: "BubbleSort_inner elem n i j = elem"
      using False by (subst BubbleSort_inner.simps) simp
    have "\<forall>p q. p < q \<and> q < length elem \<and> n - i \<le> int q \<longrightarrow> elem ! p \<le> elem ! q"
    proof (intro allI impI)
      fix p q assume a: "p < q \<and> q < length elem \<and> n - i \<le> int q"
      show "elem ! p \<le> elem ! q"
      proof (cases "int q = n - i")
        case True
        then have "q = nat j" using jn by simp
        then show ?thesis using a "1.prems"(6) by simp
      next
        case False
        then have "n - i + 1 \<le> int q" using a by simp
        then show ?thesis using a "1.prems"(5) by blast
      qed
    qed
    then show ?thesis unfolding eq by simp
  next
    case True
    define J where "J = nat j"
    have J: "nat j = J" "nat (j + 1) = Suc J" using "1.prems"(3) by (simp_all add: J_def)
    have Jl: "Suc J < length elem" using True "1.prems"(1,2,3) by (simp add: J_def)
    have Jq: "\<And>q. n - i + 1 \<le> int q \<Longrightarrow> Suc J < q" using True "1.prems"(3) by (simp add: J_def)
    show ?thesis
    proof (cases "elem ! nat j > elem ! nat (j + 1)")
      case swap: True
      let ?e = "(elem[nat j := elem ! nat (j + 1)])[nat (j + 1) := elem ! nat j]"
      have e: "?e = elem[J := elem ! Suc J, Suc J := elem ! J]" by (simp only: J)
      have eq: "BubbleSort_inner elem n i j = BubbleSort_inner ?e n i (j + 1)"
        using True swap by (subst BubbleSort_inner.simps) simp
      have ms: "mset ?e = mset elem" unfolding e using Jl by (simp add: mset_swap)
      have len: "length ?e = length elem" by simp
      have gt: "elem ! Suc J < elem ! J" using swap by (simp only: J)
      have p5: "\<forall>p q. p < q \<and> q < length ?e \<and> n - i + 1 \<le> int q \<longrightarrow> ?e ! p \<le> ?e ! q"
      proof (intro allI impI)
        fix p q assume a: "p < q \<and> q < length ?e \<and> n - i + 1 \<le> int q"
        then have q: "Suc J < q" "q < length elem" using Jq by simp_all
        then have eqq: "?e ! q = elem ! q" unfolding e by simp
        have "J < q" using q by simp
        then have b: "elem ! J \<le> elem ! q" "elem ! Suc J \<le> elem ! q" "elem ! p \<le> elem ! q"
          using a q "1.prems"(5) by auto
        show "?e ! p \<le> ?e ! q" unfolding eqq unfolding e using b Jl
          by (cases "p = J"; cases "p = Suc J") (simp_all add: nth_list_update)
      qed
      have p6: "\<forall>p. p < nat (j + 1) \<longrightarrow> ?e ! p \<le> ?e ! nat (j + 1)"
      proof (intro allI impI)
        fix p assume "p < nat (j + 1)"
        then have p: "p < Suc J" by (simp only: J)
        have top: "?e ! Suc J = elem ! J" unfolding e using Jl by simp
        show "?e ! p \<le> ?e ! nat (j + 1)"
        proof (cases "p = J")
          case True
          then have "?e ! p = elem ! Suc J" unfolding e using Jl by simp
          then show ?thesis using top gt by (simp add: J)
        next
          case False
          then have pj: "p < J" using p by simp
          then have "?e ! p = elem ! p" unfolding e by simp
          moreover have "elem ! p \<le> elem ! J" using pj "1.prems"(6) by (simp add: J)
          ultimately show ?thesis using top by (simp add: J)
        qed
      qed
      have pre: "n = int (length ?e)" "0 \<le> j + 1" "j + 1 \<le> n - i"
        using "1.prems"(1,3) True by simp_all
      note ih = "1.IH"(1)[OF True swap pre(1) "1.prems"(2) pre(2,3) p5 p6]
      show ?thesis unfolding eq using ih ms len by simp
    next
      case keep: False
      have eq: "BubbleSort_inner elem n i j = BubbleSort_inner elem n i (j + 1)"
        using True keep by (subst BubbleSort_inner.simps) simp
      have le: "elem ! J \<le> elem ! Suc J" using keep by (simp add: J)
      have p6: "\<forall>p. p < nat (j + 1) \<longrightarrow> elem ! p \<le> elem ! nat (j + 1)"
      proof (intro allI impI)
        fix p assume "p < nat (j + 1)"
        then have p: "p < Suc J" by (simp only: J)
        show "elem ! p \<le> elem ! nat (j + 1)"
        proof (cases "p = J")
          case True
          then show ?thesis using le by (simp add: J)
        next
          case False
          then have "p < J" using p by simp
          then have "elem ! p \<le> elem ! J" using "1.prems"(6) by (simp add: J)
          then show ?thesis using le by (simp add: J)
        qed
      qed
      have pre: "0 \<le> j + 1" "j + 1 \<le> n - i" using "1.prems"(3) True by simp_all
      note ih = "1.IH"(2)[OF True keep "1.prems"(1,2) pre "1.prems"(5) p6]
      show ?thesis unfolding eq using ih by simp
    qed
  qed
qed

lemma BubbleSort_outer_result:
  assumes "n = int (length elem)" "1 \<le> i"
    "\<forall>p q. p < q \<and> q < length elem \<and> n - i + 1 \<le> int q \<longrightarrow> elem ! p \<le> elem ! q"
  shows "mset (BubbleSort_outer elem n i) = mset elem \<and> sorted (BubbleSort_outer elem n i)"
  using assms
proof (induction elem n i rule: BubbleSort_outer.induct)
  case (1 elem n i)
  show ?case
  proof (cases "i < n")
    case False
    have eq: "BubbleSort_outer elem n i = elem"
      using False by (subst BubbleSort_outer.simps) simp
    have "\<forall>p q. p < q \<longrightarrow> q < length elem \<longrightarrow> elem ! p \<le> elem ! q"
    proof (intro allI impI)
      fix p q :: nat assume a: "p < q" "q < length elem"
      then have "n - i + 1 \<le> int q" using False by simp
      then show "elem ! p \<le> elem ! q" using a "1.prems"(3) by blast
    qed
    then have "sorted elem" by (simp add: sorted_iff_nth_mono_less)
    then show ?thesis unfolding eq by simp
  next
    case True
    let ?e = "BubbleSort_inner elem n i 0"
    have eq: "BubbleSort_outer elem n i = BubbleSort_outer ?e n (i + 1)"
      using True by (subst BubbleSort_outer.simps) simp
    have inner: "mset ?e = mset elem \<and> length ?e = length elem
      \<and> (\<forall>p q. p < q \<and> q < length elem \<and> n - i \<le> int q \<longrightarrow> ?e ! p \<le> ?e ! q)"
    proof (rule BubbleSort_inner_result[OF "1.prems"(1,2) _ _ "1.prems"(3)])
      show "(0::int) \<le> 0" by simp
      show "0 \<le> n - i" using True by simp
      show "\<forall>p. p < nat 0 \<longrightarrow> elem ! p \<le> elem ! nat 0" by simp
    qed
    have pre: "n = int (length ?e)" "1 \<le> i + 1" using inner "1.prems"(1,2) by simp_all
    have p3: "\<forall>p q. p < q \<and> q < length ?e \<and> n - (i + 1) + 1 \<le> int q \<longrightarrow> ?e ! p \<le> ?e ! q"
      using inner by simp
    note ih = "1.IH"[OF True pre p3]
    show ?thesis unfolding eq using ih inner by simp
  qed
qed

lemma BubbleSort_sorts:
  "mset (BubbleSort A (int (length A))) = mset A \<and> sorted (BubbleSort A (int (length A)))"
  unfolding BubbleSort_def by (rule BubbleSort_outer_result) simp_all


lemma Partition_high_result:
  assumes "low \<le> high"
  shows "low \<le> Partition_high elem low high pivot \<and> Partition_high elem low high pivot \<le> high
    \<and> (\<forall>q. Partition_high elem low high pivot < q \<and> q \<le> high \<longrightarrow> pivot \<le> elem ! nat q)
    \<and> (low < Partition_high elem low high pivot \<longrightarrow>
          elem ! nat (Partition_high elem low high pivot) < pivot)"
  using assms
proof (induction elem low high pivot rule: Partition_high.induct)
  case (1 elem low high pivot)
  show ?case
  proof (cases "low < high \<and> elem ! nat high \<ge> pivot")
    case False
    have eq: "Partition_high elem low high pivot = high"
      using False by (subst Partition_high.simps) auto
    show ?thesis unfolding eq using False "1.prems" by auto
  next
    case True
    have eq: "Partition_high elem low high pivot = Partition_high elem low (high - 1) pivot"
      using True by (subst Partition_high.simps) simp
    have pre: "low \<le> high - 1" using True by simp
    note ih = "1.IH"[OF True pre]
    have "\<forall>q. Partition_high elem low (high - 1) pivot < q \<and> q \<le> high \<longrightarrow> pivot \<le> elem ! nat q"
    proof (intro allI impI)
      fix q assume a: "Partition_high elem low (high - 1) pivot < q \<and> q \<le> high"
      show "pivot \<le> elem ! nat q"
      proof (cases "q = high")
        case True
        then show ?thesis using \<open>low < high \<and> elem ! nat high \<ge> pivot\<close> by simp
      next
        case False
        then have "q \<le> high - 1" using a by simp
        then show ?thesis using a ih by blast
      qed
    qed
    then show ?thesis unfolding eq using ih by simp
  qed
qed

lemma Partition_low_result:
  assumes "low \<le> high"
  shows "low \<le> Partition_low elem low high pivot \<and> Partition_low elem low high pivot \<le> high
    \<and> (\<forall>p. low \<le> p \<and> p < Partition_low elem low high pivot \<longrightarrow> elem ! nat p \<le> pivot)
    \<and> (Partition_low elem low high pivot < high \<longrightarrow>
          pivot < elem ! nat (Partition_low elem low high pivot))"
  using assms
proof (induction elem low high pivot rule: Partition_low.induct)
  case (1 elem low high pivot)
  show ?case
  proof (cases "low < high \<and> elem ! nat low \<le> pivot")
    case False
    have eq: "Partition_low elem low high pivot = low"
      using False by (subst Partition_low.simps) auto
    show ?thesis unfolding eq using False "1.prems" by auto
  next
    case True
    have eq: "Partition_low elem low high pivot = Partition_low elem (low + 1) high pivot"
      using True by (subst Partition_low.simps) simp
    have pre: "low + 1 \<le> high" using True by simp
    note ih = "1.IH"[OF True pre]
    have "\<forall>p. low \<le> p \<and> p < Partition_low elem (low + 1) high pivot \<longrightarrow> elem ! nat p \<le> pivot"
    proof (intro allI impI)
      fix p assume a: "low \<le> p \<and> p < Partition_low elem (low + 1) high pivot"
      show "elem ! nat p \<le> pivot"
      proof (cases "p = low")
        case True
        then show ?thesis using \<open>low < high \<and> elem ! nat low \<le> pivot\<close> by simp
      next
        case False
        then have "low + 1 \<le> p" using a by simp
        then show ?thesis using a ih by blast
      qed
    qed
    then show ?thesis unfolding eq using ih by simp
  qed
qed

lemma hole_move:
  assumes "a < length xs" "b < length xs"
  shows "mset ((xs[a := xs ! b])[b := v]) = mset (xs[a := v])"
proof (cases "a = b")
  case True
  then show ?thesis by simp
next
  case False
  then show ?thesis using assms by (simp add: mset_update nth_list_update)
qed


lemma Partition_loop_result:
  assumes "0 \<le> lo0" "lo0 \<le> low" "low \<le> high" "high \<le> hi0" "hi0 < int (length elem)"
    "\<forall>p. lo0 \<le> p \<and> p < low \<longrightarrow> elem ! nat p \<le> pivot"
    "\<forall>q. high < q \<and> q \<le> hi0 \<longrightarrow> pivot \<le> elem ! nat q"
  shows "\<exists>R p. Partition_loop elem low high pivot = Some (R, p) \<and> low \<le> p \<and> p \<le> high
      \<and> mset R = mset (elem[nat low := pivot]) \<and> length R = length elem
      \<and> (\<forall>i. i < length elem \<and> (int i < lo0 \<or> hi0 < int i) \<longrightarrow> R ! i = elem ! i)
      \<and> R ! nat p = pivot
      \<and> (\<forall>i. lo0 \<le> i \<and> i < p \<longrightarrow> R ! nat i \<le> pivot)
      \<and> (\<forall>i. p < i \<and> i \<le> hi0 \<longrightarrow> pivot \<le> R ! nat i)"
  using assms
proof (induction "nat (high - low)" arbitrary: elem low high rule: less_induct)
  case less
  note pr = less.prems
  show ?case
  proof (cases "low < high")
    case False
    then have lh: "low = high" using pr(3) by simp
    let ?R = "elem[nat low := pivot]"
    have eq: "Partition_loop elem low high pivot = Some (?R, low)"
      using False by (subst Partition_loop.simps) simp
    have ll: "nat low < length elem" using pr by simp
    have a: "?R ! nat low = pivot" using ll by simp
    have b: "\<forall>i. lo0 \<le> i \<and> i < low \<longrightarrow> ?R ! nat i \<le> pivot"
    proof (intro allI impI)
      fix i assume i: "lo0 \<le> i \<and> i < low"
      then have "nat i \<noteq> nat low" using pr(1) by linarith+
      then have "?R ! nat i = elem ! nat i" by simp
      then show "?R ! nat i \<le> pivot" using i pr(6) by simp
    qed
    have c: "\<forall>i. low < i \<and> i \<le> hi0 \<longrightarrow> pivot \<le> ?R ! nat i"
    proof (intro allI impI)
      fix i assume i: "low < i \<and> i \<le> hi0"
      then have "nat i \<noteq> nat low" using pr(1,2) by linarith+
      then have "?R ! nat i = elem ! nat i" by simp
      then show "pivot \<le> ?R ! nat i" using i pr(7) lh by simp
    qed
    have d: "\<forall>i. i < length elem \<and> (int i < lo0 \<or> hi0 < int i) \<longrightarrow> ?R ! i = elem ! i"
    proof (intro allI impI)
      fix i assume i: "i < length elem \<and> (int i < lo0 \<or> hi0 < int i)"
      then have "i \<noteq> nat low" using pr(1,2,3,4) by linarith+
      then show "?R ! i = elem ! i" by simp
    qed
    show ?thesis unfolding eq using a b c d lh by simp
  next
    case True
    define high1 where "high1 = Partition_high elem low high pivot"
    define elem1 where "elem1 = elem[nat low := elem ! nat high1]"
    define low1 where "low1 = Partition_low elem1 low high1 pivot"
    define elem2 where "elem2 = elem1[nat high1 := elem1 ! nat low1]"
    have eq: "Partition_loop elem low high pivot = Partition_loop elem2 low1 high1 pivot"
      using True
      by (subst Partition_loop.simps) (simp add: Let_def high1_def elem1_def low1_def elem2_def)
    note hs = Partition_high_result[OF pr(3), of elem pivot, folded high1_def]
    have h1: "low \<le> high1" "high1 \<le> high" using hs by simp_all
    have h2: "\<forall>q. high1 < q \<and> q \<le> high \<longrightarrow> pivot \<le> elem ! nat q" using hs by simp
    have h3: "low < high1 \<longrightarrow> elem ! nat high1 < pivot" using hs by simp
    note ls = Partition_low_result[OF h1(1), of elem1 pivot, folded low1_def]
    have l1: "low \<le> low1" "low1 \<le> high1" using ls by simp_all
    have l2: "\<forall>p. low \<le> p \<and> p < low1 \<longrightarrow> elem1 ! nat p \<le> pivot" using ls by simp
    have l3: "low1 < high1 \<longrightarrow> pivot < elem1 ! nat low1" using ls by simp
    have len: "length elem1 = length elem" "length elem2 = length elem"
      by (simp_all add: elem1_def elem2_def)
    have rng: "nat low < length elem" "nat high1 < length elem" "nat low1 < length elem"
      using pr h1 l1 by simp_all
    have ms1: "mset (elem1[nat high1 := pivot]) = mset (elem[nat low := pivot])"
      unfolding elem1_def by (rule hole_move[OF rng(1,2)])
    have ms2: "mset (elem2[nat low1 := pivot]) = mset (elem1[nat high1 := pivot])"
      unfolding elem2_def using rng len by (intro hole_move) simp_all
    have e1low: "elem1 ! nat low = elem ! nat high1" using rng by (simp add: elem1_def)
    have dec: "nat (high1 - low1) < nat (high - low)"
    proof (cases "low < high1")
      case False
      then show ?thesis using h1 l1 True by simp
    next
      case lt: True
      have "low1 \<noteq> low"
      proof
        assume e: "low1 = low"
        then have "pivot < elem1 ! nat low" using l3 lt by simp
        then show False using e1low h3 lt by simp
      qed
      then show ?thesis using l1 h1 True by simp
    qed
    have c: "\<forall>p. lo0 \<le> p \<and> p < low1 \<longrightarrow> elem2 ! nat p \<le> pivot"
    proof (intro allI impI)
      fix p assume p: "lo0 \<le> p \<and> p < low1"
      then have ne: "nat p \<noteq> nat high1" using pr(1) l1 by linarith+
      have e2: "elem2 ! nat p = elem1 ! nat p" using ne by (simp add: elem2_def)
      show "elem2 ! nat p \<le> pivot"
      proof (cases "p < low")
        case True
        then have "nat p \<noteq> nat low" using p pr(1) by linarith+
        then have "elem1 ! nat p = elem ! nat p" by (simp add: elem1_def)
        then show ?thesis using e2 p True pr(6) by simp
      next
        case False
        then show ?thesis using e2 p l2 by simp
      qed
    qed
    have d: "\<forall>q. high1 < q \<and> q \<le> hi0 \<longrightarrow> pivot \<le> elem2 ! nat q"
    proof (intro allI impI)
      fix q assume q: "high1 < q \<and> q \<le> hi0"
      then have ne: "nat q \<noteq> nat high1" "nat q \<noteq> nat low" using pr(1,2) h1 by linarith+
      have e2: "elem2 ! nat q = elem ! nat q" using ne by (simp add: elem2_def elem1_def)
      show "pivot \<le> elem2 ! nat q"
      proof (cases "high < q")
        case True
        then show ?thesis using e2 q pr(7) by simp
      next
        case False
        then show ?thesis using e2 q h2 by simp
      qed
    qed
    have pre: "lo0 \<le> low1" "high1 \<le> hi0" "hi0 < int (length elem2)"
      using pr l1 h1 len by simp_all
    from less.hyps[OF dec pr(1) pre(1) l1(2) pre(2,3) c d] obtain R p where
      R: "Partition_loop elem2 low1 high1 pivot = Some (R, p)" "low1 \<le> p" "p \<le> high1"
        "mset R = mset (elem2[nat low1 := pivot])" "length R = length elem2"
        "\<forall>i. i < length elem2 \<and> (int i < lo0 \<or> hi0 < int i) \<longrightarrow> R ! i = elem2 ! i"
        "R ! nat p = pivot"
        "\<forall>i. lo0 \<le> i \<and> i < p \<longrightarrow> R ! nat i \<le> pivot"
        "\<forall>i. p < i \<and> i \<le> hi0 \<longrightarrow> pivot \<le> R ! nat i"
      by blast
    have fr: "\<forall>i. i < length elem \<and> (int i < lo0 \<or> hi0 < int i) \<longrightarrow> R ! i = elem ! i"
    proof (intro allI impI)
      fix i assume i: "i < length elem \<and> (int i < lo0 \<or> hi0 < int i)"
      then have "i \<noteq> nat low" "i \<noteq> nat high1" using pr(1,2,3,4) h1 by linarith+
      then have "elem2 ! i = elem ! i" by (simp add: elem2_def elem1_def)
      then show "R ! i = elem ! i" using R(6) i len by simp
    qed
    have "Partition_loop elem low high pivot = Some (R, p) \<and> low \<le> p \<and> p \<le> high
      \<and> mset R = mset (elem[nat low := pivot]) \<and> length R = length elem"
      using eq R(1,2,3,4,5) ms1 ms2 l1 h1 len by simp
    then show ?thesis using fr R(7,8,9) by blast
  qed
qed

lemma Partition_result:
  assumes "0 \<le> lo" "lo \<le> hi" "hi < int (length elem)"
  shows "\<exists>R p. Partition elem lo hi = Some (R, p) \<and> lo \<le> p \<and> p \<le> hi
      \<and> mset R = mset elem \<and> length R = length elem
      \<and> (\<forall>i. i < length elem \<and> (int i < lo \<or> hi < int i) \<longrightarrow> R ! i = elem ! i)
      \<and> (\<forall>i. lo \<le> i \<and> i < p \<longrightarrow> R ! nat i \<le> R ! nat p)
      \<and> (\<forall>i. p < i \<and> i \<le> hi \<longrightarrow> R ! nat p \<le> R ! nat i)"
proof -
  have a: "\<forall>p. lo \<le> p \<and> p < lo \<longrightarrow> elem ! nat p \<le> elem ! nat lo" by simp
  have b: "\<forall>q. hi < q \<and> q \<le> hi \<longrightarrow> elem ! nat lo \<le> elem ! nat q" by simp
  have le: "lo \<le> lo" by simp
  have le2: "hi \<le> hi" by simp
  from Partition_loop_result[OF assms(1) le assms(2) le2 assms(3) a b] obtain R p where
    R: "Partition_loop elem lo hi (elem ! nat lo) = Some (R, p)" "lo \<le> p" "p \<le> hi"
      "mset R = mset (elem[nat lo := elem ! nat lo])" "length R = length elem"
      "\<forall>i. i < length elem \<and> (int i < lo \<or> hi < int i) \<longrightarrow> R ! i = elem ! i"
      "R ! nat p = elem ! nat lo"
      "\<forall>i. lo \<le> i \<and> i < p \<longrightarrow> R ! nat i \<le> elem ! nat lo"
      "\<forall>i. p < i \<and> i \<le> hi \<longrightarrow> elem ! nat lo \<le> R ! nat i"
    by blast
  have "Partition elem lo hi = Some (R, p) \<and> lo \<le> p \<and> p \<le> hi
      \<and> mset R = mset elem \<and> length R = length elem"
    using R(1,2,3,4,5) by (simp add: Partition_def)
  moreover have "\<forall>i. lo \<le> i \<and> i < p \<longrightarrow> R ! nat i \<le> R ! nat p" using R(7,8) by simp
  moreover have "\<forall>i. p < i \<and> i \<le> hi \<longrightarrow> R ! nat p \<le> R ! nat i" using R(7,9) by simp
  ultimately show ?thesis using R(6) by blast
qed


lemma Partition_frame:
  assumes "2 \<le> length M"
  shows "\<exists>L pv Rt. Partition (P @ M @ S) (int (length P)) (int (length P) + int (length M) - 1)
        = Some (P @ (L @ pv # Rt) @ S, int (length P) + int (length L))
      \<and> mset (L @ pv # Rt) = mset M
      \<and> (\<forall>x\<in>set L. x \<le> pv) \<and> (\<forall>x\<in>set Rt. pv \<le> x)"
proof -
  let ?E = "P @ M @ S"
  let ?lo = "int (length P)"
  let ?hi = "int (length P) + int (length M) - 1"
  have b: "0 \<le> ?lo" "?lo \<le> ?hi" "?hi < int (length ?E)" using assms by auto
  from Partition_result[OF b] obtain R p where
    R: "Partition ?E ?lo ?hi = Some (R, p)" "?lo \<le> p" "p \<le> ?hi"
      "mset R = mset ?E" "length R = length ?E"
      "\<forall>i. i < length ?E \<and> (int i < ?lo \<or> ?hi < int i) \<longrightarrow> R ! i = ?E ! i"
      "\<forall>i. ?lo \<le> i \<and> i < p \<longrightarrow> R ! nat i \<le> R ! nat p"
      "\<forall>i. p < i \<and> i \<le> ?hi \<longrightarrow> R ! nat p \<le> R ! nat i"
    by blast
  define Mid where "Mid = take (length M) (drop (length P) R)"
  have lenR: "length R = length P + length M + length S" using R(5) by simp
  have tP: "take (length P) R = P"
  proof (rule nth_equalityI)
    show "length (take (length P) R) = length P" using lenR by simp
  next
    fix i assume "i < length (take (length P) R)"
    then have i: "i < length P" by simp
    then have "R ! i = ?E ! i" using R(6) by simp
    then show "take (length P) R ! i = P ! i" using i by (simp add: nth_append)
  qed
  have dS: "drop (length P + length M) R = S"
  proof (rule nth_equalityI)
    show "length (drop (length P + length M) R) = length S" using lenR by simp
  next
    fix i assume "i < length (drop (length P + length M) R)"
    then have i: "i < length S" using lenR by simp
    have "R ! (length P + length M + i) = ?E ! (length P + length M + i)"
      using R(6) i by simp
    also have "\<dots> = S ! i" by (simp add: nth_append)
    finally show "drop (length P + length M) R ! i = S ! i" using lenR i by simp
  qed
  have lenMid: "length Mid = length M" using lenR by (simp add: Mid_def)
  have split: "R = P @ Mid @ S"
  proof -
    have a: "drop (length M) (drop (length P) R) = S" using dS by (simp add: add.commute)
    have "drop (length P) R = Mid @ drop (length M) (drop (length P) R)"
      unfolding Mid_def by (rule append_take_drop_id[symmetric])
    then have "drop (length P) R = Mid @ S" unfolding a .
    moreover have "R = take (length P) R @ drop (length P) R"
      by (rule append_take_drop_id[symmetric])
    ultimately show ?thesis using tP by simp
  qed
  have msMid: "mset Mid = mset M" using R(4) split by simp
  define k where "k = nat (p - ?lo)"
  have k: "k < length M" "p = ?lo + int k" using R(2,3) assms by (simp_all add: k_def)
  have Rn: "\<And>i. i < length M \<Longrightarrow> R ! (length P + i) = Mid ! i"
    using split lenMid by (simp add: nth_append)
  define L where "L = take k Mid"
  define Rt where "Rt = drop (Suc k) Mid"
  have mid: "Mid = L @ Mid ! k # Rt"
    unfolding L_def Rt_def using k lenMid by (simp add: id_take_nth_drop[symmetric])
  have lenL: "length L = k" using k lenMid by (simp add: L_def)
  have pv: "R ! nat p = Mid ! k"
  proof -
    have "nat p = length P + k" using k by simp
    then show ?thesis using Rn[OF k(1)] by simp
  qed
  have left: "\<forall>x\<in>set L. x \<le> Mid ! k"
  proof
    fix x assume "x \<in> set L"
    then obtain i where i: "i < length L" "x = L ! i" by (auto simp: in_set_conv_nth)
    then have ik: "i < k" using lenL by simp
    have "R ! nat (?lo + int i) \<le> R ! nat p" using R(7) ik k by simp
    moreover have "nat (?lo + int i) = length P + i" by simp
    ultimately have "R ! (length P + i) \<le> R ! nat p" by simp
    then have "Mid ! i \<le> Mid ! k" using Rn[of i] ik k pv by simp
    moreover have "L ! i = Mid ! i" using ik by (simp add: L_def)
    ultimately show "x \<le> Mid ! k" using i by simp
  qed
  have right: "\<forall>x\<in>set Rt. Mid ! k \<le> x"
  proof
    fix x assume "x \<in> set Rt"
    then obtain i where i: "i < length Rt" "x = Rt ! i" by (auto simp: in_set_conv_nth)
    then have ik: "Suc k + i < length M" using lenMid by (simp add: Rt_def)
    have "R ! nat p \<le> R ! nat (?lo + int (Suc k + i))" using R(8) ik k by simp
    moreover have "nat (?lo + int (Suc k + i)) = length P + (Suc k + i)" by simp
    ultimately have "R ! nat p \<le> R ! (length P + (Suc k + i))" by simp
    then have "Mid ! k \<le> Mid ! (Suc k + i)" using Rn[OF ik] pv by simp
    moreover have "Rt ! i = Mid ! (Suc k + i)" using ik lenMid by (simp add: Rt_def)
    ultimately show "Mid ! k \<le> x" using i by simp
  qed
  have "Partition ?E ?lo ?hi = Some (P @ (L @ Mid ! k # Rt) @ S, ?lo + int (length L))"
    using R(1) split mid k lenL by simp
  moreover have "mset (L @ Mid ! k # Rt) = mset M" using msMid mid by simp
  ultimately show ?thesis using left right by blast
qed

lemma QuickSort_range_result:
  "\<exists>M'. QuickSort_range (P @ M @ S) (int (length P)) (int (length P) + int (length M) - 1)
        = Some (P @ M' @ S)
      \<and> sorted M' \<and> mset M' = mset M"
proof (induction "length M" arbitrary: P M S rule: less_induct)
  case less
  let ?lo = "int (length P)"
  let ?hi = "int (length P) + int (length M) - 1"
  show ?case
  proof (cases "2 \<le> length M")
    case False
    then have "length M \<le> 1" by simp
    then have st: "sorted M" by (cases M) (auto simp: Suc_le_eq)
    have "QuickSort_range (P @ M @ S) ?lo ?hi = Some (P @ M @ S)"
      using False by (subst QuickSort_range.simps) simp
    then show ?thesis using st by blast
  next
    case True
    from Partition_frame[OF True, of P S] obtain L pv Rt where
      pt: "Partition (P @ M @ S) ?lo ?hi = Some (P @ (L @ pv # Rt) @ S, ?lo + int (length L))"
        "mset (L @ pv # Rt) = mset M"
        "\<forall>x\<in>set L. x \<le> pv" "\<forall>x\<in>set Rt. pv \<le> x"
      by blast
    have lenM: "length M = length L + Suc (length Rt)"
      using pt(2) by (metis length_append length_Cons mset_eq_length)
    have lL: "length L < length M" and lR: "length Rt < length M" using lenM by simp_all
    from less.hyps[OF lL, of P "pv # Rt @ S"] obtain L' where
      L': "QuickSort_range (P @ L @ pv # Rt @ S) ?lo (?lo + int (length L) - 1)
            = Some (P @ L' @ pv # Rt @ S)" "sorted L'" "mset L' = mset L"
      by blast
    have lenL': "length L' = length L" using L'(3) by (rule mset_eq_length)
    from less.hyps[OF lR, of "P @ L' @ [pv]" S] obtain Rt' where
      "QuickSort_range ((P @ L' @ [pv]) @ Rt @ S) (int (length (P @ L' @ [pv])))
            (int (length (P @ L' @ [pv])) + int (length Rt) - 1)
            = Some ((P @ L' @ [pv]) @ Rt' @ S)" "sorted Rt'" "mset Rt' = mset Rt"
      by blast
    then have Rt': "QuickSort_range (P @ L' @ pv # Rt @ S) (?lo + int (length L) + 1) ?hi
            = Some (P @ (L' @ pv # Rt') @ S)" "sorted Rt'" "mset Rt' = mset Rt"
      using lenL' lenM by (simp_all add: algebra_simps)
    have lt: "\<not> ?lo \<ge> ?hi" using True by simp
    have "QuickSort_range (P @ M @ S) ?lo ?hi = Some (P @ (L' @ pv # Rt') @ S)"
      using lt pt(1) L'(1) Rt'(1) by (subst QuickSort_range.simps) simp
    moreover have "sorted (L' @ pv # Rt')"
    proof -
      have "set L' = set L" using L'(3) by (rule mset_eq_setD)
      moreover have "set Rt' = set Rt" using Rt'(3) by (rule mset_eq_setD)
      ultimately show ?thesis using L'(2) Rt'(2) pt(3,4)
        by (fastforce simp: sorted_append)
    qed
    moreover have "mset (L' @ pv # Rt') = mset M" using L'(3) Rt'(3) pt(2) by simp
    ultimately show ?thesis by blast
  qed
qed

lemma QuickSort_sorts:
  "\<exists>B. QuickSort A (int (length A)) = Some B \<and> sorted B \<and> mset B = mset A"
proof (cases "int (length A) \<le> 1")
  case True
  then have "length A \<le> 1" by simp
  then have "sorted A" by (cases A) (auto simp: Suc_le_eq)
  then show ?thesis using True by (simp add: QuickSort_def)
next
  case False
  from QuickSort_range_result[of "[]" A "[]"] obtain M' where
    "QuickSort_range A 0 (int (length A) - 1) = Some M'" "sorted M'" "mset M' = mset A"
    by auto
  then show ?thesis using False by (simp add: QuickSort_def)
qed

lemma c_div_nonneg: "0 \<le> a \<Longrightarrow> 0 < b \<Longrightarrow> c_div a b = a div b"
  by (cases "a = 0") (simp_all add: c_div_def)

lemma c_mod_nonneg: "0 \<le> a \<Longrightarrow> 0 < b \<Longrightarrow> c_mod a b = a mod b"
  by (simp add: c_mod_def c_div_nonneg minus_mult_div_eq_mod)

lemma div_less_power:
  assumes "(0::int) \<le> x" "0 < r" "x div r < r ^ k"
  shows "x < r ^ Suc k"
proof -
  define q where "q = x div r"
  define m where "m = x mod r"
  have x: "x = r * q + m" by (simp add: q_def m_def)
  have m: "m < r" using assms(2) by (simp add: m_def)
  have "q + 1 \<le> r ^ k" using assms(3) by (simp add: q_def)
  then have "r * (q + 1) \<le> r * r ^ k" using assms(2) by (simp add: mult_left_mono)
  then have "r * q + r \<le> r * r ^ k" by (simp add: algebra_simps)
  then have "x < r * r ^ k" using x m by linarith
  then show ?thesis by simp
qed

lemma power_le_of_div:
  assumes "(0::int) \<le> x" "0 < r" "r ^ k \<le> x div r"
  shows "r ^ Suc k \<le> x"
proof -
  define q where "q = x div r"
  define m where "m = x mod r"
  have x: "x = r * q + m" by (simp add: q_def m_def)
  have m: "0 \<le> m" using assms(2) by (simp add: m_def)
  have "r * r ^ k \<le> r * q" using assms(2,3) by (simp add: mult_left_mono q_def)
  then have "r * r ^ k \<le> x" using x m by linarith
  then show ?thesis by simp
qed

lemma DigitsInBase_loop_result:
  assumes "0 \<le> x" "2 \<le> radix"
  shows "\<exists>k. DigitsInBase_loop x radix d = Some (d + int k) \<and> x < radix ^ k
      \<and> (0 < x \<longrightarrow> 0 < k \<and> radix ^ (k - 1) \<le> x) \<and> (x = 0 \<longrightarrow> k = 0)"
  using assms
proof (induction "nat x" arbitrary: x d rule: less_induct)
  case less
  show ?case
  proof (cases "0 < x")
    case False
    then have x0: "x = 0" using less.prems by simp
    have "DigitsInBase_loop x radix d = Some (d + int 0)"
      using False by (subst DigitsInBase_loop.simps) simp
    then show ?thesis using x0 by (intro exI[of _ 0]) simp
  next
    case True
    have r: "0 < radix" using less.prems by simp
    have cd: "c_div x radix = x div radix" using less.prems r by (simp add: c_div_nonneg)
    have eq: "DigitsInBase_loop x radix d = DigitsInBase_loop (x div radix) radix (d + 1)"
      using True cd by (subst DigitsInBase_loop.simps) simp
    have dec: "nat (x div radix) < nat x"
      using True less.prems(2) by (simp add: nat_less_iff int_div_less_self)
    have nn: "0 \<le> x div radix" using less.prems r by (simp add: pos_imp_zdiv_nonneg_iff)
    from less.hyps[OF dec nn less.prems(2), of "d + 1"] obtain k where
      k: "DigitsInBase_loop (x div radix) radix (d + 1) = Some (d + 1 + int k)"
        "x div radix < radix ^ k"
        "0 < x div radix \<longrightarrow> 0 < k \<and> radix ^ (k - 1) \<le> x div radix"
        "x div radix = 0 \<longrightarrow> k = 0"
      by blast
    have a: "DigitsInBase_loop x radix d = Some (d + int (Suc k))" using eq k(1) by simp
    have b: "x < radix ^ Suc k" by (rule div_less_power[OF less.prems(1) r k(2)])
    have c: "radix ^ (Suc k - 1) \<le> x"
    proof (cases "0 < x div radix")
      case False
      then have "k = 0" using k(4) nn by simp
      then show ?thesis using True by simp
    next
      case pos: True
      then have k1: "0 < k" "radix ^ (k - 1) \<le> x div radix" using k(3) by simp_all
      have "radix ^ Suc (k - 1) \<le> x" by (rule power_le_of_div[OF less.prems(1) r k1(2)])
      then show ?thesis using k1(1) by simp
    qed
    show ?thesis using a b c True by (intro exI[of _ "Suc k"]) simp
  qed
qed

lemma DigitsInBase_result:
  assumes "0 \<le> x" "2 \<le> radix"
  shows "\<exists>k. DigitsInBase x radix = Some (int (Suc k)) \<and> x < radix ^ Suc k
      \<and> (radix ^ k \<le> x \<or> k = 0)"
proof (cases "x = 0")
  case True
  have "DigitsInBase x radix = Some (int (Suc 0))" using True by (simp add: DigitsInBase_def)
  moreover have "x < radix ^ Suc 0" using True assms(2) by simp
  ultimately show ?thesis by blast
next
  case False
  then have pos: "0 < x" using assms(1) by simp
  from DigitsInBase_loop_result[OF assms, of 0] obtain k where
    k: "DigitsInBase_loop x radix 0 = Some (0 + int k)" "x < radix ^ k"
      "0 < x \<longrightarrow> 0 < k \<and> radix ^ (k - 1) \<le> x"
    by blast
  then obtain k' where k': "k = Suc k'" using pos by (cases k) auto
  have "DigitsInBase x radix = Some (int (Suc k'))"
    using False k(1) k' by (simp add: DigitsInBase_def)
  moreover have "x < radix ^ Suc k'" using k(2) k' by simp
  moreover have "radix ^ k' \<le> x" using k(3) pos k' by simp
  ultimately show ?thesis by blast
qed

lemma RadixSortLSD_max_result:
  assumes "0 \<le> i" "i \<le> n" "n = int (length a)" "\<forall>x\<in>set a. 0 \<le> x"
  shows "\<exists>m. RadixSortLSD_max a n i maxVal = Inr m \<and> maxVal \<le> m
      \<and> (\<forall>k. nat i \<le> k \<and> k < length a \<longrightarrow> a ! k \<le> m)
      \<and> (m = maxVal \<or> m \<in> set a)"
  using assms
proof (induction a n i maxVal rule: RadixSortLSD_max.induct)
  case (1 a n i maxVal)
  show ?case
  proof (cases "i < n")
    case False
    have "RadixSortLSD_max a n i maxVal = Inr maxVal"
      using False by (subst RadixSortLSD_max.simps) simp
    moreover have "\<forall>k. nat i \<le> k \<and> k < length a \<longrightarrow> a ! k \<le> maxVal"
      using False "1.prems" by auto
    ultimately show ?thesis by simp
  next
    case True
    have il: "nat i < length a" using True "1.prems" by simp
    then have mem: "a ! nat i \<in> set a" by simp
    then have nn: "\<not> a ! nat i < 0" using "1.prems"(4) by fastforce
    have eq: "RadixSortLSD_max a n i maxVal = RadixSortLSD_max a n (i + 1) (max maxVal (a ! nat i))"
      using True nn by (subst RadixSortLSD_max.simps) simp
    have pre: "0 \<le> i + 1" "i + 1 \<le> n" using True "1.prems" by simp_all
    from "1.IH"[OF True nn pre "1.prems"(3,4)] obtain m where
      m: "RadixSortLSD_max a n (i + 1) (max maxVal (a ! nat i)) = Inr m"
        "max maxVal (a ! nat i) \<le> m"
        "\<forall>k. nat (i + 1) \<le> k \<and> k < length a \<longrightarrow> a ! k \<le> m"
        "m = max maxVal (a ! nat i) \<or> m \<in> set a"
      by blast
    have b: "\<forall>k. nat i \<le> k \<and> k < length a \<longrightarrow> a ! k \<le> m"
    proof (intro allI impI)
      fix k assume k: "nat i \<le> k \<and> k < length a"
      show "a ! k \<le> m"
      proof (cases "k = nat i")
        case True
        then show ?thesis using m(2) by simp
      next
        case False
        then have "nat (i + 1) \<le> k" using k "1.prems"(1) by linarith
        then show ?thesis using m(3) k by simp
      qed
    qed
    have c: "m = maxVal \<or> m \<in> set a" using m(4) mem by (auto simp: max_def split: if_splits)
    show ?thesis using eq m(1,2) b c by simp
  qed
qed

lemma RadixSortLSD_list_result:
  assumes "0 \<le> i" "i \<le> n" "n = int (length a)"
  shows "RadixSortLSD_list a n i lst = lst @ drop (nat i) a"
  using assms
proof (induction a n i lst rule: RadixSortLSD_list.induct)
  case (1 a n i lst)
  show ?case
  proof (cases "i < n")
    case False
    then show ?thesis using "1.prems" by (subst RadixSortLSD_list.simps) simp
  next
    case True
    have il: "nat i < length a" using True "1.prems" by simp
    have eq: "RadixSortLSD_list a n i lst = RadixSortLSD_list a n (i + 1) (lst @ [a ! nat i])"
      using True by (subst RadixSortLSD_list.simps) simp
    have pre: "0 \<le> i + 1" "i + 1 \<le> n" using True "1.prems" by simp_all
    have s: "nat (i + 1) = Suc (nat i)" using "1.prems"(1) by simp
    have "drop (nat i) a = a ! nat i # drop (Suc (nat i)) a"
      using il by (rule Cons_nth_drop_Suc[symmetric])
    then show ?thesis unfolding eq "1.IH"[OF True pre "1.prems"(3)] s by simp
  qed
qed

lemma RadixSortLSD_copy_result:
  assumes "0 \<le> i" "n = int (length a)" "int (length cur) = n - i"
  shows "RadixSortLSD_copy a n i cur = Inr (take (nat i) a @ cur)"
  using assms
proof (induction a n i cur rule: RadixSortLSD_copy.induct)
  case (1 a n i cur)
  show ?case
  proof (cases "i < n")
    case False
    have "int (length cur) \<le> 0" using False "1.prems"(3) by linarith
    then have c0: "cur = []" by simp
    then have "i = n" using "1.prems"(3) by simp
    then have "cur = []" "nat i = length a" using c0 "1.prems"(2) by simp_all
    then show ?thesis using False by (subst RadixSortLSD_copy.simps) simp
  next
    case True
    then obtain k nxt where cur: "cur = k # nxt" using "1.prems"(3) by (cases cur) auto
    have il: "nat i < length a" using True "1.prems" by simp
    have eq: "RadixSortLSD_copy a n i cur = RadixSortLSD_copy (a[nat i := k]) n (i + 1) nxt"
      using True cur by (subst RadixSortLSD_copy.simps) simp
    have pre: "0 \<le> i + 1" "n = int (length (a[nat i := k]))" "int (length nxt) = n - (i + 1)"
      using "1.prems" cur by simp_all
    have s: "nat (i + 1) = Suc (nat i)" using "1.prems"(1) by simp
    have t: "take (Suc (nat i)) (a[nat i := k]) = take (nat i) a @ [k]"
      using il by (simp add: take_Suc_conv_app_nth)
    have "RadixSortLSD_copy a n i cur = Inr (take (nat (i + 1)) (a[nat i := k]) @ nxt)"
      using eq "1.IH"[OF True cur pre] by simp
    also have "\<dots> = Inr (take (nat i) a @ cur)" unfolding s t cur by simp
    finally show ?thesis .
  qed
qed


lemma RadixSortLSD_distribute_result:
  assumes "\<forall>k\<in>set lst. 0 \<le> c_mod (c_div k ex) radix
            \<and> nat (c_mod (c_div k ex) radix) < length buckets"
  shows "length (RadixSortLSD_distribute lst ex radix buckets) = length buckets
    \<and> (\<forall>b. b < length buckets \<longrightarrow>
          RadixSortLSD_distribute lst ex radix buckets ! b
            = buckets ! b @ filter (\<lambda>k. nat (c_mod (c_div k ex) radix) = b) lst)"
  using assms
proof (induction lst arbitrary: buckets)
  case Nil
  then show ?case by simp
next
  case (Cons k nxt)
  define g where "g = nat (c_mod (c_div k ex) radix)"
  let ?B = "buckets[g := buckets ! g @ [k]]"
  have gl: "g < length buckets" using Cons.prems by (simp add: g_def)
  have pre: "\<forall>k\<in>set nxt. 0 \<le> c_mod (c_div k ex) radix
            \<and> nat (c_mod (c_div k ex) radix) < length ?B"
    using Cons.prems by simp
  note ih = Cons.IH[OF pre]
  have eq: "RadixSortLSD_distribute (k # nxt) ex radix buckets
      = RadixSortLSD_distribute nxt ex radix ?B"
    by (simp add: Let_def g_def)
  have "\<forall>b. b < length buckets \<longrightarrow>
      RadixSortLSD_distribute nxt ex radix ?B ! b
        = buckets ! b @ filter (\<lambda>k. nat (c_mod (c_div k ex) radix) = b) (k # nxt)"
  proof (intro allI impI)
    fix b assume b: "b < length buckets"
    then have "RadixSortLSD_distribute nxt ex radix ?B ! b
        = ?B ! b @ filter (\<lambda>k. nat (c_mod (c_div k ex) radix) = b) nxt"
      using ih by simp
    then show "RadixSortLSD_distribute nxt ex radix ?B ! b
        = buckets ! b @ filter (\<lambda>k. nat (c_mod (c_div k ex) radix) = b) (k # nxt)"
      using b gl by (cases "b = g") (simp_all add: g_def)
  qed
  then show ?case unfolding eq using ih by simp
qed

lemma RadixSortLSD_collect_result:
  assumes "0 \<le> digit" "digit \<le> radix" "length buckets = nat radix"
  shows "RadixSortLSD_collect buckets radix digit lst = lst @ concat (drop (nat digit) buckets)"
  using assms
proof (induction buckets radix digit lst rule: RadixSortLSD_collect.induct)
  case (1 buckets radix digit lst)
  show ?case
  proof (cases "digit < radix")
    case False
    then show ?thesis using "1.prems" by (subst RadixSortLSD_collect.simps) simp
  next
    case True
    have dl: "nat digit < length buckets" using True "1.prems" by simp
    have s: "nat (digit + 1) = Suc (nat digit)" using "1.prems"(1) by simp
    have d: "drop (nat digit) buckets = buckets ! nat digit # drop (Suc (nat digit)) buckets"
      using dl by (rule Cons_nth_drop_Suc[symmetric])
    have pre: "0 \<le> digit + 1" "digit + 1 \<le> radix" using True "1.prems" by simp_all
    show ?thesis
    proof (cases "buckets ! nat digit = []")
      case empty: True
      have "RadixSortLSD_collect buckets radix digit lst
          = RadixSortLSD_collect buckets radix (digit + 1) lst"
        using True empty by (subst RadixSortLSD_collect.simps) simp
      also have "\<dots> = lst @ concat (drop (Suc (nat digit)) buckets)"
        using "1.IH"(1)[OF True empty pre "1.prems"(3)] s by simp
      finally show ?thesis unfolding d using empty by simp
    next
      case False
      have "RadixSortLSD_collect buckets radix digit lst
          = RadixSortLSD_collect buckets radix (digit + 1) (lst @ buckets ! nat digit)"
        using True False by (subst RadixSortLSD_collect.simps) simp
      also have "\<dots> = (lst @ buckets ! nat digit) @ concat (drop (Suc (nat digit)) buckets)"
        using "1.IH"(2)[OF True False pre "1.prems"(3)] s by simp
      finally show ?thesis unfolding d by simp
    qed
  qed
qed

text \<open>One pass of distribution and collection, as a list of filters.\<close>

lemma RadixSortLSD_pass_result:
  assumes "2 \<le> radix" "0 < ex" "\<forall>k\<in>set lst. 0 \<le> k"
  shows "RadixSortLSD_collect
           (RadixSortLSD_distribute lst ex radix (replicate (nat radix) [])) radix 0 []
     = concat (map (\<lambda>b. filter (\<lambda>k. nat (k div ex mod radix) = b) lst) [0..<nat radix])"
proof -
  let ?Z = "replicate (nat radix) ([]::int list)"
  let ?D = "RadixSortLSD_distribute lst ex radix ?Z"
  have dg: "\<And>k. k \<in> set lst \<Longrightarrow> c_mod (c_div k ex) radix = k div ex mod radix"
  proof -
    fix k assume "k \<in> set lst"
    then have k: "0 \<le> k" using assms(3) by simp
    then have "c_div k ex = k div ex" using assms(2) by (simp add: c_div_nonneg)
    moreover have "0 \<le> k div ex" using k assms(2) by (simp add: pos_imp_zdiv_nonneg_iff)
    ultimately show "c_mod (c_div k ex) radix = k div ex mod radix"
      using assms(1) by (simp add: c_mod_nonneg)
  qed
  have pre: "\<forall>k\<in>set lst. 0 \<le> c_mod (c_div k ex) radix
            \<and> nat (c_mod (c_div k ex) radix) < length ?Z"
  proof
    fix k assume k: "k \<in> set lst"
    have "0 \<le> k div ex mod radix" "k div ex mod radix < radix" using assms(1) by simp_all
    then show "0 \<le> c_mod (c_div k ex) radix \<and> nat (c_mod (c_div k ex) radix) < length ?Z"
      using dg[OF k] by simp
  qed
  note dr = RadixSortLSD_distribute_result[OF pre]
  have fe: "\<And>b. filter (\<lambda>k. nat (c_mod (c_div k ex) radix) = b) lst
      = filter (\<lambda>k. nat (k div ex mod radix) = b) lst"
    by (rule filter_cong) (simp_all add: dg)
  have D: "?D = map (\<lambda>b. filter (\<lambda>k. nat (k div ex mod radix) = b) lst) [0..<nat radix]"
  proof (rule nth_equalityI)
    show "length ?D = length (map (\<lambda>b. filter (\<lambda>k. nat (k div ex mod radix) = b) lst) [0..<nat radix])"
      using dr by simp
  next
    fix b assume "b < length ?D"
    then have b: "b < nat radix" using dr by simp
    then have "?D ! b = ?Z ! b @ filter (\<lambda>k. nat (c_mod (c_div k ex) radix) = b) lst"
      using dr by simp
    then show "?D ! b = map (\<lambda>b. filter (\<lambda>k. nat (k div ex mod radix) = b) lst) [0..<nat radix] ! b"
      using b fe by simp
  qed
  have len: "length ?D = nat radix" using dr by simp
  have "RadixSortLSD_collect ?D radix 0 [] = [] @ concat (drop (nat 0) ?D)"
    by (rule RadixSortLSD_collect_result) (use assms(1) len in simp_all)
  then show ?thesis using D by simp
qed

lemma sorted_wrt_concat_map:
  assumes "\<forall>b\<in>set bs. sorted_wrt Q (f b)"
    "sorted_wrt (\<lambda>b b'. \<forall>x\<in>set (f b). \<forall>y\<in>set (f b'). Q x y) bs"
  shows "sorted_wrt Q (concat (map f bs))"
  using assms by (induction bs) (auto simp: sorted_wrt_append)

lemma mset_concat_filter_upt:
  "mset (concat (map (\<lambda>b. filter (\<lambda>k. g k = b) lst) [0..<n])) = mset (filter (\<lambda>k. g k < n) lst)"
proof (induction n)
  case 0
  then show ?case by simp
next
  case (Suc n)
  have "mset (filter (\<lambda>k. g k < n) lst) + mset (filter (\<lambda>k. g k = n) lst)
      = mset (filter (\<lambda>k. g k < Suc n) lst)"
    by (induction lst) (auto simp: less_Suc_eq)
  then show ?case using Suc by simp
qed

lemma mod_step:
  assumes "(0::int) < e" "0 < r"
  shows "x mod (e * r) = e * (x div e mod r) + x mod e"
  using assms by (simp add: zmod_zmult2_eq)

lemma pass_keeps_order:
  assumes "(0::int) < e" "2 \<le> r" "\<forall>k\<in>set lst. 0 \<le> k"
    "sorted_wrt (\<lambda>x y. x mod e \<le> y mod e) lst"
  shows "sorted_wrt (\<lambda>x y. x mod (e * r) \<le> y mod (e * r))
           (concat (map (\<lambda>b. filter (\<lambda>k. nat (k div e mod r) = b) lst) [0..<nat r]))"
proof (rule sorted_wrt_concat_map)
  have r: "0 < r" using assms(2) by simp
  show "\<forall>b\<in>set [0..<nat r]. sorted_wrt (\<lambda>x y. x mod (e * r) \<le> y mod (e * r))
          (filter (\<lambda>k. nat (k div e mod r) = b) lst)"
  proof
    fix b assume "b \<in> set [0..<nat r]"
    let ?F = "filter (\<lambda>k. nat (k div e mod r) = b) lst"
    have s: "sorted_wrt (\<lambda>x y. x mod e \<le> y mod e) ?F" using assms(4) by (rule sorted_wrt_filter)
    show "sorted_wrt (\<lambda>x y. x mod (e * r) \<le> y mod (e * r)) ?F"
    proof (rule sorted_wrt_mono_rel[OF _ s])
      fix x y assume a: "x \<in> set ?F" "y \<in> set ?F" "x mod e \<le> y mod e"
      have "0 \<le> x div e mod r" "0 \<le> y div e mod r" using r by simp_all
      then have "x div e mod r = y div e mod r" using a(1,2) by (simp add: nat_eq_iff)
      then show "x mod (e * r) \<le> y mod (e * r)"
        using a(3) by (simp add: mod_step[OF assms(1) r])
    qed
  qed
  show "sorted_wrt (\<lambda>b b'. \<forall>x\<in>set (filter (\<lambda>k. nat (k div e mod r) = b) lst).
            \<forall>y\<in>set (filter (\<lambda>k. nat (k div e mod r) = b') lst). x mod (e * r) \<le> y mod (e * r))
          [0..<nat r]"
  proof (rule sorted_wrt_mono_rel[OF _ sorted_wrt_upt])
    fix b b' :: nat assume lt: "b < b'"
    show "\<forall>x\<in>set (filter (\<lambda>k. nat (k div e mod r) = b) lst).
            \<forall>y\<in>set (filter (\<lambda>k. nat (k div e mod r) = b') lst). x mod (e * r) \<le> y mod (e * r)"
    proof (intro ballI)
      fix x y
      assume x: "x \<in> set (filter (\<lambda>k. nat (k div e mod r) = b) lst)"
        and y: "y \<in> set (filter (\<lambda>k. nat (k div e mod r) = b') lst)"
      define dx where "dx = x div e mod r"
      define dy where "dy = y div e mod r"
      have "0 \<le> dx" "0 \<le> dy" using r by (simp_all add: dx_def dy_def)
      moreover have "nat dx = b" "nat dy = b'" using x y by (simp_all add: dx_def dy_def)
      ultimately have "dx + 1 \<le> dy" using lt by linarith
      then have "e * (dx + 1) \<le> e * dy" using assms(1) by (simp add: mult_left_mono)
      then have m: "e * dx + e \<le> e * dy" by (simp add: algebra_simps)
      have xm: "x mod e < e" and ym: "0 \<le> y mod e" using assms(1) by simp_all
      have "x mod (e * r) = e * dx + x mod e" "y mod (e * r) = e * dy + y mod e"
        by (simp_all add: mod_step[OF assms(1) r] dx_def dy_def)
      then show "x mod (e * r) \<le> y mod (e * r)" using m xm ym by linarith
    qed
  qed
qed


lemma RadixSortLSD_passes_result:
  assumes "2 \<le> radix" "\<forall>k\<in>set lst. 0 \<le> k" "p \<le> D"
    "p < D \<longrightarrow> ex = radix ^ p"
    "radix ^ (D - 1) < 2147483648"
    "sorted_wrt (\<lambda>x y. x mod radix ^ p \<le> y mod radix ^ p) lst"
  shows "mset (RadixSortLSD_passes (int D) radix (int p) ex lst) = mset lst
    \<and> sorted_wrt (\<lambda>x y. x mod radix ^ D \<le> y mod radix ^ D)
         (RadixSortLSD_passes (int D) radix (int p) ex lst)"
  using assms
proof (induction "D - p" arbitrary: p ex lst)
  case 0
  then have pD: "p = D" by simp
  have "RadixSortLSD_passes (int D) radix (int p) ex lst = lst"
    using pD by (subst RadixSortLSD_passes.simps) simp
  then show ?case using "0.prems"(6) pD by simp
next
  case (Suc m)
  then have lt: "p < D" by simp
  have ex: "ex = radix ^ p" using Suc.prems(4) lt by simp
  have r: "0 < radix" using Suc.prems(1) by simp
  have expos: "0 < ex" using ex r by simp
  let ?L = "concat (map (\<lambda>b. filter (\<lambda>k. nat (k div ex mod radix) = b) lst) [0..<nat radix])"
  have pass: "RadixSortLSD_collect
           (RadixSortLSD_distribute lst ex radix (replicate (nat radix) [])) radix 0 [] = ?L"
    by (rule RadixSortLSD_pass_result[OF Suc.prems(1) expos Suc.prems(2)])
  have eq: "RadixSortLSD_passes (int D) radix (int p) ex lst
      = RadixSortLSD_passes (int D) radix (int (Suc p)) (wrap32 (ex * radix)) ?L"
    using lt pass by (subst RadixSortLSD_passes.simps) (simp add: add.commute)
  have all: "filter (\<lambda>k. nat (k div ex mod radix) < nat radix) lst = lst"
  proof -
    have "\<And>k. nat (k div ex mod radix) < nat radix" using r by simp
    then show ?thesis by simp
  qed
  have ms: "mset ?L = mset lst"
    by (simp only: mset_concat_filter_upt[of "\<lambda>k. nat (k div ex mod radix)" lst "nat radix"] all)
  have nn: "\<forall>k\<in>set ?L. 0 \<le> k" using Suc.prems(2) mset_eq_setD[OF ms] by simp
  have so: "sorted_wrt (\<lambda>x y. x mod radix ^ Suc p \<le> y mod radix ^ Suc p) ?L"
    using pass_keeps_order[OF expos Suc.prems(1,2)] Suc.prems(6) ex
    by (simp add: mult.commute)
  have exn: "Suc p < D \<longrightarrow> wrap32 (ex * radix) = radix ^ Suc p"
  proof
    assume a: "Suc p < D"
    have "radix ^ Suc p \<le> radix ^ (D - 1)"
      using a r by (intro power_increasing) simp_all
    then have "radix ^ Suc p < 2147483648" using Suc.prems(5) by linarith
    moreover have "0 \<le> radix ^ Suc p" using r by simp
    ultimately have "wrap32 (radix ^ Suc p) = radix ^ Suc p" by (intro wrap32_id)
    then show "wrap32 (ex * radix) = radix ^ Suc p" using ex by (simp add: mult.commute)
  qed
  have m: "m = D - Suc p" using Suc.hyps(2) by simp
  have le: "Suc p \<le> D" using lt by simp
  note ih = Suc.hyps(1)[OF m Suc.prems(1) nn le exn Suc.prems(5) so]
  show ?case unfolding eq using ih ms by simp
qed

lemma RadixSortLSD_sorts:
  assumes "\<forall>x\<in>set A. 0 \<le> x \<and> x < 2147483648" "2 \<le> radix"
  shows "\<exists>B. RadixSortLSD A (int (length A)) radix = Some (Inr B) \<and> sorted B \<and> mset B = mset A"
proof (cases "int (length A) \<le> 1")
  case True
  then have "length A \<le> 1" by simp
  then have "sorted A" by (cases A) (auto simp: Suc_le_eq)
  then show ?thesis using True by (simp add: RadixSortLSD_def)
next
  case False
  let ?n = "int (length A)"
  have nn: "\<forall>x\<in>set A. 0 \<le> x" using assms(1) by simp
  have b0: "(0::int) \<le> 0" "0 \<le> ?n" by simp_all
  from RadixSortLSD_max_result[OF b0 refl nn, of 0] obtain mx where
    mx: "RadixSortLSD_max A ?n 0 0 = Inr mx" "0 \<le> mx"
      "\<forall>k. nat 0 \<le> k \<and> k < length A \<longrightarrow> A ! k \<le> mx" "mx = 0 \<or> mx \<in> set A"
    by blast
  have mxb: "mx < 2147483648" using mx(4) assms(1) by auto
  have le_mx: "\<forall>x\<in>set A. x \<le> mx" using mx(3) by (auto simp: in_set_conv_nth)
  from DigitsInBase_result[OF mx(2) assms(2)] obtain k where
    k: "DigitsInBase mx radix = Some (int (Suc k))" "mx < radix ^ Suc k" "radix ^ k \<le> mx \<or> k = 0"
    by blast
  have pk: "radix ^ (Suc k - 1) < 2147483648" using k(3) mxb by auto
  have lst: "RadixSortLSD_list A ?n 0 [] = A"
    using RadixSortLSD_list_result[OF b0 refl, of "[]"] by simp
  let ?L = "RadixSortLSD_passes (int (Suc k)) radix (int 0) 1 A"
  have ps: "mset ?L = mset A \<and> sorted_wrt (\<lambda>x y. x mod radix ^ Suc k \<le> y mod radix ^ Suc k) ?L"
    by (rule RadixSortLSD_passes_result[OF assms(2) nn _ _ pk]) simp_all
  have setL: "set ?L = set A" using ps by (intro mset_eq_setD) simp
  have lenL: "length ?L = length A" using ps by (intro mset_eq_length) simp
  have sorted: "sorted ?L"
  proof -
    have "sorted_wrt (\<le>) ?L"
    proof (rule sorted_wrt_mono_rel[of ?L "\<lambda>x y. x mod radix ^ Suc k \<le> y mod radix ^ Suc k"])
      fix x y assume a: "x \<in> set ?L" "y \<in> set ?L" "x mod radix ^ Suc k \<le> y mod radix ^ Suc k"
      have "0 \<le> x" "x < radix ^ Suc k" "0 \<le> y" "y < radix ^ Suc k"
        using a(1,2) setL nn le_mx k(2) by fastforce+
      then show "x \<le> y" using a(3) by simp
    next
      show "sorted_wrt (\<lambda>x y. x mod radix ^ Suc k \<le> y mod radix ^ Suc k) ?L" using ps by simp
    qed
    then show ?thesis by simp
  qed
  have cp: "RadixSortLSD_copy A ?n 0 ?L = Inr (take (nat 0) A @ ?L)"
    by (rule RadixSortLSD_copy_result) (use lenL in simp_all)
  have "RadixSortLSD A ?n radix = Some (Inr ?L)"
    using False assms(2) mx(1) k(1) lst cp by (simp add: RadixSortLSD_def)
  then show ?thesis using sorted ps by blast
qed

text \<open>
  Claim C1.  For every array \<open>A\<close> of integers, passed with its length, \<open>BubbleSort\<close>
  and \<open>QuickSort\<close> return (the recursion of \<open>QuickSort\<close> ends) an array that is a
  permutation of \<open>A\<close> in non-decreasing order, and so does \<open>RadixSortLSD\<close>, without
  an exception, for every radix of at least 2 when all elements are non-negative
  values of \<open>int\<close>.
\<close>

theorem C1_sorts_return_sorted_permutation:
  "(sorted (BubbleSort A (int (length A))) \<and> mset (BubbleSort A (int (length A))) = mset A)
   \<and> (\<exists>B. QuickSort A (int (length A)) = Some B \<and> sorted B \<and> mset B = mset A)
   \<and> ((\<forall>x\<in>set A. 0 \<le> x \<and> x < 2147483648) \<and> 2 \<le> radix \<longrightarrow>
        (\<exists>B. RadixSortLSD A (int (length A)) radix = Some (Inr B)
             \<and> sorted B \<and> mset B = mset A))"
proof -
  have b: "sorted (BubbleSort A (int (length A))) \<and> mset (BubbleSort A (int (length A))) = mset A"
    using BubbleSort_sorts[of A] by simp
  have q: "\<exists>B. QuickSort A (int (length A)) = Some B \<and> sorted B \<and> mset B = mset A"
    by (rule QuickSort_sorts)
  have r: "(\<forall>x\<in>set A. 0 \<le> x \<and> x < 2147483648) \<and> 2 \<le> radix \<longrightarrow>
        (\<exists>B. RadixSortLSD A (int (length A)) radix = Some (Inr B)
             \<and> sorted B \<and> mset B = mset A)"
    using RadixSortLSD_sorts[of A radix] by blast
  show ?thesis using b q r by blast
qed

text \<open>
  The theorem at the ten two-digit keys 73, 22, 93, 43, 55, 14, 28, 65, 39, 81 with
  radix 10: the three functions return the same sorted array.
\<close>

theorem C1_sorts_return_sorted_permutation_witness:
  "BubbleSort [73, 22, 93, 43, 55, 14, 28, 65, 39, 81] 10
     = [14, 22, 28, 39, 43, 55, 65, 73, 81, 93]
   \<and> QuickSort [73, 22, 93, 43, 55, 14, 28, 65, 39, 81] 10
     = Some [14, 22, 28, 39, 43, 55, 65, 73, 81, 93]
   \<and> RadixSortLSD [73, 22, 93, 43, 55, 14, 28, 65, 39, 81] 10 10
     = Some (Inr [14, 22, 28, 39, 43, 55, 65, 73, 81, 93])
   \<and> sorted (BubbleSort [73, 22, 93, 43, 55, 14, 28, 65, 39, 81] 10)
   \<and> (\<exists>B. QuickSort [73, 22, 93, 43, 55, 14, 28, 65, 39, 81] 10 = Some B \<and> sorted B
          \<and> mset B = mset [73, 22, 93, 43, 55, 14, 28, 65, 39, 81])
   \<and> (\<exists>B. RadixSortLSD [73, 22, 93, 43, 55, 14, 28, 65, 39, 81] 10 10 = Some (Inr B)
          \<and> sorted B \<and> mset B = mset [73, 22, 93, 43, 55, 14, 28, 65, 39, 81])"
proof -
  let ?A = "[73, 22, 93, 43, 55, 14, 28, 65, 39, 81] :: int list"
  have len: "int (length ?A) = 10" by simp
  have h: "(\<forall>x\<in>set ?A. 0 \<le> x \<and> x < 2147483648) \<and> (2::int) \<le> 10" by simp
  note t = C1_sorts_return_sorted_permutation[of ?A 10, unfolded len]
  have e1: "BubbleSort ?A 10 = [14, 22, 28, 39, 43, 55, 65, 73, 81, 93]" by code_simp
  have e2: "QuickSort ?A 10 = Some [14, 22, 28, 39, 43, 55, 65, 73, 81, 93]" by code_simp
  have e3: "RadixSortLSD ?A 10 10 = Some (Inr [14, 22, 28, 39, 43, 55, 65, 73, 81, 93])"
    by code_simp
  from t have s1: "sorted (BubbleSort ?A 10)" by blast
  from t have s2: "\<exists>B. QuickSort ?A 10 = Some B \<and> sorted B \<and> mset B = mset ?A" by blast
  from t h have s3: "\<exists>B. RadixSortLSD ?A 10 10 = Some (Inr B) \<and> sorted B \<and> mset B = mset ?A"
    by blast
  show ?thesis using e1 e2 e3 s1 s2 s3 by blast
qed

end
